(* ===== verification/Fas_Prelude.thy ===== *)
theory Fas_Prelude
  imports Main "HOL-Library.AList"
begin

text \<open>
  Shared vocabulary of the development: the named collections the component theories
  add to, and the generic facts about lists and association lists they rest on.

  A Go \<^verbatim>\<open>map[string]T\<close> is an association list with distinct keys; the order of
  the list carries no meaning, and every loop over a map takes the order in which the
  runtime visits the keys as an argument of its own. A Go \<^verbatim>\<open>string\<close> is a
  sequence of bytes, and so is a HOL \<^typ>\<open>string\<close>, whose characters have eight bits.
\<close>

named_theorems frame "fields that an operation leaves alone"
named_theorems inv_keep "operations that keep an invariant"

type_synonym bytes = string
type_synonym 'v gomap = "(string \<times> 'v) list"

abbreviation keys :: "'v gomap \<Rightarrow> string set" where
  "keys m \<equiv> fst ` set m"

definition msum :: "('v \<Rightarrow> int) \<Rightarrow> 'v gomap \<Rightarrow> int" where
  "msum f m = sum_list (map (\<lambda>kv. f (snd kv)) m)"

lemma msum_Nil [simp]: "msum f [] = 0"
  by (simp add: msum_def)

lemma msum_Cons [simp]: "msum f (kv # m) = f (snd kv) + msum f m"
  by (simp add: msum_def)

lemma map_of_key_cases:
  "k \<in> keys m \<longleftrightarrow> (\<exists>v. map_of m k = Some v)"
  by (metis dom_map_of_conv_image_fst domD domI)

lemma map_of_keyD: "map_of m k = Some v \<Longrightarrow> k \<in> keys m"
  by (force dest: map_of_SomeD)

lemma msum_update:
  "distinct (map fst m) \<Longrightarrow>
   msum f (AList.update k v m)
     = msum f m + f v - (case map_of m k of None \<Rightarrow> 0 | Some w \<Rightarrow> f w)"
  by (induction m) (auto split: option.splits)

lemma delete_absent: "k \<notin> keys m \<Longrightarrow> AList.delete k m = m"
  by (induction m) auto

lemma msum_delete:
  "distinct (map fst m) \<Longrightarrow>
   msum f (AList.delete k m)
     = msum f m - (case map_of m k of None \<Rightarrow> 0 | Some w \<Rightarrow> f w)"
proof (induction m)
  case (Cons kv m)
  then show ?case
    by (cases "fst kv = k") (auto simp: delete_absent split: option.splits)
qed simp

lemma msum_nonneg: "(\<And>k v. (k, v) \<in> set m \<Longrightarrow> 0 \<le> f v) \<Longrightarrow> 0 \<le> msum f m"
  by (induction m) (auto, fastforce)

lemma keys_delete [simp]: "keys (AList.delete k m) = keys m - {k}"
  by (auto simp: AList.delete_eq image_iff)

lemma keys_update [simp]: "keys (AList.update k v m) = insert k (keys m)"
  by (induction m) auto

lemma distinct_keys_delete [simp]:
  "distinct (map fst m) \<Longrightarrow> distinct (map fst (AList.delete k m))"
  by (rule distinct_delete)

lemma distinct_keys_update [simp]:
  "distinct (map fst m) \<Longrightarrow> distinct (map fst (AList.update k v m))"
  by (rule distinct_update)

lemma map_of_alist_update [simp]:
  "map_of (AList.update k v m) = (map_of m)(k \<mapsto> v)"
  by (rule update_conv')

lemma map_of_alist_delete [simp]: "map_of (AList.delete k m) = (map_of m)(k := None)"
  by (rule delete_conv')



lemma in_set_map_of:
  "distinct (map fst m) \<Longrightarrow> (k, v) \<in> set m \<longleftrightarrow> map_of m k = Some v"
  by (rule map_of_eq_Some_iff [symmetric])

lemma length_takeWhile_less: "x \<in> set xs \<Longrightarrow> \<not> P x \<Longrightarrow> length (takeWhile P xs) < length xs"
  by (induction xs) auto

end
