(* ===== verification/Fas_Heap.thy ===== *)
theory Fas_Heap
  imports Fas_Prelude "HOL-Library.Multiset"
begin

text \<open>
  The priority queues behind the LRU and LFU eviction policies. The store keeps two
  binary heaps (\<^verbatim>\<open>lruMinHeap\<close> and \<^verbatim>\<open>lfuMinHeap\<close> of pkg/store/store.go), each
  a slice with the five methods of Go's \<^verbatim>\<open>heap.Interface\<close>, and drives them with
  \<^verbatim>\<open>heap.Push\<close> and \<^verbatim>\<open>heap.Pop\<close> of the standard library.

  The generic algorithms take the methods as arguments. The locale \<open>heap_interface\<close>
  states what the methods promise; inside it the algorithms are shown to keep the heap
  order, to keep the multiset of entries and to deliver a least entry. Both heaps of the
  store are instances.
\<close>

section \<open>The algorithms of container/heap\<close>

function heap_up ::
  "('a list \<Rightarrow> nat \<Rightarrow> nat \<Rightarrow> bool) \<Rightarrow> ('a list \<Rightarrow> nat \<Rightarrow> nat \<Rightarrow> 'a list) \<Rightarrow> 'a list \<Rightarrow> nat \<Rightarrow> 'a list"
where
  "heap_up lt swp h j =
     (let i = (j - 1) div 2
      in if i = j \<or> \<not> lt h j i then h else heap_up lt swp (swp h i j) i)"
  by pat_completeness auto
termination
  by (relation "measure (\<lambda>(lt, swp, h, j). j)") auto

function heap_down ::
  "('a list \<Rightarrow> nat \<Rightarrow> nat \<Rightarrow> bool) \<Rightarrow> ('a list \<Rightarrow> nat \<Rightarrow> nat \<Rightarrow> 'a list) \<Rightarrow> 'a list \<Rightarrow> nat \<Rightarrow> nat \<Rightarrow> 'a list"
where
  "heap_down lt swp h i n =
     (let j1 = 2 * i + 1
      in if j1 \<ge> n then h
         else let j = (if j1 + 1 < n \<and> lt h (j1 + 1) j1 then j1 + 1 else j1)
              in if \<not> lt h j i then h else heap_down lt swp (swp h i j) j n)"
  by pat_completeness auto
termination
  by (relation "measure (\<lambda>(lt, swp, h, i, n). n - i)") auto

declare heap_up.simps [simp del] heap_down.simps [simp del]

definition heap_Push ::
  "('a list \<Rightarrow> nat \<Rightarrow> nat \<Rightarrow> bool) \<Rightarrow> ('a list \<Rightarrow> nat \<Rightarrow> nat \<Rightarrow> 'a list) \<Rightarrow> ('a list \<Rightarrow> 'a \<Rightarrow> 'a list)
   \<Rightarrow> 'a list \<Rightarrow> 'a \<Rightarrow> 'a list"
where
  "heap_Push lt swp push h x =
     (let h' = push h x in heap_up lt swp h' (length h' - 1))"

definition heap_Pop ::
  "('a list \<Rightarrow> nat \<Rightarrow> nat \<Rightarrow> bool) \<Rightarrow> ('a list \<Rightarrow> nat \<Rightarrow> nat \<Rightarrow> 'a list) \<Rightarrow> ('a list \<Rightarrow> 'a \<times> 'a list)
   \<Rightarrow> 'a list \<Rightarrow> 'a \<times> 'a list"
where
  "heap_Pop lt swp pop h =
     (let n = length h - 1 in pop (heap_down lt swp (swp h 0 n) 0 n))"

section \<open>The two heaps of the store\<close>

record lruEntry =
  lru_key :: string
  lru_ts :: int
  lru_version :: int

record lfuEntry =
  lfu_key :: string
  lfu_freq :: int
  lfu_ts :: int
  lfu_version :: int

definition lruMinHeap_Less :: "lruEntry list \<Rightarrow> nat \<Rightarrow> nat \<Rightarrow> bool" where
  "lruMinHeap_Less h i j \<longleftrightarrow> lru_ts (h ! i) < lru_ts (h ! j)"

definition lruMinHeap_Swap :: "lruEntry list \<Rightarrow> nat \<Rightarrow> nat \<Rightarrow> lruEntry list" where
  "lruMinHeap_Swap h i j = h[i := h ! j, j := h ! i]"

definition lruMinHeap_Push :: "lruEntry list \<Rightarrow> lruEntry \<Rightarrow> lruEntry list" where
  "lruMinHeap_Push h x = h @ [x]"

definition lruMinHeap_Pop :: "lruEntry list \<Rightarrow> lruEntry \<times> lruEntry list" where
  "lruMinHeap_Pop old =
     (let n = length old; x = old ! (n - 1) in (x, take (n - 1) old))"

definition lfuMinHeap_Less :: "lfuEntry list \<Rightarrow> nat \<Rightarrow> nat \<Rightarrow> bool" where
  "lfuMinHeap_Less h i j \<longleftrightarrow>
     (if lfu_freq (h ! i) = lfu_freq (h ! j) then lfu_ts (h ! i) < lfu_ts (h ! j)
      else lfu_freq (h ! i) < lfu_freq (h ! j))"

definition lfuMinHeap_Swap :: "lfuEntry list \<Rightarrow> nat \<Rightarrow> nat \<Rightarrow> lfuEntry list" where
  "lfuMinHeap_Swap h i j = h[i := h ! j, j := h ! i]"

definition lfuMinHeap_Push :: "lfuEntry list \<Rightarrow> lfuEntry \<Rightarrow> lfuEntry list" where
  "lfuMinHeap_Push h x = h @ [x]"

definition lfuMinHeap_Pop :: "lfuEntry list \<Rightarrow> lfuEntry \<times> lfuEntry list" where
  "lfuMinHeap_Pop old =
     (let n = length old; x = old ! (n - 1) in (x, take (n - 1) old))"

definition lru_push :: "lruEntry list \<Rightarrow> lruEntry \<Rightarrow> lruEntry list" where
  "lru_push = heap_Push lruMinHeap_Less lruMinHeap_Swap lruMinHeap_Push"

definition lru_pop :: "lruEntry list \<Rightarrow> lruEntry \<times> lruEntry list" where
  "lru_pop = heap_Pop lruMinHeap_Less lruMinHeap_Swap lruMinHeap_Pop"

definition lfu_push :: "lfuEntry list \<Rightarrow> lfuEntry \<Rightarrow> lfuEntry list" where
  "lfu_push = heap_Push lfuMinHeap_Less lfuMinHeap_Swap lfuMinHeap_Push"

definition lfu_pop :: "lfuEntry list \<Rightarrow> lfuEntry \<times> lfuEntry list" where
  "lfu_pop = heap_Pop lfuMinHeap_Less lfuMinHeap_Swap lfuMinHeap_Pop"

section \<open>Heap order\<close>

text \<open>
  \<open>heap_order le h\<close>: no entry is below its parent. The two weaker forms exempt one
  index, the one that is being moved up or down.
\<close>

definition heap_order :: "('a \<Rightarrow> 'a \<Rightarrow> bool) \<Rightarrow> 'a list \<Rightarrow> bool" where
  "heap_order le h \<longleftrightarrow> (\<forall>x < length h. 0 < x \<longrightarrow> le (h ! ((x - 1) div 2)) (h ! x))"

definition order_but_up :: "('a \<Rightarrow> 'a \<Rightarrow> bool) \<Rightarrow> 'a list \<Rightarrow> nat \<Rightarrow> bool" where
  "order_but_up le h j \<longleftrightarrow>
     (\<forall>x < length h. 0 < x \<longrightarrow>
        (x \<noteq> j \<longrightarrow> le (h ! ((x - 1) div 2)) (h ! x)) \<and>
        ((x - 1) div 2 = j \<and> 0 < j \<longrightarrow> le (h ! ((j - 1) div 2)) (h ! x)))"

definition order_but_down :: "('a \<Rightarrow> 'a \<Rightarrow> bool) \<Rightarrow> 'a list \<Rightarrow> nat \<Rightarrow> nat \<Rightarrow> bool" where
  "order_but_down le h i n \<longleftrightarrow>
     (\<forall>x < n. 0 < x \<longrightarrow>
        ((x - 1) div 2 \<noteq> i \<longrightarrow> le (h ! ((x - 1) div 2)) (h ! x)) \<and>
        ((x - 1) div 2 = i \<and> 0 < i \<longrightarrow> le (h ! ((i - 1) div 2)) (h ! x)))"

definition min_child :: "('a \<Rightarrow> 'a \<Rightarrow> bool) \<Rightarrow> 'a list \<Rightarrow> nat \<Rightarrow> nat \<Rightarrow> nat" where
  "min_child le h i n =
     (if 2 * i + 2 < n \<and> \<not> le (h ! (2 * i + 1)) (h ! (2 * i + 2)) then 2 * i + 2 else 2 * i + 1)"

lemma min_child_bounds:
  assumes "2 * i + 1 < n"
  shows "i < min_child le h i n" "min_child le h i n < n" "(min_child le h i n - 1) div 2 = i"
  using assms by (auto simp: min_child_def)

locale heap_interface =
  fixes le :: "'a \<Rightarrow> 'a \<Rightarrow> bool"
    and lt :: "'a list \<Rightarrow> nat \<Rightarrow> nat \<Rightarrow> bool"
    and swp :: "'a list \<Rightarrow> nat \<Rightarrow> nat \<Rightarrow> 'a list"
    and push :: "'a list \<Rightarrow> 'a \<Rightarrow> 'a list"
    and pop :: "'a list \<Rightarrow> 'a \<times> 'a list"
  assumes le_trans: "le a b \<Longrightarrow> le b c \<Longrightarrow> le a c"
    and le_total: "le a b \<or> le b a"
    and lt_iff: "lt h i j \<longleftrightarrow> \<not> le (h ! j) (h ! i)"
    and swp_eq: "swp h i j = h[i := h ! j, j := h ! i]"
    and push_eq: "push h x = h @ [x]"
    and pop_eq: "h \<noteq> [] \<Longrightarrow> pop h = (last h, butlast h)"
begin

lemma le_refl: "le a a"
  using le_total by blast

lemma length_swp [simp]: "length (swp h i j) = length h"
  by (simp add: swp_eq)

lemma mset_swp: "i < length h \<Longrightarrow> j < length h \<Longrightarrow> mset (swp h i j) = mset h"
  by (simp add: swp_eq mset_swap)

lemma nth_swp:
  "i < length h \<Longrightarrow> j < length h \<Longrightarrow>
   swp h i j ! x = (if x = j then h ! i else if x = i then h ! j else h ! x)"
  by (simp add: swp_eq nth_list_update)


lemma up_unfold:
  "heap_up lt swp h j =
     (if j = 0 \<or> le (h ! ((j - 1) div 2)) (h ! j) then h
      else heap_up lt swp (swp h ((j - 1) div 2) j) ((j - 1) div 2))"
proof -
  have "(j - 1) div 2 = j \<longleftrightarrow> j = 0" by arith
  then show ?thesis
    by (subst heap_up.simps) (simp add: Let_def lt_iff)
qed

lemma up_mset: "j < length h \<Longrightarrow> mset (heap_up lt swp h j) = mset h"
proof (induction j arbitrary: h rule: less_induct)
  case (less j)
  show ?case
  proof (cases "j = 0 \<or> le (h ! ((j - 1) div 2)) (h ! j)")
    case True
    then show ?thesis by (simp add: up_unfold [of h])
  next
    case False
    then have "(j - 1) div 2 < j" by auto
    with less.IH [of "(j - 1) div 2" "swp h ((j - 1) div 2) j"] less.prems False
    show ?thesis by (simp add: up_unfold [of h] mset_swp)
  qed
qed

lemma up_swp_order:
  assumes ord: "order_but_up le h j" and j: "0 < j" "j < length h"
    and nle: "\<not> le (h ! ((j - 1) div 2)) (h ! j)"
  shows "order_but_up le (swp h ((j - 1) div 2) j) ((j - 1) div 2)"
  unfolding order_but_up_def
proof (intro allI impI)
  fix x
  assume x: "x < length (swp h ((j - 1) div 2) j)" "0 < x"
  let ?i = "(j - 1) div 2" and ?p = "(x - 1) div 2"
  let ?h = "swp h ?i j"
  have i: "?i < j" using j by arith
  have nth: "?h ! y = (if y = j then h ! ?i else if y = ?i then h ! j else h ! y)" for y
    by (rule nth_swp) (use i j in auto)
  have ji: "le (h ! j) (h ! ?i)" using nle le_total by blast
  have first: "y \<noteq> j \<Longrightarrow> 0 < y \<Longrightarrow> y < length h \<Longrightarrow> le (h ! ((y - 1) div 2)) (h ! y)" for y
    using ord by (simp add: order_but_up_def)
  have snd: "?p = j \<Longrightarrow> le (h ! ?i) (h ! x)"
    using ord x j by (simp add: order_but_up_def)
  have px: "?p < x" using x by arith
  have sib: "?p = ?i \<Longrightarrow> x \<noteq> j \<Longrightarrow> le (h ! ?i) (h ! x)"
    using first [of x] x by simp
  have "x \<noteq> ?i \<longrightarrow> le (?h ! ?p) (?h ! x)"
    using ji sib snd first [of x] x px le_trans [OF ji] i
    by (auto simp: nth simp del: One_nat_def)
  moreover have "?p = ?i \<and> 0 < ?i \<longrightarrow> le (?h ! ((?i - 1) div 2)) (?h ! x)"
  proof
    assume a: "?p = ?i \<and> 0 < ?i"
    then have pi: "le (h ! ((?i - 1) div 2)) (h ! ?i)" "(?i - 1) div 2 < ?i"
      using first [of ?i] i j by (auto intro: le_less_trans [OF div_le_dividend])
    from a px have "x \<noteq> ?i" by auto
    with pi i sib a le_trans [OF pi(1) sib] show "le (?h ! ((?i - 1) div 2)) (?h ! x)"
      by (auto simp: nth simp del: One_nat_def)
  qed
  ultimately show "(x \<noteq> ?i \<longrightarrow> le (?h ! ?p) (?h ! x)) \<and>
      (?p = ?i \<and> 0 < ?i \<longrightarrow> le (?h ! ((?i - 1) div 2)) (?h ! x))" ..
qed

lemma up_order:
  "order_but_up le h j \<Longrightarrow> j < length h \<Longrightarrow> heap_order le (heap_up lt swp h j)"
proof (induction j arbitrary: h rule: less_induct)
  case (less j)
  show ?case
  proof (cases "j = 0 \<or> le (h ! ((j - 1) div 2)) (h ! j)")
    case True
    with less.prems show ?thesis
      by (auto simp: up_unfold [of h] order_but_up_def heap_order_def)
  next
    case False
    then have "(j - 1) div 2 < j" by auto
    moreover have "order_but_up le (swp h ((j - 1) div 2) j) ((j - 1) div 2)"
      using less.prems False by (intro up_swp_order) auto
    ultimately show ?thesis
      using less.IH less.prems False by (subst up_unfold) simp
  qed
qed

lemma push_mset: "mset (heap_Push lt swp push h x) = add_mset x (mset h)"
  by (simp add: heap_Push_def Let_def push_eq up_mset)

lemma push_order:
  assumes "heap_order le h"
  shows "heap_order le (heap_Push lt swp push h x)"
proof -
  have "order_but_up le (h @ [x]) (length h)"
    using assms
    by (auto simp: order_but_up_def heap_order_def nth_append)
  then show ?thesis
    by (simp add: heap_Push_def Let_def push_eq up_order)
qed

lemma min_child_le:
  assumes "x < n" "0 < x" "(x - 1) div 2 = i"
  shows "le (h ! min_child le h i n) (h ! x)"
proof -
  have "x = 2 * i + 1 \<or> x = 2 * i + 2" using assms by arith
  then show ?thesis
    using assms le_refl le_total [of "h ! (2 * i + 1)" "h ! (2 * i + 2)"]
    by (auto simp: min_child_def simp del: One_nat_def)
qed

lemma down_unfold:
  "heap_down lt swp h i n =
     (if 2 * i + 1 \<ge> n \<or> le (h ! i) (h ! min_child le h i n) then h
      else heap_down lt swp (swp h i (min_child le h i n)) (min_child le h i n) n)"
  by (subst heap_down.simps) (auto simp: Let_def lt_iff min_child_def)

lemma down_induct [consumes 1, case_names stop step]:
  assumes n: "n \<le> length h"
    and stop: "\<And>h i. n \<le> length h \<Longrightarrow> 2 * i + 1 \<ge> n \<or> le (h ! i) (h ! min_child le h i n) \<Longrightarrow> P h i h"
    and step: "\<And>h i r. n \<le> length h \<Longrightarrow> 2 * i + 1 < n \<Longrightarrow> \<not> le (h ! i) (h ! min_child le h i n) \<Longrightarrow>
      P (swp h i (min_child le h i n)) (min_child le h i n) r \<Longrightarrow> P h i r"
  shows "P h i (heap_down lt swp h i n)"
  using n
proof (induction "n - i" arbitrary: h i rule: less_induct)
  case less
  show ?case
  proof (cases "2 * i + 1 \<ge> n \<or> le (h ! i) (h ! min_child le h i n)")
    case True
    with stop [OF less.prems True] show ?thesis by (subst down_unfold) simp
  next
    case False
    then have c: "i < min_child le h i n" "min_child le h i n < n"
      using min_child_bounds [of i n le h] by auto
    with less have "P (swp h i (min_child le h i n)) (min_child le h i n)
        (heap_down lt swp (swp h i (min_child le h i n)) (min_child le h i n) n)"
      by (intro less.hyps) auto
    with False step less.prems show ?thesis
      by (subst down_unfold) auto
  qed
qed

lemma swp_child:
  assumes "n \<le> length h" "2 * i + 1 < n"
  shows "mset (swp h i (min_child le h i n)) = mset h"
    and "drop n (swp h i (min_child le h i n)) = drop n h"
  using assms min_child_bounds [OF assms(2), of le h]
  by (simp_all add: mset_swp) (simp add: swp_eq)

lemma down_mset: "n \<le> length h \<Longrightarrow> mset (heap_down lt swp h i n) = mset h"
  by (rule_tac down_induct [where P = "\<lambda>h i r. mset r = mset h"]) (auto simp: swp_child)

lemma down_drop: "n \<le> length h \<Longrightarrow> drop n (heap_down lt swp h i n) = drop n h"
  by (rule_tac down_induct [where P = "\<lambda>h i r. drop n r = drop n h"]) (auto simp: swp_child)

lemma down_swp_order:
  assumes ord: "order_but_down le h i n" and n: "n \<le> length h" "2 * i + 1 < n"
    and nle: "\<not> le (h ! i) (h ! min_child le h i n)"
  shows "order_but_down le (swp h i (min_child le h i n)) (min_child le h i n) n"
  unfolding order_but_down_def
proof (intro allI impI)
  fix x
  assume x: "x < n" "0 < x"
  let ?j = "min_child le h i n" and ?p = "(x - 1) div 2"
  let ?h = "swp h i ?j"
  note j = min_child_bounds [OF n(2), of le h]
  have nth: "?h ! y = (if y = ?j then h ! i else if y = i then h ! ?j else h ! y)" for y
    by (rule nth_swp) (use j n in auto)
  have ji: "le (h ! ?j) (h ! i)" using nle le_total by blast
  have first: "?p \<noteq> i \<Longrightarrow> le (h ! ?p) (h ! x)"
    using ord x by (simp add: order_but_down_def)
  have up: "0 < i \<Longrightarrow> le (h ! ((i - 1) div 2)) (h ! ?j)"
    using ord j unfolding order_but_down_def by (metis gr_zeroI not_less0)
  have px: "?p < x" using x by arith
  have "?p \<noteq> ?j \<longrightarrow> le (?h ! ?p) (?h ! x)"
    using first up ji min_child_le [of x n i h] x px j by (auto simp: nth)
  moreover have "?p = ?j \<and> 0 < ?j \<longrightarrow> le (?h ! ((?j - 1) div 2)) (?h ! x)"
    using first px j by (auto simp: nth)
  ultimately show "(?p \<noteq> ?j \<longrightarrow> le (?h ! ?p) (?h ! x)) \<and>
      (?p = ?j \<and> 0 < ?j \<longrightarrow> le (?h ! ((?j - 1) div 2)) (?h ! x))" ..
qed

lemma down_order:
  "n \<le> length h \<Longrightarrow> order_but_down le h i n \<longrightarrow> heap_order le (take n (heap_down lt swp h i n))"
proof (induction h i _ rule: down_induct)
  case (stop h i)
  show ?case
  proof
    assume ord: "order_but_down le h i n"
    show "heap_order le (take n h)"
      unfolding heap_order_def
    proof (intro allI impI)
      fix x
      assume x: "x < length (take n h)" "0 < x"
      have "le (h ! ((x - 1) div 2)) (h ! x)"
      proof (cases "(x - 1) div 2 = i")
        case True
        then have "2 * i + 1 < n" using x by auto
        with stop True x show ?thesis
          using min_child_le [of x n i h] le_trans by auto
      next
        case False
        with ord x show ?thesis by (simp add: order_but_down_def)
      qed
      moreover have "(x - 1) div 2 < n" using x by auto
      ultimately show "le (take n h ! ((x - 1) div 2)) (take n h ! x)" using x by simp
    qed
  qed
next
  case (step h i r)
  then show ?case by (simp add: down_swp_order)
qed

lemma root_least:
  assumes "heap_order le h" "x < length h"
  shows "le (h ! 0) (h ! x)"
  using assms(2)
proof (induction x rule: less_induct)
  case (less x)
  show ?case
  proof (cases "x = 0")
    case True
    then show ?thesis by (simp add: le_refl)
  next
    case False
    then have "le (h ! 0) (h ! ((x - 1) div 2))"
      using less by (intro less.IH) auto
    moreover have "le (h ! ((x - 1) div 2)) (h ! x)"
      using assms(1) less.prems False by (simp add: heap_order_def)
    ultimately show ?thesis by (rule le_trans)
  qed
qed

lemma pop_split:
  assumes "h \<noteq> []"
  defines "n \<equiv> length h - 1"
  shows "heap_Pop lt swp pop h = (h ! 0, take n (heap_down lt swp (swp h 0 n) 0 n))"
proof -
  let ?d = "heap_down lt swp (swp h 0 n) 0 n"
  have len: "length ?d = Suc n"
    using down_mset [of n "swp h 0 n" 0] assms by (metis Suc_pred' diff_le_self length_greater_0_conv length_swp size_mset)
  have "drop n ?d = drop n (swp h 0 n)"
    using assms by (intro down_drop) auto
  also have "\<dots> = [h ! 0]"
    using assms by (simp add: swp_eq drop_update_cancel flip: Cons_nth_drop_Suc)
  finally have d: "?d = take n ?d @ [h ! 0]"
    by (metis append_take_drop_id)
  have "butlast ?d = take n ?d" "last ?d = h ! 0"
    using len by (simp add: butlast_conv_take, subst d, simp)
  moreover have "?d \<noteq> []" using len by auto
  ultimately show ?thesis
    by (simp add: heap_Pop_def Let_def pop_eq n_def)
qed

lemma pop_mset:
  assumes "heap_Pop lt swp pop h = (x, h')" "h \<noteq> []"
  shows "mset h = add_mset x (mset h')"
proof -
  let ?n = "length h - 1"
  let ?d = "heap_down lt swp (swp h 0 ?n) 0 ?n"
  have "drop ?n ?d = [h ! 0]"
    using assms by (subst down_drop) (auto simp: swp_eq drop_update_cancel simp flip: Cons_nth_drop_Suc)
  then have "mset ?d = mset (take ?n ?d @ [h ! 0])"
    by (metis append_take_drop_id)
  moreover have "mset ?d = mset h"
    using assms by (simp add: down_mset mset_swp)
  ultimately show ?thesis
    using assms pop_split [of h] by simp
qed

lemma pop_length:
  assumes "heap_Pop lt swp pop h = (x, h')" "h \<noteq> []"
  shows "length h = Suc (length h')"
  using arg_cong [OF pop_mset [OF assms], of size] by simp

lemma pop_order:
  assumes "heap_Pop lt swp pop h = (x, h')" "h \<noteq> []" "heap_order le h"
  shows "heap_order le h'"
proof -
  let ?n = "length h - 1"
  have "order_but_down le (swp h 0 ?n) 0 ?n"
    using assms(2,3) by (auto simp: order_but_down_def heap_order_def nth_swp)
  then have "heap_order le (take ?n (heap_down lt swp (swp h 0 ?n) 0 ?n))"
    using down_order [of ?n "swp h 0 ?n" 0] by simp
  with assms pop_split [of h] show ?thesis by simp
qed

lemma pop_least:
  assumes "heap_Pop lt swp pop h = (x, h')" "h \<noteq> []" "heap_order le h" "y \<in> set h"
  shows "le x y"
proof -
  from assms(1,2) have "x = h ! 0" by (simp add: pop_split)
  with assms(3,4) show ?thesis by (auto simp: in_set_conv_nth intro: root_least)
qed

end

text \<open>The two orders: the age of the last access, and the access count with the age second.\<close>

definition lru_le :: "lruEntry \<Rightarrow> lruEntry \<Rightarrow> bool" where
  "lru_le a b \<longleftrightarrow> lru_ts a \<le> lru_ts b"

definition lfu_le :: "lfuEntry \<Rightarrow> lfuEntry \<Rightarrow> bool" where
  "lfu_le a b \<longleftrightarrow> lfu_freq a < lfu_freq b \<or> lfu_freq a = lfu_freq b \<and> lfu_ts a \<le> lfu_ts b"

interpretation lruh: heap_interface lru_le lruMinHeap_Less lruMinHeap_Swap lruMinHeap_Push lruMinHeap_Pop
  by unfold_locales
    (auto simp: lru_le_def lruMinHeap_Less_def lruMinHeap_Swap_def lruMinHeap_Push_def
      lruMinHeap_Pop_def Let_def last_conv_nth butlast_conv_take)

interpretation lfuh: heap_interface lfu_le lfuMinHeap_Less lfuMinHeap_Swap lfuMinHeap_Push lfuMinHeap_Pop
  by unfold_locales
    (auto simp: lfu_le_def lfuMinHeap_Less_def lfuMinHeap_Swap_def lfuMinHeap_Push_def
      lfuMinHeap_Pop_def Let_def last_conv_nth butlast_conv_take)

lemmas lru_push_laws = lruh.push_mset [folded lru_push_def] lruh.push_order [folded lru_push_def]
lemmas lfu_push_laws = lfuh.push_mset [folded lfu_push_def] lfuh.push_order [folded lfu_push_def]
lemmas lru_pop_laws = lruh.pop_mset [folded lru_pop_def] lruh.pop_order [folded lru_pop_def]
  lruh.pop_least [folded lru_pop_def]
lemmas lfu_pop_laws = lfuh.pop_mset [folded lfu_pop_def] lfuh.pop_order [folded lfu_pop_def]
  lfuh.pop_least [folded lfu_pop_def]

lemmas lru_pop_length = lruh.pop_length [folded lru_pop_def]
lemmas lfu_pop_length = lfuh.pop_length [folded lfu_pop_def]

lemma heap_order_Nil [simp]: "heap_order le []"
  by (simp add: heap_order_def)

end
