(* ===== verification/Fas_Fifo.thy ===== *)
theory Fas_Fifo
  imports Fas_Prelude
begin

text \<open>
  The ring buffer that remembers the insertion order of the keys without a time to live
  (the \<^verbatim>\<open>fifo*\<close> fields of \<^verbatim>\<open>Store\<close> in pkg/store/store.go). Slots are reused
  modulo the capacity, a removed key leaves an empty string behind as a tombstone, and the
  buffer is doubled when full and compacted when half of it may be tombstones.

  \<open>ring_list\<close> reads the occupied slots from head to tail and \<open>live\<close> drops the
  tombstones; every operation is related to the plain list operation it stands for. The
  contract is the locale \<open>fifo_queue\<close>, which the ring buffer implements.
\<close>

section \<open>State and operations\<close>

record fifo =
  fifoKeys :: "string list"
  fifoHead :: nat
  fifoTail :: nat
  fifoSize :: nat
  fifoCap :: nat
  tombs :: nat

definition fifo_new :: fifo where
  "fifo_new = \<lparr>fifoKeys = replicate 1024 [], fifoHead = 0, fifoTail = 0, fifoSize = 0,
     fifoCap = 1024, tombs = 0\<rparr>"

definition fifo_reset :: "fifo \<Rightarrow> fifo" where
  "fifo_reset r = r\<lparr>fifoHead := 0, fifoTail := 0, fifoSize := 0, tombs := 0\<rparr>"

text \<open>The index increment shared by the loops: \<^verbatim>\<open>i++; if i == cap { i = 0 }\<close>.\<close>

definition next_slot :: "nat \<Rightarrow> nat \<Rightarrow> nat" where
  "next_slot cap i = (if i + 1 = cap then 0 else i + 1)"

fun copy_loop :: "string list \<Rightarrow> nat \<Rightarrow> nat \<Rightarrow> nat \<Rightarrow> nat \<Rightarrow> string list \<Rightarrow> string list" where
  "copy_loop old oldCap i 0 idx newKeys = newKeys"
| "copy_loop old oldCap i (Suc c) idx newKeys =
     copy_loop old oldCap (next_slot oldCap i) c (idx + 1) (newKeys[idx := old ! i])"

definition ensureFIFOCap :: "fifo \<Rightarrow> fifo" where
  "ensureFIFOCap r =
     (if fifoSize r < fifoCap r - 1 then r
      else let oldCap = fifoCap r; newCap = oldCap * 2;
               newKeys = copy_loop (fifoKeys r) oldCap (fifoHead r) (fifoSize r) 0 (replicate newCap [])
           in r\<lparr>fifoKeys := newKeys, fifoHead := 0, fifoTail := fifoSize r, fifoCap := newCap,
                tombs := 0\<rparr>)"

definition addFIFOUnlocked :: "string \<Rightarrow> fifo \<Rightarrow> fifo" where
  "addFIFOUnlocked key r0 =
     (let r = ensureFIFOCap r0;
          r1 = r\<lparr>fifoKeys := (fifoKeys r)[fifoTail r := key],
                 fifoTail := (fifoTail r + 1) mod fifoCap r\<rparr>
      in if fifoSize r1 < fifoCap r1 then r1\<lparr>fifoSize := fifoSize r1 + 1\<rparr>
         else r1\<lparr>fifoHead := (fifoHead r1 + 1) mod fifoCap r1\<rparr>)"

fun compact_loop ::
  "string list \<Rightarrow> nat \<Rightarrow> nat \<Rightarrow> nat \<Rightarrow> nat \<Rightarrow> string list \<Rightarrow> string list \<times> nat"
where
  "compact_loop old oldCap i 0 idx newKeys = (newKeys, idx)"
| "compact_loop old oldCap i (Suc c) idx newKeys =
     (if old ! i \<noteq> []
      then compact_loop old oldCap (next_slot oldCap i) c (idx + 1) (newKeys[idx := old ! i])
      else compact_loop old oldCap (next_slot oldCap i) c idx newKeys)"

definition compactIfNeeded :: "fifo \<Rightarrow> fifo" where
  "compactIfNeeded r =
     (if fifoSize r = 0 then r\<lparr>fifoHead := 0, fifoTail := 0, tombs := 0\<rparr>
      else if tombs r < fifoSize r div 2 then r
      else let oldCap = fifoCap r;
               (newKeys, idx) = compact_loop (fifoKeys r) oldCap (fifoHead r) (fifoSize r) 0
                                  (replicate oldCap [])
           in r\<lparr>fifoKeys := newKeys, fifoHead := 0, fifoTail := idx, fifoSize := idx, tombs := 0\<rparr>)"

fun remove_loop :: "string \<Rightarrow> nat \<Rightarrow> nat \<Rightarrow> nat \<Rightarrow> string list \<Rightarrow> nat \<Rightarrow> string list \<times> nat" where
  "remove_loop key cap i 0 ks t = (ks, t)"
| "remove_loop key cap i (Suc c) ks t =
     (if ks ! i = key then (ks[i := []], t + 1)
      else remove_loop key cap (next_slot cap i) c ks t)"

definition removeFIFOUnlocked :: "string \<Rightarrow> fifo \<Rightarrow> fifo" where
  "removeFIFOUnlocked key r =
     (let (ks, t) = remove_loop key (fifoCap r) (fifoHead r) (fifoSize r) (fifoKeys r) (tombs r)
      in compactIfNeeded (r\<lparr>fifoKeys := ks, tombs := t\<rparr>))"

function popFIFO :: "fifo \<Rightarrow> string \<times> fifo" where
  "popFIFO r =
     (if fifoSize r > 0
      then let key = fifoKeys r ! fifoHead r;
               r' = r\<lparr>fifoKeys := (fifoKeys r)[fifoHead r := []],
                      fifoHead := (fifoHead r + 1) mod fifoCap r,
                      fifoSize := fifoSize r - 1\<rparr>
           in if key \<noteq> [] then (key, r') else popFIFO r'
      else ([], r))"
  by pat_completeness auto
termination
  by (relation "measure fifoSize") auto

declare popFIFO.simps [simp del]

section \<open>The list the ring stands for\<close>

definition window :: "'a list \<Rightarrow> nat \<Rightarrow> nat \<Rightarrow> nat \<Rightarrow> 'a list" where
  "window ks cap i n = map (\<lambda>j. ks ! ((i + j) mod cap)) [0..<n]"

definition ring_list :: "fifo \<Rightarrow> string list" where
  "ring_list r = window (fifoKeys r) (fifoCap r) (fifoHead r) (fifoSize r)"

definition live :: "fifo \<Rightarrow> string list" where
  "live r = filter (\<lambda>k. k \<noteq> []) (ring_list r)"

definition fifo_ok :: "fifo \<Rightarrow> bool" where
  "fifo_ok r \<longleftrightarrow> length (fifoKeys r) = fifoCap r \<and> fifoHead r < fifoCap r \<and>
     fifoSize r < fifoCap r \<and> fifoTail r = (fifoHead r + fifoSize r) mod fifoCap r"

lemma length_window [simp]: "length (window ks cap i n) = n"
  by (simp add: window_def)

lemma window_0 [simp]: "window ks cap i 0 = []"
  by (simp add: window_def)

lemma next_slot_mod: "i < cap \<Longrightarrow> next_slot cap i = (i + 1) mod cap"
  by (auto simp: next_slot_def)

lemma next_slot_less: "i < cap \<Longrightarrow> next_slot cap i < cap"
  by (auto simp: next_slot_def)

lemma window_Suc:
  assumes "i < cap"
  shows "window ks cap i (Suc n) = ks ! i # window ks cap (next_slot cap i) n"
proof -
  have "(next_slot cap i + j) mod cap = (i + Suc j) mod cap" for j
    using assms by (simp add: next_slot_mod mod_add_left_eq)
  then show ?thesis
    using assms by (simp add: window_def upt_conv_Cons map_Suc_upt [symmetric] comp_def del: upt_Suc)
qed

lemma window_append: "window ks cap i (Suc n) = window ks cap i n @ [ks ! ((i + n) mod cap)]"
  by (simp add: window_def)

lemma slot_inj:
  assumes "(i + a) mod cap = (i + b) mod cap" "a < cap" "b < cap"
  shows "a = (b :: nat)"
proof -
  from assms(1) obtain p q where "(i + a) + cap * p = (i + b) + cap * q"
    using nat_mod_eq_iff by blast
  then have "(a + cap * p) mod cap = (b + cap * q) mod cap" by simp
  with assms(2,3) show ?thesis by simp
qed

lemma window_update:
  assumes "q < cap" "n \<le> cap" "length ks = cap"
  shows "window (ks[(i + q) mod cap := v]) cap i n
         = (if q < n then (window ks cap i n)[q := v] else window ks cap i n)"
proof (rule nth_equalityI)
  fix j
  assume "j < length (window (ks[(i + q) mod cap := v]) cap i n)"
  then have j: "j < n" by simp
  have "(i + q) mod cap = (i + j) mod cap \<longleftrightarrow> q = j"
    using slot_inj [of i q cap j] assms j by auto
  then show "window (ks[(i + q) mod cap := v]) cap i n ! j
      = (if q < n then (window ks cap i n)[q := v] else window ks cap i n) ! j"
    using j assms by (auto simp: window_def nth_list_update)
qed simp

lemma window_take:
  assumes "n \<le> cap" "cap \<le> length ks"
  shows "window ks cap 0 n = take n ks"
  using assms by (intro nth_equalityI) (auto simp: window_def)

section \<open>The loops\<close>

lemma copy_loop_eq:
  "i < cap \<Longrightarrow> idx + c \<le> length newKeys \<Longrightarrow>
   copy_loop old cap i c idx newKeys
     = take idx newKeys @ window old cap i c @ drop (idx + c) newKeys"
proof (induction c arbitrary: i idx newKeys)
  case (Suc c)
  then show ?case
    by (simp add: window_Suc next_slot_less take_Suc_conv_app_nth)
qed simp

lemma compact_loop_eq:
  "i < cap \<Longrightarrow> idx + c \<le> length newKeys \<Longrightarrow>
   compact_loop old cap i c idx newKeys
     = (let w = filter (\<lambda>k. k \<noteq> []) (window old cap i c)
        in (take idx newKeys @ w @ drop (idx + length w) newKeys, idx + length w))"
proof (induction c arbitrary: i idx newKeys)
  case (Suc c)
  then show ?case
    by (simp add: window_Suc next_slot_less take_Suc_conv_app_nth Let_def)
qed simp

lemma remove_loop_eq:
  "i < cap \<Longrightarrow>
   remove_loop key cap i c ks t
     = (let w = window ks cap i c
        in if key \<in> set w
           then (ks[(i + length (takeWhile (\<lambda>k. k \<noteq> key) w)) mod cap := []], t + 1)
           else (ks, t))"
proof (induction c arbitrary: i)
  case (Suc c)
  then show ?case
    by (auto simp: window_Suc next_slot_less Let_def next_slot_mod mod_add_left_eq)
qed simp

lemma blank_first:
  assumes "key \<noteq> []" "key \<in> set w"
  shows "filter (\<lambda>k. k \<noteq> []) (w[length (takeWhile (\<lambda>k. k \<noteq> key) w) := []])
         = remove1 key (filter (\<lambda>k. k \<noteq> []) w)"
  using assms by (induction w) auto

section \<open>Correctness of the operations\<close>

lemma fifo_ok_new: "fifo_ok fifo_new"
  by (simp add: fifo_ok_def fifo_new_def)

lemma live_new: "live fifo_new = []"
  by (simp add: live_def ring_list_def fifo_new_def)

lemma fifo_ok_reset: "fifo_ok r \<Longrightarrow> fifo_ok (fifo_reset r)"
  by (auto simp: fifo_ok_def fifo_reset_def)

lemma live_reset: "live (fifo_reset r) = []"
  by (simp add: live_def ring_list_def fifo_reset_def)

lemma ensure_facts:
  assumes "fifo_ok r"
  shows "fifo_ok (ensureFIFOCap r)" "ring_list (ensureFIFOCap r) = ring_list r"
    "fifoSize (ensureFIFOCap r) = fifoSize r"
    "fifoSize (ensureFIFOCap r) + 1 < fifoCap (ensureFIFOCap r)"
proof -
  let ?c = "copy_loop (fifoKeys r) (fifoCap r) (fifoHead r) (fifoSize r) 0 (replicate (fifoCap r * 2) [])"
  have c: "?c = ring_list r @ replicate (fifoCap r * 2 - fifoSize r) []"
    using assms by (subst copy_loop_eq) (auto simp: fifo_ok_def ring_list_def)
  have lenr: "length (ring_list r) = fifoSize r" by (simp add: ring_list_def)
  have w: "window ?c (fifoCap r * 2) 0 (fifoSize r) = ring_list r"
    using assms lenr unfolding c by (subst window_take) (auto simp: fifo_ok_def)
  show "fifo_ok (ensureFIFOCap r)" "fifoSize (ensureFIFOCap r) = fifoSize r"
    "fifoSize (ensureFIFOCap r) + 1 < fifoCap (ensureFIFOCap r)"
    using assms c lenr by (auto simp: ensureFIFOCap_def Let_def fifo_ok_def)
  show "ring_list (ensureFIFOCap r) = ring_list r"
    using w by (simp add: ensureFIFOCap_def Let_def ring_list_def)
qed

lemma add_room: "fifo_ok r \<Longrightarrow> fifoSize (ensureFIFOCap r) < fifoCap (ensureFIFOCap r)"
  using ensure_facts(4) by fastforce

lemma add_facts:
  assumes "fifo_ok r0"
  shows "fifo_ok (addFIFOUnlocked key r0)" "ring_list (addFIFOUnlocked key r0) = ring_list r0 @ [key]"
proof -
  define r where "r = ensureFIFOCap r0"
  note r = ensure_facts [OF assms, folded r_def]
  have tail: "fifoTail r = (fifoHead r + fifoSize r) mod fifoCap r" "length (fifoKeys r) = fifoCap r"
    using r(1) by (auto simp: fifo_ok_def)
  have "addFIFOUnlocked key r0 = r\<lparr>fifoKeys := (fifoKeys r)[fifoTail r := key],
      fifoTail := (fifoTail r + 1) mod fifoCap r, fifoSize := fifoSize r + 1\<rparr>"
    using r(4) by (simp add: addFIFOUnlocked_def r_def [symmetric] Let_def)
  with r tail show "fifo_ok (addFIFOUnlocked key r0)"
    "ring_list (addFIFOUnlocked key r0) = ring_list r0 @ [key]"
    by (auto simp: fifo_ok_def ring_list_def window_append window_update mod_Suc_eq
        simp flip: r(2) intro!: arg_cong2 [where f = "(mod)"])
qed

lemma compact_facts:
  assumes "fifo_ok r"
  shows "fifo_ok (compactIfNeeded r)" "live (compactIfNeeded r) = live r"
    "fifoSize (compactIfNeeded r) \<le> fifoSize r"
proof -
  define w where "w = live r"
  have lw: "length w \<le> fifoSize r"
    unfolding w_def live_def ring_list_def by (metis length_filter_le length_window)
  have c: "compact_loop (fifoKeys r) (fifoCap r) (fifoHead r) (fifoSize r) 0 (replicate (fifoCap r) [])
      = (w @ replicate (fifoCap r - length w) [], length w)"
    using assms by (subst compact_loop_eq) (auto simp: fifo_ok_def live_def ring_list_def w_def Let_def)
  have wt: "window (w @ replicate (fifoCap r - length w) []) (fifoCap r) 0 (length w) = w"
    using assms lw by (subst window_take) (auto simp: fifo_ok_def)
  have fw: "filter (\<lambda>k. k \<noteq> []) w = w"
    by (simp add: w_def live_def)
  show "fifo_ok (compactIfNeeded r)" "fifoSize (compactIfNeeded r) \<le> fifoSize r"
    using assms lw by (auto simp: compactIfNeeded_def Let_def c fifo_ok_def)
  have "fifoSize r = 0 \<Longrightarrow> live r = []"
    by (simp add: live_def ring_list_def)
  then show "live (compactIfNeeded r) = live r"
    using wt fw by (simp add: compactIfNeeded_def Let_def c live_def ring_list_def w_def)
qed

lemma live_no_blank: "[] \<notin> set (live r)"
  by (simp add: live_def)

lemma remove_facts:
  assumes "fifo_ok r"
  shows "fifo_ok (removeFIFOUnlocked key r)"
    "live (removeFIFOUnlocked key r) = remove1 key (live r)"
    "fifoSize (removeFIFOUnlocked key r) \<le> fifoSize r"
proof -
  define q where "q = length (takeWhile (\<lambda>k. k \<noteq> key) (ring_list r))"
  define r1 where "r1 = (if key \<in> set (ring_list r)
     then r\<lparr>fifoKeys := (fifoKeys r)[(fifoHead r + q) mod fifoCap r := []], tombs := tombs r + 1\<rparr>
     else r)"
  have rem: "removeFIFOUnlocked key r = compactIfNeeded r1"
    using assms
    by (auto simp: removeFIFOUnlocked_def remove_loop_eq fifo_ok_def Let_def r1_def q_def ring_list_def)
  have q: "key \<in> set (ring_list r) \<Longrightarrow> q < fifoSize r"
    using length_takeWhile_less [of key "ring_list r" "\<lambda>k. k \<noteq> key"]
    by (simp add: q_def ring_list_def)
  have ok1: "fifo_ok r1" "fifoSize r1 = fifoSize r"
    using assms by (auto simp: r1_def fifo_ok_def)
  have "ring_list r1 = (if key \<in> set (ring_list r) then (ring_list r)[q := []] else ring_list r)"
    using assms q by (auto simp: r1_def ring_list_def window_update fifo_ok_def)
  then have "live r1 = remove1 key (live r)"
  proof (cases "key = []")
    case True
    have "filter (\<lambda>k. k \<noteq> []) (xs[length (takeWhile (\<lambda>k. k \<noteq> []) xs) := []]) = filter (\<lambda>k. k \<noteq> []) xs"
      for xs :: "string list"
      by (induction xs) auto
    with True \<open>ring_list r1 = _\<close> show ?thesis
      by (simp add: live_def remove1_idem q_def)
  next
    case False
    with \<open>ring_list r1 = _\<close> show ?thesis
      by (auto simp: live_def blank_first q_def remove1_idem)
  qed
  with rem ok1 compact_facts [of r1] show "fifo_ok (removeFIFOUnlocked key r)"
    "live (removeFIFOUnlocked key r) = remove1 key (live r)"
    "fifoSize (removeFIFOUnlocked key r) \<le> fifoSize r"
    by simp_all
qed

lemma pop_step:
  assumes "fifo_ok r" "0 < fifoSize r"
  defines "r' \<equiv> r\<lparr>fifoKeys := (fifoKeys r)[fifoHead r := []],
      fifoHead := (fifoHead r + 1) mod fifoCap r, fifoSize := fifoSize r - 1\<rparr>"
  shows "fifo_ok r'" "ring_list r = fifoKeys r ! fifoHead r # ring_list r'"
proof -
  obtain n where n: "fifoSize r = Suc n" using assms by (cases "fifoSize r") auto
  have h: "fifoHead r < fifoCap r" "length (fifoKeys r) = fifoCap r" "Suc n < fifoCap r"
    using assms n by (auto simp: fifo_ok_def)
  have "window ((fifoKeys r)[fifoHead r := []]) (fifoCap r) (fifoHead r) (Suc n)
      = (window (fifoKeys r) (fifoCap r) (fifoHead r) (Suc n))[0 := []]"
    using h window_update [of 0 "fifoCap r" "Suc n" "fifoKeys r" "fifoHead r" "[]"] by simp
  then have "window ((fifoKeys r)[fifoHead r := []]) (fifoCap r) (next_slot (fifoCap r) (fifoHead r)) n
      = window (fifoKeys r) (fifoCap r) (next_slot (fifoCap r) (fifoHead r)) n"
    using h by (simp add: window_Suc)
  with h n show "ring_list r = fifoKeys r ! fifoHead r # ring_list r'"
    by (simp add: r'_def ring_list_def window_Suc next_slot_mod)
  show "fifo_ok r'"
    using assms(1) h n by (auto simp: r'_def fifo_ok_def mod_simps)
qed

lemma pop_facts:
  "fifo_ok r \<Longrightarrow> popFIFO r = (key, r') \<Longrightarrow>
   fifo_ok r' \<and> fifoSize r' \<le> fifoSize r \<and> (0 < fifoSize r \<longrightarrow> fifoSize r' < fifoSize r) \<and>
   (case live r of [] \<Rightarrow> key = [] \<and> live r' = [] \<and> fifoSize r' = 0
                 | k # ks \<Rightarrow> key = k \<and> live r' = ks)"
proof (induction r arbitrary: key r' rule: popFIFO.induct)
  case (1 r)
  show ?case
  proof (cases "0 < fifoSize r")
    case False
    with "1.prems" show ?thesis
      by (auto simp: popFIFO.simps live_def ring_list_def)
  next
    case True
    define r1 where "r1 = r\<lparr>fifoKeys := (fifoKeys r)[fifoHead r := []],
      fifoHead := (fifoHead r + 1) mod fifoCap r, fifoSize := fifoSize r - 1\<rparr>"
    note st = pop_step [OF "1.prems"(1) True, folded r1_def]
    have size1: "fifoSize r1 = fifoSize r - 1" by (simp add: r1_def)
    show ?thesis
    proof (cases "fifoKeys r ! fifoHead r = []")
      case blank: True
      then have "popFIFO r1 = (key, r')"
        using "1.prems" True by (simp add: popFIFO.simps [of r] r1_def Let_def)
      moreover have "live r1 = live r" using st(2) blank by (simp add: live_def)
      ultimately show ?thesis
        using "1.IH" [OF True refl, unfolded r1_def [symmetric]] blank st(1) size1 True
        by (fastforce split: list.splits)
    next
      case False
      then have "key = fifoKeys r ! fifoHead r" "r' = r1"
        using "1.prems" True by (auto simp: popFIFO.simps [of r] r1_def Let_def)
      with st size1 True False show ?thesis by (simp add: live_def)
    qed
  qed
qed

text \<open>Sizes shrink whatever the state of the ring: the eviction loop ends.\<close>

lemma compact_loop_idx: "snd (compact_loop old cap i c idx newKeys) \<le> idx + c"
  by (induction old cap i c idx newKeys rule: compact_loop.induct) auto

lemma fifoSize_remove_le: "fifoSize (removeFIFOUnlocked key r) \<le> fifoSize r"
proof -
  have "fifoSize (compactIfNeeded r') \<le> fifoSize r'" for r'
    using compact_loop_idx [of "fifoKeys r'" "fifoCap r'" "fifoHead r'" "fifoSize r'" 0]
    by (auto simp: compactIfNeeded_def Let_def split: prod.splits) (metis add_0 snd_conv)
  from this [of "r\<lparr>fifoKeys := _, tombs := _\<rparr>"] show ?thesis
    by (auto simp: removeFIFOUnlocked_def split: prod.splits)
qed

lemma fifoSize_pop_less: "popFIFO r = (key, r') \<Longrightarrow> 0 < fifoSize r \<Longrightarrow> fifoSize r' < fifoSize r"
proof (induction r arbitrary: key r' rule: popFIFO.induct)
  case (1 r)
  define r1 where "r1 = r\<lparr>fifoKeys := (fifoKeys r)[fifoHead r := []],
      fifoHead := (fifoHead r + 1) mod fifoCap r, fifoSize := fifoSize r - 1\<rparr>"
  have "(key, r') = (if fifoKeys r ! fifoHead r \<noteq> [] then (fifoKeys r ! fifoHead r, r1) else popFIFO r1)"
    using "1.prems" by (auto simp: popFIFO.simps [of r] r1_def Let_def split: if_splits)
  moreover have "fifoSize r1 < fifoSize r" using "1.prems" by (simp add: r1_def)
  moreover have "fifoSize r1 = 0 \<Longrightarrow> popFIFO r1 = ([], r1)" by (simp add: popFIFO.simps)
  moreover have "fifoKeys r ! fifoHead r = [] \<Longrightarrow> popFIFO r1 = (key, r') \<Longrightarrow> 0 < fifoSize r1 \<Longrightarrow> fifoSize r' < fifoSize r1"
    using "1.IH" [OF "1.prems"(2) refl] by (simp add: r1_def)
  ultimately show ?case by (cases "fifoSize r1") (auto split: if_splits)
qed

section \<open>The contract\<close>

text \<open>
  What the store relies on: a queue of non-empty keys with removal from the middle, whose
  \<open>pop\<close> delivers the oldest key, or the empty string once none is left.
\<close>

locale fifo_queue =
  fixes ok :: "'q \<Rightarrow> bool" and view :: "'q \<Rightarrow> string list" and fill :: "'q \<Rightarrow> nat"
    and add :: "string \<Rightarrow> 'q \<Rightarrow> 'q" and remove :: "string \<Rightarrow> 'q \<Rightarrow> 'q" and pop :: "'q \<Rightarrow> string \<times> 'q"
  assumes no_blank: "[] \<notin> set (view q)"
    and fill_0: "fill q = 0 \<Longrightarrow> view q = []"
    and ok_add: "ok q \<Longrightarrow> ok (add k q)"
    and view_add: "ok q \<Longrightarrow> view (add k q) = view q @ (if k = [] then [] else [k])"
    and ok_remove: "ok q \<Longrightarrow> ok (remove k q)"
    and view_remove: "ok q \<Longrightarrow> view (remove k q) = remove1 k (view q)"
    and fill_remove: "ok q \<Longrightarrow> fill (remove k q) \<le> fill q"
    and ok_pop: "ok q \<Longrightarrow> pop q = (k, q') \<Longrightarrow> ok q'"
    and fill_pop: "ok q \<Longrightarrow> pop q = (k, q') \<Longrightarrow> 0 < fill q \<Longrightarrow> fill q' < fill q"
    and pop_Nil: "ok q \<Longrightarrow> pop q = (k, q') \<Longrightarrow> view q = [] \<Longrightarrow> k = [] \<and> view q' = [] \<and> fill q' = 0"
    and pop_Cons: "ok q \<Longrightarrow> pop q = (k, q') \<Longrightarrow> view q = x # xs \<Longrightarrow> k = x \<and> view q' = xs"
begin

lemma pop_view:
  assumes "ok q" "pop q = (k, q')"
  shows "view q = (if k = [] then [] else k # view q')"
proof (cases "view q")
  case Nil
  with pop_Nil [OF assms] show ?thesis by simp
next
  case (Cons x xs)
  with pop_Cons [OF assms Cons] no_blank [of q] show ?thesis by auto
qed

lemma pop_blank:
  assumes "ok q" "pop q = ([], q')"
  shows "view q = []" "view q' = []"
proof -
  show "view q = []" using pop_view [OF assms] by simp
  from pop_Nil [OF assms this] show "view q' = []" by blast
qed

lemma distinct_remove: "ok q \<Longrightarrow> distinct (view q) \<Longrightarrow> distinct (view (remove k q)) \<and> set (view (remove k q)) = set (view q) - {k}"
  by (simp add: view_remove distinct_remove1 set_remove1_eq)

lemma distinct_add:
  "ok q \<Longrightarrow> distinct (view q) \<Longrightarrow> k \<notin> set (view q) \<Longrightarrow>
   distinct (view (add k q)) \<and> set (view (add k q)) = set (view q) \<union> ({k} - {[]})"
  by (simp add: view_add)

lemma distinct_pop:
  assumes "ok q" "distinct (view q)" "pop q = (k, q')" "k \<noteq> []"
  shows "distinct (view q') \<and> set (view q') = set (view q) - {k} \<and> k \<in> set (view q)"
  using pop_view [OF assms(1,3)] assms by auto

end

interpretation fq: fifo_queue fifo_ok live fifoSize addFIFOUnlocked removeFIFOUnlocked popFIFO
proof unfold_locales
  fix q k q' x xs
  show "[] \<notin> set (live q)" by (rule live_no_blank)
  show "fifoSize q = 0 \<Longrightarrow> live q = []" by (simp add: live_def ring_list_def)
  assume ok: "fifo_ok q"
  show "fifo_ok (addFIFOUnlocked k q)" by (rule add_facts [OF ok])
  show "live (addFIFOUnlocked k q) = live q @ (if k = [] then [] else [k])"
    by (simp add: live_def add_facts [OF ok])
  show "fifo_ok (removeFIFOUnlocked k q)" "live (removeFIFOUnlocked k q) = remove1 k (live q)"
    "fifoSize (removeFIFOUnlocked k q) \<le> fifoSize q"
    by (rule remove_facts [OF ok])+
  assume pop: "popFIFO q = (k, q')"
  note p = pop_facts [OF ok pop]
  show "fifo_ok q'" using p by simp
  show "0 < fifoSize q \<Longrightarrow> fifoSize q' < fifoSize q" using p by simp
  show "live q = [] \<Longrightarrow> k = [] \<and> live q' = [] \<and> fifoSize q' = 0" using p by simp
  show "live q = x # xs \<Longrightarrow> k = x \<and> live q' = xs" using p by simp
qed

end
