(* ===== verification/Fas_Go.thy ===== *)
theory Fas_Go
  imports Fas_Prelude
begin

text \<open>
  The parts of Go and of its standard library the program uses: panics, 64-bit signed
  wrap-around, byte strings (package \<^verbatim>\<open>strings\<close>), decimal printing and the
  \<^verbatim>\<open>%d\<close> verb of \<^verbatim>\<open>fmt.Sscanf\<close>.

  White space is the white space of Unicode in its UTF-8 encoding, as \<^verbatim>\<open>strings.TrimSpace\<close>
  and \<^verbatim>\<open>strings.Fields\<close> use it. Three things are left open and passed as a record of
  functions (\<open>golib\<close>): the case tables of Unicode, which \<^verbatim>\<open>ToUpper\<close> and
  \<^verbatim>\<open>ToLower\<close> consult for a string with a byte outside ASCII, and what
  \<^verbatim>\<open>fmt.Errorf\<close> makes of a format that has verbs but no operands.
\<close>

section \<open>Panics and machine integers\<close>

datatype 'a outcome = Ret 'a | Panic string

definition wrap64 :: "int \<Rightarrow> int" where
  "wrap64 x = (x + 2 ^ 63) mod 2 ^ 64 - 2 ^ 63"

lemma wrap64_id: "- (2 ^ 63) \<le> x \<Longrightarrow> x < 2 ^ 63 \<Longrightarrow> wrap64 x = x"
  by (simp add: wrap64_def)

lemma wrap64_range: "- (2 ^ 63) \<le> wrap64 x \<and> wrap64 x < 2 ^ 63"
  by (simp add: wrap64_def)

section \<open>Byte strings\<close>

record golib =
  uni_upper :: "string \<Rightarrow> string"
  uni_lower :: "string \<Rightarrow> string"
  errorf_verbs :: "string \<Rightarrow> string"

text \<open>An instance for evaluation: no case mapping outside ASCII, formats as they are.\<close>

definition ascii_golib :: golib where
  "ascii_golib = \<lparr>uni_upper = (\<lambda>s. s), uni_lower = (\<lambda>s. s), errorf_verbs = (\<lambda>s. s)\<rparr>"

abbreviation CR :: char where "CR \<equiv> CHR 0x0D"
abbreviation LF :: char where "LF \<equiv> CHR 0x0A"
abbreviation crlf :: string where "crlf \<equiv> [CR, LF]"

definition byte :: "char \<Rightarrow> nat" where
  "byte c = of_char c"

definition is_ascii :: "string \<Rightarrow> bool" where
  "is_ascii s \<longleftrightarrow> list_all (\<lambda>c. byte c < 128) s"

definition upper_char :: "char \<Rightarrow> char" where
  "upper_char c = (if 97 \<le> byte c \<and> byte c \<le> 122 then char_of (byte c - 32) else c)"

definition lower_char :: "char \<Rightarrow> char" where
  "lower_char c = (if 65 \<le> byte c \<and> byte c \<le> 90 then char_of (byte c + 32) else c)"

definition ToUpper :: "golib \<Rightarrow> string \<Rightarrow> string" where
  "ToUpper L s = (if is_ascii s then map upper_char s else uni_upper L s)"

definition ToLower :: "golib \<Rightarrow> string \<Rightarrow> string" where
  "ToLower L s = (if is_ascii s then map lower_char s else uni_lower L s)"

text \<open>\<^verbatim>\<open>fmt.Errorf(s).Error()\<close>: a format without a percent sign is the message itself.\<close>

definition Errorf0 :: "golib \<Rightarrow> string \<Rightarrow> string" where
  "Errorf0 L s = (if CHR ''%'' \<in> set s then errorf_verbs L s else s)"

definition HasPrefix :: "string \<Rightarrow> string \<Rightarrow> bool" where
  "HasPrefix s p \<longleftrightarrow> take (length p) s = p"

definition TrimPrefix :: "string \<Rightarrow> string \<Rightarrow> string" where
  "TrimPrefix s p = (if HasPrefix s p then drop (length p) s else s)"

fun split_on :: "char \<Rightarrow> string \<Rightarrow> string list" where
  "split_on c [] = [[]]"
| "split_on c (x # xs) =
     (if x = c then [] # split_on c xs
      else (case split_on c xs of [] \<Rightarrow> [[x]] | p # ps \<Rightarrow> (x # p) # ps))"

text \<open>\<^verbatim>\<open>strings.SplitN(s, sep, 2)\<close> with a separator of one byte.\<close>

definition split2 :: "char \<Rightarrow> string \<Rightarrow> string list" where
  "split2 c s = (if c \<in> set s then [takeWhile (\<lambda>x. x \<noteq> c) s, tl (dropWhile (\<lambda>x. x \<noteq> c) s)] else [s])"

text \<open>
  The length of the white-space rune at the front of a string, 0 if there is none. The
  first byte of such a rune never occurs inside another rune, so scanning byte by byte
  and rune by rune agree.
\<close>

definition space1 :: "nat \<Rightarrow> bool" where
  "space1 b \<longleftrightarrow> 9 \<le> b \<and> b \<le> 13 \<or> b = 32"

definition space2 :: "nat \<Rightarrow> nat \<Rightarrow> bool" where
  "space2 b c \<longleftrightarrow> b = 0xC2 \<and> (c = 0x85 \<or> c = 0xA0)"

definition space3 :: "nat \<Rightarrow> nat \<Rightarrow> nat \<Rightarrow> bool" where
  "space3 b c d \<longleftrightarrow>
     b = 0xE1 \<and> c = 0x9A \<and> d = 0x80 \<or>
     b = 0xE2 \<and> c = 0x80 \<and> (0x80 \<le> d \<and> d \<le> 0x8A \<or> d = 0xA8 \<or> d = 0xA9 \<or> d = 0xAF) \<or>
     b = 0xE2 \<and> c = 0x81 \<and> d = 0x9F \<or>
     b = 0xE3 \<and> c = 0x80 \<and> d = 0x80"

fun space_len :: "string \<Rightarrow> nat" where
  "space_len [] = 0"
| "space_len [a] = (if space1 (byte a) then 1 else 0)"
| "space_len [a, b] = (if space1 (byte a) then 1 else if space2 (byte a) (byte b) then 2 else 0)"
| "space_len (a # b # c # s) =
     (if space1 (byte a) then 1 else if space2 (byte a) (byte b) then 2
      else if space3 (byte a) (byte b) (byte c) then 3 else 0)"

function TrimLeft :: "string \<Rightarrow> string" where
  "TrimLeft s = (if s = [] \<or> space_len s = 0 then s else TrimLeft (drop (space_len s) s))"
  by pat_completeness auto
termination
  by (relation "measure length") auto

definition space_len_end :: "string \<Rightarrow> nat" where
  "space_len_end s =
     (if 1 \<le> length s \<and> space_len (drop (length s - 1) s) = 1 then 1
      else if 2 \<le> length s \<and> space_len (drop (length s - 2) s) = 2 then 2
      else if 3 \<le> length s \<and> space_len (drop (length s - 3) s) = 3 then 3 else 0)"

function TrimRight :: "string \<Rightarrow> string" where
  "TrimRight s = (if s = [] \<or> space_len_end s = 0 then s
                  else TrimRight (take (length s - space_len_end s) s))"
  by pat_completeness auto
termination
  by (relation "measure length") auto

declare TrimLeft.simps [simp del] TrimRight.simps [simp del]

definition TrimSpace :: "string \<Rightarrow> string" where
  "TrimSpace s = TrimRight (TrimLeft s)"

function fields_loop :: "string \<Rightarrow> string \<Rightarrow> string list" where
  "fields_loop cur s =
     (if s = [] then (if cur = [] then [] else [cur])
      else if space_len s = 0 then fields_loop (cur @ [hd s]) (tl s)
      else (if cur = [] then [] else [cur]) @ fields_loop [] (drop (space_len s) s))"
  by pat_completeness auto
termination
  by (relation "measure (\<lambda>(cur, s). length s)") auto

declare fields_loop.simps [simp del]

definition Fields :: "string \<Rightarrow> string list" where
  "Fields s = fields_loop [] s"

section \<open>Decimal integers\<close>

definition digit :: "nat \<Rightarrow> char" where
  "digit d = char_of (48 + d)"

definition is_digit :: "char \<Rightarrow> bool" where
  "is_digit c \<longleftrightarrow> 48 \<le> byte c \<and> byte c \<le> 57"

fun dec_nat :: "nat \<Rightarrow> string" where
  "dec_nat n = (if n < 10 then [digit n] else dec_nat (n div 10) @ [digit (n mod 10)])"

declare dec_nat.simps [simp del]

definition dec_int :: "int \<Rightarrow> string" where
  "dec_int i = (if i < 0 then CHR ''-'' # dec_nat (nat (- i)) else dec_nat (nat i))"

definition digits_val :: "string \<Rightarrow> nat" where
  "digits_val ds = foldl (\<lambda>v c. 10 * v + (byte c - 48)) 0 ds"

datatype scan_error = ScanEOF | UnexpectedNewline | ExpectedInteger | IntegerRange string | FormatMismatch

text \<open>
  \<^verbatim>\<open>ss.SkipSpace\<close> as \<^verbatim>\<open>Sscanf\<close> uses it: a newline is an error, any other white
  space is skipped (a carriage return before a newline too, which then meets the newline).
\<close>

function skip_space :: "string \<Rightarrow> scan_error + string" where
  "skip_space s =
     (if s = [] then Inr []
      else if hd s = LF then Inl UnexpectedNewline
      else if space_len s = 0 then Inr s
      else skip_space (drop (space_len s) s))"
  by pat_completeness auto
termination
  by (relation "measure length") auto

declare skip_space.simps [simp del]

definition scan_number :: "string \<Rightarrow> scan_error + int" where
  "scan_number r =
     (let neg = (r \<noteq> [] \<and> hd r = CHR ''-'');
          r1 = (if r \<noteq> [] \<and> (hd r = CHR ''-'' \<or> hd r = CHR ''+'') then tl r else r);
          ds = takeWhile is_digit r1;
          v = (if neg then - int (digits_val ds) else int (digits_val ds))
      in if r1 = [] then Inl ScanEOF
         else if ds = [] then Inl ExpectedInteger
         else if v < - (2 ^ 63) \<or> 2 ^ 63 \<le> v
           then Inl (IntegerRange (take (length r - length r1) r @ ds))
         else Inr v)"

definition scan_d :: "string \<Rightarrow> scan_error + int" where
  "scan_d s = (case skip_space s of Inl e \<Rightarrow> Inl e | Inr r \<Rightarrow> if r = [] then Inl ScanEOF else scan_number r)"

text \<open>\<^verbatim>\<open>Sscanf(s, "<c>%d", &n)\<close> with one literal byte before the verb.\<close>

definition sscanf_lit_d :: "char \<Rightarrow> string \<Rightarrow> scan_error + int" where
  "sscanf_lit_d c s =
     (case s of [] \<Rightarrow> Inl ScanEOF | x # xs \<Rightarrow> if x = c then scan_d xs else Inl FormatMismatch)"

section \<open>Facts about splitting\<close>

lemma split_on_plain: "c \<notin> set p \<Longrightarrow> split_on c p = [p]"
  by (induction p) auto

lemma split_on_sep: "c \<notin> set p \<Longrightarrow> split_on c (p @ c # q) = p # split_on c q"
  by (induction p) auto

lemma split2_sep: "c \<notin> set p \<Longrightarrow> split2 c (p @ c # q) = [p, q]"
  by (auto simp: split2_def takeWhile_append dropWhile_append)

section \<open>Facts about printing and scanning\<close>

lemma byte_char_of: "n < 256 \<Longrightarrow> byte (char_of n) = n"
  by (simp add: byte_def)

lemma byte_digit: "d < 10 \<Longrightarrow> byte (digit d) = 48 + d"
  by (simp add: digit_def byte_char_of)

lemma dec_nat_digits: "\<forall>c \<in> set (dec_nat n). is_digit c"
proof (induction n rule: dec_nat.induct)
  case (1 n)
  then show ?case
    by (cases "n < 10") (simp_all add: dec_nat.simps [of n] is_digit_def byte_digit)
qed

lemma dec_nat_nonempty [simp]: "dec_nat n \<noteq> []"
  by (simp add: dec_nat.simps [of n])

lemma digits_val_snoc: "digits_val (ds @ [c]) = 10 * digits_val ds + (byte c - 48)"
  by (simp add: digits_val_def)

lemma digits_val_dec_nat [simp]: "digits_val (dec_nat n) = n"
proof (induction n rule: dec_nat.induct)
  case (1 n)
  show ?case
  proof (cases "n < 10")
    case True
    then show ?thesis
      by (simp add: dec_nat.simps [of n] digits_val_def byte_digit)
  next
    case False
    then show ?thesis
      using 1 [OF False] by (simp add: dec_nat.simps [of n] digits_val_snoc byte_digit)
  qed
qed

lemma space_len_ascii: "byte c < 128 \<Longrightarrow> \<not> space1 (byte c) \<Longrightarrow> space_len (c # s) = 0"
  by (cases "c # s" rule: space_len.cases) (auto simp: space2_def space3_def)

lemma space_len_le: "space_len s \<le> length s"
  by (cases s rule: space_len.cases) auto

lemma is_digit_ascii: "is_digit c \<Longrightarrow> byte c < 128 \<and> \<not> space1 (byte c)"
  by (auto simp: is_digit_def space1_def)

lemma space_len_end_ascii:
  assumes "byte c < 128" "\<not> space1 (byte c)"
  shows "space_len_end (s @ [c]) = 0"
proof -
  have "space_len [c] = 0"
    using assms by simp
  moreover have "space_len [b, c] \<noteq> 2" for b
    using assms by (simp add: space2_def)
  moreover have "space_len [a, b, c] \<noteq> 3" for a b
    using assms by (simp add: space3_def)
  ultimately show ?thesis
    by (cases s rule: rev_cases; cases "butlast s" rule: rev_cases) (auto simp: space_len_end_def)
qed

lemma space_len_end_space1: "space1 (byte c) \<Longrightarrow> space_len_end (s @ [c]) = 1"
  by (simp add: space_len_end_def)

lemma TrimRight_space [simp]: "space1 (byte c) \<Longrightarrow> TrimRight (s @ [c]) = TrimRight s"
  by (subst TrimRight.simps) (simp add: space_len_end_space1)

lemma TrimRight_ascii [simp]:
  "byte c < 128 \<Longrightarrow> \<not> space1 (byte c) \<Longrightarrow> TrimRight (s @ [c]) = s @ [c]"
  by (subst TrimRight.simps) (simp add: space_len_end_ascii)

lemma TrimLeft_ascii [simp]:
  "byte c < 128 \<Longrightarrow> \<not> space1 (byte c) \<Longrightarrow> TrimLeft (c # s) = c # s"
  by (subst TrimLeft.simps) (simp add: space_len_ascii)

definition plain_char :: "char \<Rightarrow> bool" where
  "plain_char c \<longleftrightarrow> byte c < 128 \<and> \<not> space1 (byte c)"

text \<open>A string that neither starts nor ends with white space.\<close>

definition trimmed :: "string \<Rightarrow> bool" where
  "trimmed s \<longleftrightarrow> s = [] \<or> plain_char (hd s) \<and> plain_char (last s)"

lemma TrimSpace_trimmed: "trimmed s \<Longrightarrow> TrimSpace s = s"
proof (cases "s = []")
  case False
  assume s: "trimmed s"
  have "TrimLeft s = s"
    using s False TrimLeft_ascii [of "hd s" "tl s"] by (simp add: trimmed_def plain_char_def)
  moreover have "TrimRight s = s"
    using s False TrimRight_ascii [of "last s" "butlast s"] by (simp add: trimmed_def plain_char_def)
  ultimately show ?thesis
    by (simp add: TrimSpace_def)
qed (simp add: TrimSpace_def TrimLeft.simps TrimRight.simps)

lemma byte_crlf [simp]: "byte CR = 13" "byte LF = 10"
  by (simp_all add: byte_def)

text \<open>A header line such as \<^verbatim>\<open>*3\<close> or \<^verbatim>\<open>$12\<close>, as it is printed and trimmed.\<close>

lemma TrimSpace_line:
  assumes "byte c < 128" "\<not> space1 (byte c)"
  shows "TrimSpace (c # p @ dec_nat n @ crlf) = c # p @ dec_nat n"
proof -
  obtain ds d where ds: "dec_nat n = ds @ [d]"
    by (metis dec_nat_nonempty rev_exhaust)
  then have d: "byte d < 128" "\<not> space1 (byte d)"
    using dec_nat_digits [of n] is_digit_ascii by auto
  have "TrimRight ((c # p @ dec_nat n @ [CR]) @ [LF]) = TrimRight ((c # p @ dec_nat n) @ [CR])"
    by (subst TrimRight_space) (simp_all add: space1_def)
  also have "\<dots> = TrimRight ((c # p @ ds) @ [d])"
    by (subst TrimRight_space) (simp_all add: space1_def ds)
  also have "\<dots> = c # p @ dec_nat n"
    by (subst TrimRight_ascii) (use d ds in auto)
  finally show ?thesis
    using assms by (simp add: TrimSpace_def)
qed

lemmas TrimSpace_header = TrimSpace_line [of _ "[]", simplified]

lemma is_digit_not_sign: "is_digit c \<Longrightarrow> c \<noteq> CHR ''-'' \<and> c \<noteq> CHR ''+'' \<and> c \<noteq> LF \<and> c \<noteq> CR"
  by (auto simp: is_digit_def byte_def)

lemma takeWhile_dec_nat: "tail = [] \<or> \<not> is_digit (hd tail) \<Longrightarrow> takeWhile is_digit (dec_nat n @ tail) = dec_nat n"
  using dec_nat_digits [of n] by (cases tail) (auto simp: takeWhile_append2)

lemma scan_d_dec_nat:
  assumes "n < 2 ^ 63" and tail: "tail = [] \<or> \<not> is_digit (hd tail)"
  shows "scan_d (dec_nat n @ tail) = Inr (int n)"
proof -
  obtain d ds where ds: "dec_nat n = d # ds"
    by (metis dec_nat_nonempty neq_Nil_conv)
  then have d: "is_digit d"
    using dec_nat_digits [of n] by simp
  have "skip_space (dec_nat n @ tail) = Inr (dec_nat n @ tail)"
    using is_digit_not_sign [OF d] is_digit_ascii [OF d] by (subst skip_space.simps) (simp add: ds space_len_ascii)
  moreover have "scan_number (dec_nat n @ tail) = Inr (int n)"
    using is_digit_not_sign [OF d] takeWhile_dec_nat [OF tail, of n] assms(1)
    by (simp add: scan_number_def Let_def ds digits_val_dec_nat [of n, unfolded ds])
  ultimately show ?thesis
    by (simp add: scan_d_def)
qed

lemma scan_d_negative:
  assumes "n \<le> 2 ^ 63" and tail: "tail = [] \<or> \<not> is_digit (hd tail)"
  shows "scan_d (CHR ''-'' # dec_nat n @ tail) = Inr (- int n)"
proof -
  have "skip_space (CHR ''-'' # dec_nat n @ tail) = Inr (CHR ''-'' # dec_nat n @ tail)"
    by (subst skip_space.simps) (simp add: space_len_ascii byte_def space1_def)
  moreover have "scan_number (CHR ''-'' # dec_nat n @ tail) = Inr (- int n)"
    using takeWhile_dec_nat [OF tail, of n] assms(1) by (simp add: scan_number_def Let_def)
  ultimately show ?thesis
    by (simp add: scan_d_def)
qed

lemma dec_nat_no_crlf: "CR \<notin> set (dec_nat n)" "LF \<notin> set (dec_nat n)"
  using dec_nat_digits [of n] is_digit_not_sign by blast+

lemma scan_number_nonneg: "scan_number s = Inr v \<Longrightarrow> CHR ''-'' \<notin> set s \<Longrightarrow> 0 \<le> v"
  by (cases s) (auto simp: scan_number_def Let_def split: if_splits)

lemma skip_space_set: "skip_space s = Inr r \<Longrightarrow> set r \<subseteq> set s"
proof (induction s rule: skip_space.induct)
  case (1 s)
  then show ?case
    by (auto simp: skip_space.simps [of s] split: if_splits dest: in_set_dropD)
qed

lemma scan_d_nonneg: "scan_d s = Inr v \<Longrightarrow> CHR ''-'' \<notin> set s \<Longrightarrow> 0 \<le> v"
  using skip_space_set by (fastforce simp: scan_d_def split: sum.splits if_splits dest: scan_number_nonneg)

lemma TrimLeft_set: "set (TrimLeft s) \<subseteq> set s"
proof (induction s rule: TrimLeft.induct)
  case (1 s)
  then show ?case
    by (subst TrimLeft.simps) (auto dest: in_set_dropD)
qed

lemma TrimRight_set: "set (TrimRight s) \<subseteq> set s"
proof (induction s rule: TrimRight.induct)
  case (1 s)
  then show ?case
    by (subst TrimRight.simps) (auto dest: in_set_takeD)
qed

lemma TrimSpace_set: "set (TrimSpace s) \<subseteq> set s"
  using TrimLeft_set TrimRight_set by (fastforce simp: TrimSpace_def)

lemma sscanf_nonneg: "sscanf_lit_d c s = Inr v \<Longrightarrow> CHR ''-'' \<notin> set s \<Longrightarrow> 0 \<le> v"
  by (auto simp: sscanf_lit_d_def split: list.splits if_splits dest: scan_d_nonneg)

end
