(* ===== verification/Fas_Store.thy ===== *)
theory Fas_Store
  imports Fas_Heap Fas_Fifo Fas_Go
begin

text \<open>
  The in-memory store (pkg/store/store.go): items with type tag, expiry, size and access
  statistics, memory accounting, expiry and the five eviction policies.

  The state is a record with the fields of \<^verbatim>\<open>Store\<close>; the mutex is not a field, since
  every exported operation is one atomic step (what happens between the two lock phases of
  \<^verbatim>\<open>getWithNow\<close> is explicit). What the code reads from outside is an argument: the
  clock (\<open>now\<close>, one argument per reading) and, for each loop over the map, the order in
  which the runtime visits the keys (\<open>ord\<close>: a list of keys, of which those still in the
  map are visited). Lengths, sizes and counters are unbounded integers: they count bytes and
  operations of one process and stay far below 2 to the 63. Timestamps of expiry wrap as
  in \<^verbatim>\<open>UnixNano\<close>.
\<close>

declare map_of_eq_Some_iff [simp del]

section \<open>Data\<close>

datatype DataType = TypeString | TypeList | TypeMap | TypeSet

datatype store_error = ErrWrongType | ErrNotFound

record item =
  iValue :: string
  iType :: DataType
  iExpiresAt :: int
  iSize :: int
  iFreq :: int
  iLastAccess :: int
  iAccessID :: int

datatype EvictionPolicy = EvictionNoEviction | EvictionAllKeysRandom | EvictionVolatileRandom
  | EvictionAllKeysLRU | EvictionAllKeysLFU

record stats =
  stKeys :: nat
  stTTLKeys :: nat
  stMemoryUsed :: int
  stMaxMemory :: int
  stEvictionPolicy :: EvictionPolicy
  stExpired :: int

record SnapshotEntry =
  seKey :: string
  seValue :: string
  seType :: DataType
  seExpiresAt :: int

record store =
  sdata :: "item gomap"
  maxMemory :: int
  usedMemory :: int
  evictionPolicy :: EvictionPolicy
  ring :: fifo
  evictTTLWhenFull :: bool
  expiredCount :: int
  accessCounter :: int
  lruHeap :: "lruEntry list"
  lfuHeap :: "lfuEntry list"

section \<open>Operations\<close>

definition New :: "int \<Rightarrow> EvictionPolicy \<Rightarrow> store" where
  "New maxMem policy = \<lparr>sdata = [], maxMemory = maxMem, usedMemory = 0, evictionPolicy = policy,
     ring = fifo_new, evictTTLWhenFull = True, expiredCount = 0, accessCounter = 0,
     lruHeap = [], lfuHeap = []\<rparr>"

definition Stats :: "store \<Rightarrow> stats" where
  "Stats s = \<lparr>stKeys = length (sdata s),
     stTTLKeys = length (filter (\<lambda>kv. iExpiresAt (snd kv) > 0) (sdata s)),
     stMemoryUsed = usedMemory s, stMaxMemory = maxMemory s,
     stEvictionPolicy = evictionPolicy s, stExpired = expiredCount s\<rparr>"

definition expired_at :: "int \<Rightarrow> item \<Rightarrow> bool" where
  "expired_at now it \<longleftrightarrow> iExpiresAt it > 0 \<and> now > iExpiresAt it"

definition SnapshotEntries :: "int \<Rightarrow> string list \<Rightarrow> store \<Rightarrow> SnapshotEntry list" where
  "SnapshotEntries now ord s =
     concat (map (\<lambda>k. case map_of (sdata s) k of
         None \<Rightarrow> []
       | Some v \<Rightarrow> if expired_at now v then []
           else [\<lparr>seKey = k, seValue = iValue v, seType = iType v, seExpiresAt = iExpiresAt v\<rparr>]) ord)"

definition estimateSize :: "string \<Rightarrow> item \<Rightarrow> int" where
  "estimateSize key it =
     int (length key) + 100 + (if iType it = TypeString then int (length (iValue it)) else 0)"

definition estimateItemSize :: "string \<Rightarrow> string \<Rightarrow> int" where
  "estimateItemSize key val = int (length key + length val) + 100"

definition nextAccessID :: "store \<Rightarrow> int \<times> store" where
  "nextAccessID s = (accessCounter s + 1, s\<lparr>accessCounter := accessCounter s + 1\<rparr>)"

definition pushHeaps :: "string \<Rightarrow> item \<Rightarrow> store \<Rightarrow> store" where
  "pushHeaps key it s = s\<lparr>
     lruHeap := lru_push (lruHeap s) \<lparr>lru_key = key, lru_ts = iLastAccess it, lru_version = iAccessID it\<rparr>,
     lfuHeap := lfu_push (lfuHeap s) \<lparr>lfu_key = key, lfu_freq = iFreq it, lfu_ts = iLastAccess it,
                                      lfu_version = iAccessID it\<rparr>\<rparr>"

definition deleteKeyUnlocked :: "string \<Rightarrow> store \<Rightarrow> store" where
  "deleteKeyUnlocked key s =
     (case map_of (sdata s) key of
        None \<Rightarrow> s
      | Some it \<Rightarrow>
          let s1 = s\<lparr>usedMemory := usedMemory s - iSize it\<rparr>;
              s2 = (if iExpiresAt it = 0 then s1\<lparr>ring := removeFIFOUnlocked key (ring s1)\<rparr> else s1)
          in s2\<lparr>sdata := AList.delete key (sdata s2)\<rparr>)"

definition deleteKeyLocked :: "string \<Rightarrow> store \<Rightarrow> store" where
  "deleteKeyLocked key s = deleteKeyUnlocked key s"

definition Delete :: "string \<Rightarrow> store \<Rightarrow> store" where
  "Delete key s = deleteKeyUnlocked key s"

text \<open>Popping a heap until an entry that still describes its item comes out.\<close>

function popLRU_loop :: "item gomap \<Rightarrow> lruEntry list \<Rightarrow> string \<times> lruEntry list" where
  "popLRU_loop d h =
     (if h = [] then ([], h)
      else let (e, h') = lru_pop h
           in (case map_of d (lru_key e) of
                 Some it \<Rightarrow> if iAccessID it = lru_version e then (lru_key e, h') else popLRU_loop d h'
               | None \<Rightarrow> popLRU_loop d h'))"
  by pat_completeness auto
termination
  by (relation "measure (\<lambda>(d, h). length h)") (auto dest!: lru_pop_length [OF sym])

function popLFU_loop :: "item gomap \<Rightarrow> lfuEntry list \<Rightarrow> string \<times> lfuEntry list" where
  "popLFU_loop d h =
     (if h = [] then ([], h)
      else let (e, h') = lfu_pop h
           in (case map_of d (lfu_key e) of
                 Some it \<Rightarrow> if iAccessID it = lfu_version e then (lfu_key e, h') else popLFU_loop d h'
               | None \<Rightarrow> popLFU_loop d h'))"
  by pat_completeness auto
termination
  by (relation "measure (\<lambda>(d, h). length h)") (auto dest!: lfu_pop_length [OF sym])

declare popLRU_loop.simps [simp del] popLFU_loop.simps [simp del]

text \<open>
  Both loops follow one contract: given a heap that delivers a least entry, they deliver a
  least entry among the fresh ones (those whose version is the access number of the item
  they name), or the empty string when no entry is fresh.
\<close>

locale fresh_pop =
  fixes le :: "'e \<Rightarrow> 'e \<Rightarrow> bool" and hpop :: "'e list \<Rightarrow> 'e \<times> 'e list"
    and ekey :: "'e \<Rightarrow> string" and ever :: "'e \<Rightarrow> int"
    and loop :: "item gomap \<Rightarrow> 'e list \<Rightarrow> string \<times> 'e list"
  assumes loop_unfold: "loop d h =
     (if h = [] then ([], h)
      else let (e, h') = hpop h
           in (case map_of d (ekey e) of
                 Some it \<Rightarrow> if iAccessID it = ever e then (ekey e, h') else loop d h'
               | None \<Rightarrow> loop d h'))"
    and hpop_mset: "hpop h = (e, h') \<Longrightarrow> h \<noteq> [] \<Longrightarrow> mset h = add_mset e (mset h')"
    and hpop_order: "hpop h = (e, h') \<Longrightarrow> h \<noteq> [] \<Longrightarrow> heap_order le h \<Longrightarrow> heap_order le h'"
    and hpop_least: "hpop h = (e, h') \<Longrightarrow> h \<noteq> [] \<Longrightarrow> heap_order le h \<Longrightarrow> x \<in> set h \<Longrightarrow> le e x"
begin

definition fresh :: "item gomap \<Rightarrow> 'e \<Rightarrow> bool" where
  "fresh d e \<longleftrightarrow> (\<exists>it. map_of d (ekey e) = Some it \<and> iAccessID it = ever e)"

lemma loop_eq:
  assumes "h \<noteq> []" "hpop h = (e, h')"
  shows "loop d h = (if fresh d e then (ekey e, h') else loop d h')"
  using assms by (subst loop_unfold) (auto simp: fresh_def split: option.splits)

lemma loop_Nil: "loop d [] = ([], [])"
  by (subst loop_unfold) simp

lemma hpop_length: "hpop h = (e, h') \<Longrightarrow> h \<noteq> [] \<Longrightarrow> length h = Suc (length h')"
  by (metis hpop_mset size_add_mset size_mset)

lemma loop_induct [case_names empty found skip]:
  assumes "P [] ([], [])"
    and "\<And>h e h'. h \<noteq> [] \<Longrightarrow> hpop h = (e, h') \<Longrightarrow> fresh d e \<Longrightarrow> P h (ekey e, h')"
    and "\<And>h e h'. h \<noteq> [] \<Longrightarrow> hpop h = (e, h') \<Longrightarrow> \<not> fresh d e \<Longrightarrow> P h' (loop d h') \<Longrightarrow> P h (loop d h')"
  shows "P h (loop d h)"
proof (induction "length h" arbitrary: h rule: less_induct)
  case less
  obtain e h' where p: "hpop h = (e, h')" by fastforce
  show ?case
    using assms less hpop_length [OF p] p by (cases "h = []") (auto simp: loop_Nil loop_eq)
qed

lemma loop_length:
  assumes "loop d h = (k, h')"
  shows "length h' \<le> length h \<and> (k \<noteq> [] \<longrightarrow> length h' < length h)"
proof -
  have "length (snd (loop d h)) \<le> length h \<and> (fst (loop d h) \<noteq> [] \<longrightarrow> length (snd (loop d h)) < length h)"
    by (rule loop_induct [where P = "\<lambda>h r. length (snd r) \<le> length h \<and> (fst r \<noteq> [] \<longrightarrow> length (snd r) < length h)"])
      (auto dest: hpop_length)
  with assms show ?thesis by simp
qed

lemma hpop_set: "hpop h = (e, h') \<Longrightarrow> h \<noteq> [] \<Longrightarrow> set h = insert e (set h')"
  by (metis hpop_mset set_mset_add_mset_insert set_mset_mset)

lemma loop_order:
  assumes "heap_order le h"
  shows "heap_order le (snd (loop d h)) \<and> set (snd (loop d h)) \<subseteq> set h"
proof -
  have "heap_order le h \<longrightarrow> heap_order le (snd (loop d h)) \<and> set (snd (loop d h)) \<subseteq> set h"
    by (rule loop_induct [where P = "\<lambda>h r. heap_order le h \<longrightarrow> heap_order le (snd r) \<and> set (snd r) \<subseteq> set h"])
      (auto dest: hpop_order hpop_set)
  with assms show ?thesis by simp
qed

lemma loop_none:
  assumes "\<forall>e \<in> set h. \<not> fresh d e"
  shows "loop d h = ([], [])"
proof -
  have "(\<forall>e \<in> set h. \<not> fresh d e) \<longrightarrow> loop d h = ([], [])"
    by (rule loop_induct [where P = "\<lambda>h r. (\<forall>e \<in> set h. \<not> fresh d e) \<longrightarrow> r = ([], [])"])
      (auto dest: hpop_set)
  with assms show ?thesis by simp
qed

lemma loop_some:
  assumes "heap_order le h" "e0 \<in> set h" "fresh d e0"
  shows "\<exists>e \<in> set h. fresh d e \<and> fst (loop d h) = ekey e \<and>
    (\<forall>x \<in> set h. fresh d x \<longrightarrow> le e x \<and> (x = e \<or> x \<in> set (snd (loop d h))))"
proof -
  let ?Q = "\<lambda>h r. \<exists>e \<in> set h. fresh d e \<and> fst r = ekey e \<and>
    (\<forall>x \<in> set h. fresh d x \<longrightarrow> le e x \<and> (x = e \<or> x \<in> set (snd r)))"
  have "heap_order le h \<longrightarrow> (\<exists>e0 \<in> set h. fresh d e0) \<longrightarrow> ?Q h (loop d h)"
  proof (rule loop_induct [where P = "\<lambda>h r. heap_order le h \<longrightarrow> (\<exists>e0 \<in> set h. fresh d e0) \<longrightarrow> ?Q h r"], goal_cases)
    case (2 h e h')
    then show ?case using hpop_least hpop_set by fastforce
  next
    case (3 h e h')
    then show ?case using hpop_set [OF 3(2,1)] hpop_order by auto
  qed simp
  with assms show ?thesis by blast
qed

end

interpretation lrup: fresh_pop lru_le lru_pop lru_key lru_version popLRU_loop
  by unfold_locales (rule popLRU_loop.simps, (rule lru_pop_laws, assumption+)+)

interpretation lfup: fresh_pop lfu_le lfu_pop lfu_key lfu_version popLFU_loop
  by unfold_locales (rule popLFU_loop.simps, (rule lfu_pop_laws, assumption+)+)

definition popLRU :: "store \<Rightarrow> string \<times> store" where
  "popLRU s = (let (key, h) = popLRU_loop (sdata s) (lruHeap s) in (key, s\<lparr>lruHeap := h\<rparr>))"

definition popLFU :: "store \<Rightarrow> string \<times> store" where
  "popLFU s = (let (key, h) = popLFU_loop (sdata s) (lfuHeap s) in (key, s\<lparr>lfuHeap := h\<rparr>))"

lemma deleteKey_fields [frame, simp]:
  "maxMemory (deleteKeyUnlocked key s) = maxMemory s"
  "evictionPolicy (deleteKeyUnlocked key s) = evictionPolicy s"
  "evictTTLWhenFull (deleteKeyUnlocked key s) = evictTTLWhenFull s"
  "expiredCount (deleteKeyUnlocked key s) = expiredCount s"
  "accessCounter (deleteKeyUnlocked key s) = accessCounter s"
  "lruHeap (deleteKeyUnlocked key s) = lruHeap s"
  "lfuHeap (deleteKeyUnlocked key s) = lfuHeap s"
  by (auto simp: deleteKeyUnlocked_def Let_def split: option.splits)

lemma deleteKey_sdata [simp]: "sdata (deleteKeyUnlocked key s) = AList.delete key (sdata s)"
  by (auto simp: deleteKeyUnlocked_def Let_def delete_absent map_of_eq_None_iff split: option.splits)

lemma deleteKey_fifoSize: "fifoSize (ring (deleteKeyUnlocked key s)) \<le> fifoSize (ring s)"
  by (auto simp: deleteKeyUnlocked_def Let_def fifoSize_remove_le split: option.splits)

function evictLRU :: "store \<Rightarrow> store" where
  "evictLRU s =
     (if usedMemory s > maxMemory s
      then let (key, s1) = popLRU s
           in if key = [] then s1 else evictLRU (deleteKeyLocked key s1)
      else s)"
  by pat_completeness auto
termination
  by (relation "measure (\<lambda>s. length (lruHeap s))")
    (auto simp: popLRU_def deleteKeyLocked_def dest: lrup.loop_length split: prod.splits)

function evictLFU :: "store \<Rightarrow> store" where
  "evictLFU s =
     (if usedMemory s > maxMemory s
      then let (key, s1) = popLFU s
           in if key = [] then s1 else evictLFU (deleteKeyLocked key s1)
      else s)"
  by pat_completeness auto
termination
  by (relation "measure (\<lambda>s. length (lfuHeap s))")
    (auto simp: popLFU_def deleteKeyLocked_def dest: lfup.loop_length split: prod.splits)

fun evictRandom :: "bool \<Rightarrow> string list \<Rightarrow> store \<Rightarrow> store" where
  "evictRandom volatileOnly [] s = s"
| "evictRandom volatileOnly (key # ord) s =
     (case map_of (sdata s) key of
        None \<Rightarrow> evictRandom volatileOnly ord s
      | Some it \<Rightarrow>
          if usedMemory s \<le> maxMemory s then s
          else if volatileOnly \<and> iExpiresAt it = 0 then evictRandom volatileOnly ord s
          else evictRandom volatileOnly ord (deleteKeyLocked key s))"

text \<open>The two loops of the default branch of \<^verbatim>\<open>evictIfNeeded\<close>.\<close>

function evict_fifo :: "store \<Rightarrow> store" where
  "evict_fifo s =
     (if usedMemory s > maxMemory s \<and> fifoSize (ring s) > 0
      then let (key, r) = popFIFO (ring s); s1 = s\<lparr>ring := r\<rparr>
           in evict_fifo (if key \<noteq> [] then deleteKeyLocked key s1 else s1)
      else s)"
  by pat_completeness auto
termination
  by (relation "measure (\<lambda>s. fifoSize (ring s))")
    (auto simp: deleteKeyLocked_def dest!: fifoSize_pop_less [OF sym]
      intro: le_less_trans [OF deleteKey_fifoSize])

fun evict_ttl :: "string list \<Rightarrow> store \<Rightarrow> store" where
  "evict_ttl [] s = s"
| "evict_ttl (key # ord) s =
     (case map_of (sdata s) key of
        None \<Rightarrow> evict_ttl ord s
      | Some it \<Rightarrow>
          if usedMemory s \<le> maxMemory s then s
          else if iExpiresAt it > 0 then evict_ttl ord (deleteKeyLocked key s)
          else evict_ttl ord s)"

declare evictLRU.simps [simp del] evictLFU.simps [simp del] evict_fifo.simps [simp del]

definition evictIfNeeded :: "string list \<Rightarrow> store \<Rightarrow> store" where
  "evictIfNeeded ord s =
     (if maxMemory s \<le> 0 \<or> usedMemory s \<le> maxMemory s then s
      else case evictionPolicy s of
        EvictionAllKeysRandom \<Rightarrow> evictRandom False ord s
      | EvictionVolatileRandom \<Rightarrow> evictRandom True ord s
      | EvictionAllKeysLRU \<Rightarrow> evictLRU s
      | EvictionAllKeysLFU \<Rightarrow> evictLFU s
      | EvictionNoEviction \<Rightarrow>
          let s1 = evict_fifo s
          in if evictTTLWhenFull s1 \<and> usedMemory s1 > maxMemory s1 then evict_ttl ord s1 else s1)"

text \<open>
  \<^verbatim>\<open>setUnlocked\<close> reads the clock twice: for the access time (\<open>now\<close>) and, when a
  time to live is given, for the expiry (\<open>now2\<close>).
\<close>

definition setUnlocked ::
  "string \<Rightarrow> string \<Rightarrow> int \<Rightarrow> int \<Rightarrow> int \<Rightarrow> string list \<Rightarrow> store \<Rightarrow> store"
where
  "setUnlocked key val ttl now now2 ord s =
     (let expiresAt = (if ttl > 0 then wrap64 (now2 + ttl) else 0);
          (accessID, s0) = nextAccessID s;
          newItem = \<lparr>iValue = val, iType = TypeString, iExpiresAt = expiresAt,
                     iSize = estimateItemSize key val, iFreq = 1, iLastAccess = now,
                     iAccessID = accessID\<rparr>;
          s1 = (case map_of (sdata s0) key of
                  None \<Rightarrow> s0
                | Some oldItem \<Rightarrow>
                    let t = s0\<lparr>usedMemory := usedMemory s0 - iSize oldItem\<rparr>
                    in if iExpiresAt oldItem = 0 then t\<lparr>ring := removeFIFOUnlocked key (ring t)\<rparr> else t);
          s2 = s1\<lparr>sdata := AList.update key newItem (sdata s1),
                  usedMemory := usedMemory s1 + iSize newItem\<rparr>;
          s3 = (if ttl = 0 then s2\<lparr>ring := addFIFOUnlocked key (ring s2)\<rparr>
                else s2\<lparr>ring := removeFIFOUnlocked key (ring s2)\<rparr>);
          s4 = pushHeaps key newItem s3
      in evictIfNeeded ord s4)"

definition Set :: "string \<Rightarrow> string \<Rightarrow> int \<Rightarrow> int \<Rightarrow> int \<Rightarrow> string list \<Rightarrow> store \<Rightarrow> store" where
  "Set key val ttl now now2 ord s = setUnlocked key val ttl now now2 ord s"

definition UnsafeSet :: "string \<Rightarrow> string \<Rightarrow> int \<Rightarrow> int \<Rightarrow> int \<Rightarrow> string list \<Rightarrow> store \<Rightarrow> store" where
  "UnsafeSet key val ttl now now2 ord s = setUnlocked key val ttl now now2 ord s"

definition touch :: "int \<Rightarrow> int \<Rightarrow> item \<Rightarrow> item" where
  "touch now accessID it = it\<lparr>iLastAccess := now, iAccessID := accessID, iFreq := iFreq it + 1\<rparr>"

definition getUnlockedWithNow :: "string \<Rightarrow> int \<Rightarrow> store \<Rightarrow> (store_error + string) \<times> store" where
  "getUnlockedWithNow key now s =
     (case map_of (sdata s) key of
        None \<Rightarrow> (Inl ErrNotFound, s)
      | Some it \<Rightarrow>
          if expired_at now it
          then let s1 = deleteKeyUnlocked key s
               in (Inl ErrNotFound, s1\<lparr>expiredCount := expiredCount s1 + 1\<rparr>)
          else if iType it \<noteq> TypeString then (Inl ErrWrongType, s)
          else let (accessID, s1) = nextAccessID s;
                   it' = touch now accessID it;
                   s2 = s1\<lparr>sdata := AList.update key it' (sdata s1)\<rparr>
               in (Inr (iValue it'), pushHeaps key it' s2))"

text \<open>
  \<^verbatim>\<open>getWithNow\<close> looks the key up under the read lock, releases it, and repeats the
  lookup under the write lock: \<open>sr\<close> is the store at the first lookup and \<open>s\<close> at the
  second; other goroutines may run in between.
\<close>

definition getWithNow :: "string \<Rightarrow> int \<Rightarrow> store \<Rightarrow> store \<Rightarrow> (store_error + string) \<times> store" where
  "getWithNow key now sr s =
     (case map_of (sdata sr) key of
        None \<Rightarrow> (Inl ErrNotFound, s)
      | Some _ \<Rightarrow>
         (case map_of (sdata s) key of
            None \<Rightarrow> (Inl ErrNotFound, s)
          | Some it \<Rightarrow>
              if expired_at now it
              then let s1 = deleteKeyUnlocked key s
                   in (Inl ErrNotFound, s1\<lparr>expiredCount := expiredCount s1 + 1\<rparr>)
              else if iType it \<noteq> TypeString then (Inl ErrWrongType, s)
              else let (accessID, s1) = nextAccessID s;
                       it' = touch now accessID it;
                       s2 = s1\<lparr>sdata := AList.update key it' (sdata s1)\<rparr>
                   in (Inr (iValue it'), pushHeaps key it' s2)))"

definition Get :: "string \<Rightarrow> int \<Rightarrow> store \<Rightarrow> (store_error + string) \<times> store" where
  "Get key now s = getWithNow key now s s"

definition UnsafeGet :: "string \<Rightarrow> int \<Rightarrow> store \<Rightarrow> (store_error + string) \<times> store" where
  "UnsafeGet key now s = getUnlockedWithNow key now s"

fun restore_loop :: "int \<Rightarrow> SnapshotEntry list \<Rightarrow> store \<Rightarrow> store" where
  "restore_loop now [] s = s"
| "restore_loop now (e # entries) s =
     (if seExpiresAt e > 0 \<and> now > seExpiresAt e then restore_loop now entries s
      else let (accessID, s0) = nextAccessID s;
               it = \<lparr>iValue = seValue e, iType = seType e, iExpiresAt = seExpiresAt e,
                     iSize = estimateItemSize (seKey e) (seValue e), iFreq = 1,
                     iLastAccess = now, iAccessID = accessID\<rparr>;
               s1 = s0\<lparr>sdata := AList.update (seKey e) it (sdata s0),
                       usedMemory := usedMemory s0 + iSize it\<rparr>;
               s2 = (if iExpiresAt it = 0 then s1\<lparr>ring := addFIFOUnlocked (seKey e) (ring s1)\<rparr> else s1)
           in restore_loop now entries (pushHeaps (seKey e) it s2))"

definition RestoreSnapshot :: "int \<Rightarrow> SnapshotEntry list \<Rightarrow> store \<Rightarrow> store" where
  "RestoreSnapshot now entries s =
     restore_loop now entries (s\<lparr>sdata := [], usedMemory := 0, ring := fifo_reset (ring s)\<rparr>)"

text \<open>The two loops of \<^verbatim>\<open>activeExpire\<close>: the sample and the extra pass.\<close>

fun sample_loop :: "int \<Rightarrow> string list \<Rightarrow> nat \<Rightarrow> nat \<Rightarrow> store \<Rightarrow> store \<times> nat" where
  "sample_loop now [] cnt expired s = (s, expired)"
| "sample_loop now (key # ord) cnt expired s =
     (case map_of (sdata s) key of
        None \<Rightarrow> sample_loop now ord cnt expired s
      | Some it \<Rightarrow>
          if cnt \<ge> 20 then (s, expired)
          else if expired_at now it
          then let s1 = deleteKeyLocked key s
               in sample_loop now ord (cnt + 1) (expired + 1) (s1\<lparr>expiredCount := expiredCount s1 + 1\<rparr>)
          else sample_loop now ord (cnt + 1) expired s)"

fun sweep_loop :: "int \<Rightarrow> string list \<Rightarrow> store \<Rightarrow> store" where
  "sweep_loop now [] s = s"
| "sweep_loop now (key # ord) s =
     (case map_of (sdata s) key of
        None \<Rightarrow> sweep_loop now ord s
      | Some it \<Rightarrow> sweep_loop now ord (if expired_at now it then deleteKeyLocked key s else s))"

definition activeExpire :: "int \<Rightarrow> string list \<Rightarrow> string list \<Rightarrow> store \<Rightarrow> store" where
  "activeExpire now ord ord2 s =
     (if length (sdata s) = 0 then s
      else let (s1, expired) = sample_loop now ord 0 0 s
           in if expired > 20 div 2 then sweep_loop now ord2 s1 else s1)"

end
