(* ===== verification/Fas_Protocol.thy ===== *)
theory Fas_Protocol
  imports Fas_Go
begin

text \<open>
  The RESP protocol (\<^verbatim>\<open>pkg/protocol\<close>): the blocking parser of a connection
  (\<^verbatim>\<open>ParseCommand\<close>), the parser of the event loops, which looks at a buffer that may hold
  only part of a command (\<^verbatim>\<open>ParseCommandFromBytes\<close>), and the writer.

  A \<^verbatim>\<open>bufio.Reader\<close> is the sequence of bytes that still arrive before the stream ends;
  the end of the stream is the error \<^verbatim>\<open>io.EOF\<close>. An error of the parser is a left value,
  a pair \<^verbatim>\<open>(nil, nil)\<close> of the code a right value without a command, and a run-time panic
  of Go (a slice of negative size, an index out of range) the outcome \<open>Panic\<close>.
\<close>

section \<open>Data and limits (parser.go)\<close>

definition maxArgs :: int where "maxArgs = 1024"
definition maxBulkLength :: int where "maxBulkLength = 512 * 1024"
definition maxInlineBytes :: nat where "maxInlineBytes = 8 * 1024"

record command =
  cName :: string
  cArgs :: "string list"

datatype perr =
    ErrEOF
  | ErrUnexpectedEOF
  | InvalidArrayLength scan_error
  | InvalidArrayStart scan_error
  | TooManyArguments
  | InvalidBulkLength scan_error
  | BulkTooLarge
  | InvalidBulkTermination
  | InlineTooLong

definition to_command :: "golib \<Rightarrow> string list \<Rightarrow> command option" where
  "to_command L args =
     (case args of [] \<Rightarrow> None | n # as \<Rightarrow> Some \<lparr>cName = ToUpper L n, cArgs = as\<rparr>)"

section \<open>The blocking parser\<close>

definition ReadString :: "bytes \<Rightarrow> (string \<times> bytes) option" where
  "ReadString s =
     (if LF \<in> set s
      then Some (takeWhile (\<lambda>c. c \<noteq> LF) s @ [LF], tl (dropWhile (\<lambda>c. c \<noteq> LF) s))
      else None)"

text \<open>One turn of the loop: the header of a bulk string, its data and the final CR LF.\<close>

definition read_bulk :: "bytes \<Rightarrow> (perr + string \<times> bytes) outcome" where
  "read_bulk s =
     (case ReadString s of
        None \<Rightarrow> Ret (Inl ErrEOF)
      | Some (line, r) \<Rightarrow>
          (case sscanf_lit_d (CHR ''$'') (TrimSpace line) of
             Inl e \<Rightarrow> Ret (Inl (InvalidBulkLength e))
           | Inr len \<Rightarrow>
               if len > maxBulkLength then Ret (Inl BulkTooLarge)
               else if len = -1 then Ret (Inr ([], r))
               else if len + 2 < 0 then Panic ''makeslice: len out of range''
               else if length r < nat (len + 2)
                 then Ret (Inl (if r = [] then ErrEOF else ErrUnexpectedEOF))
               else if len < 0 then Panic ''index out of range''
               else if r ! nat len \<noteq> CR \<or> r ! nat (len + 1) \<noteq> LF
                 then Ret (Inl InvalidBulkTermination)
               else Ret (Inr (take (nat len) r, drop (nat (len + 2)) r))))"

fun read_bulks :: "nat \<Rightarrow> string list \<Rightarrow> bytes \<Rightarrow> (perr + string list \<times> bytes) outcome" where
  "read_bulks 0 args s = Ret (Inr (args, s))"
| "read_bulks (Suc n) args s =
     (case read_bulk s of
        Panic m \<Rightarrow> Panic m
      | Ret (Inl e) \<Rightarrow> Ret (Inl e)
      | Ret (Inr (a, r)) \<Rightarrow> read_bulks n (args @ [a]) r)"

definition ParseCommand :: "golib \<Rightarrow> bytes \<Rightarrow> (perr + command option \<times> bytes) outcome" where
  "ParseCommand L s =
     (case ReadString s of
        None \<Rightarrow> Ret (Inl ErrEOF)
      | Some (line0, r) \<Rightarrow>
          let line = TrimSpace line0 in
          if line = [] then Ret (Inr (None, r))
          else if hd line \<noteq> CHR ''*'' then Ret (Inr (to_command L (Fields line), r))
          else (case sscanf_lit_d (CHR ''*'') line of
             Inl e \<Rightarrow> Ret (Inl (InvalidArrayLength e))
           | Inr argc \<Rightarrow>
               if argc > maxArgs then Ret (Inl TooManyArguments)
               else if argc < 0 then Panic ''makeslice: cap out of range''
               else (case read_bulks (nat argc) [] r of
                  Panic m \<Rightarrow> Panic m
                | Ret (Inl e) \<Rightarrow> Ret (Inl e)
                | Ret (Inr (args, r')) \<Rightarrow> Ret (Inr (to_command L args, r')))))"

section \<open>The parser of the event loops\<close>

fun indexCRLF :: "bytes \<Rightarrow> nat option" where
  "indexCRLF (a # b # s) = (if a = CR \<and> b = LF then Some 0 else map_option Suc (indexCRLF (b # s)))"
| "indexCRLF _ = None"

definition parseInline :: "golib \<Rightarrow> bytes \<Rightarrow> (perr + command option \<times> nat) outcome" where
  "parseInline L data =
     (case indexCRLF data of
        None \<Rightarrow> Ret (Inr (None, 0))
      | Some idx \<Rightarrow>
          if idx > maxInlineBytes then Ret (Inl InlineTooLong)
          else let line = TrimSpace (take idx data) in
               if line = [] then Ret (Inr (None, idx + 2))
               else Ret (Inr (to_command L (Fields line), idx + 2)))"

text \<open>
  The loop over the bulk strings at position \<open>pos\<close> of the buffer. The value
  \<open>Ret (Inr None)\<close> is the early return \<^verbatim>\<open>nil, 0, nil\<close>.
\<close>

definition bulk_at :: "bytes \<Rightarrow> nat \<Rightarrow> (perr + (string \<times> nat) option) outcome" where
  "bulk_at data pos =
     (if pos \<ge> length data \<or> data ! pos \<noteq> CHR ''$'' then Ret (Inr None)
      else case indexCRLF (drop pos data) of
        None \<Rightarrow> Ret (Inr None)
      | Some lenEnd \<Rightarrow>
          (case scan_d (take (lenEnd - 1) (drop (pos + 1) data)) of
             Inl e \<Rightarrow> Ret (Inl (InvalidBulkLength e))
           | Inr blen \<Rightarrow>
               if blen > maxBulkLength then Ret (Inl BulkTooLarge)
               else let pos' = pos + lenEnd + 2 in
                 if blen = -1 then Ret (Inr (Some ([], pos')))
                 else if int pos' + blen + 2 > int (length data) then Ret (Inr None)
                 else if blen < 0 then Panic ''slice bounds out of range''
                 else Ret (Inr (Some (take (nat blen) (drop pos' data), pos' + nat blen + 2)))))"

fun bulks_at :: "bytes \<Rightarrow> nat \<Rightarrow> string list \<Rightarrow> nat \<Rightarrow> (perr + (string list \<times> nat) option) outcome" where
  "bulks_at data 0 args pos = Ret (Inr (Some (args, pos)))"
| "bulks_at data (Suc n) args pos =
     (case bulk_at data pos of
        Panic m \<Rightarrow> Panic m
      | Ret (Inl e) \<Rightarrow> Ret (Inl e)
      | Ret (Inr None) \<Rightarrow> Ret (Inr None)
      | Ret (Inr (Some (a, pos'))) \<Rightarrow> bulks_at data n (args @ [a]) pos')"

definition parseRESPArray :: "golib \<Rightarrow> bytes \<Rightarrow> (perr + command option \<times> nat) outcome" where
  "parseRESPArray L data =
     (case indexCRLF data of
        None \<Rightarrow> Ret (Inr (None, 0))
      | Some idx \<Rightarrow>
          (case scan_d (take (idx - 1) (drop 1 data)) of
             Inl e \<Rightarrow> Ret (Inl (InvalidArrayStart e))
           | Inr count \<Rightarrow>
               if count > maxArgs then Ret (Inl TooManyArguments)
               else if count < 0 then Panic ''makeslice: cap out of range''
               else (case bulks_at data (nat count) [] (idx + 2) of
                  Panic m \<Rightarrow> Panic m
                | Ret (Inl e) \<Rightarrow> Ret (Inl e)
                | Ret (Inr None) \<Rightarrow> Ret (Inr (None, 0))
                | Ret (Inr (Some (args, pos))) \<Rightarrow> Ret (Inr (to_command L args, pos)))))"

definition ParseCommandFromBytes :: "golib \<Rightarrow> bytes \<Rightarrow> (perr + command option \<times> nat) outcome" where
  "ParseCommandFromBytes L data =
     (case data of
        [] \<Rightarrow> Ret (Inr (None, 0))
      | c # _ \<Rightarrow> if c = CHR ''*'' then parseRESPArray L data else parseInline L data)"

section \<open>The writer (writer.go)\<close>

definition bulk :: "string \<Rightarrow> bytes" where
  "bulk s = CHR ''$'' # dec_nat (length s) @ crlf @ s @ crlf"

definition WriteCommand :: "string list \<Rightarrow> bytes" where
  "WriteCommand args = CHR ''*'' # dec_nat (length args) @ crlf @ concat (map bulk args)"

definition WriteString :: "string \<Rightarrow> bytes" where
  "WriteString s = CHR ''+'' # s @ crlf"

definition WriteError :: "string \<Rightarrow> bytes" where
  "WriteError e = CHR ''-'' # e @ crlf"

definition WriteBulkString :: "string \<Rightarrow> bytes" where
  "WriteBulkString s = CHR ''$'' # dec_nat (length s) @ crlf @ s @ crlf"

definition WriteNull :: bytes where
  "WriteNull = ''$-1'' @ crlf"

definition WriteInteger :: "int \<Rightarrow> bytes" where
  "WriteInteger n = CHR '':'' # dec_int n @ crlf"

section \<open>Reading back what was written\<close>

lemma ReadString_line: "LF \<notin> set l \<Longrightarrow> ReadString (l @ LF # r) = Some (l @ [LF], r)"
  by (auto simp: ReadString_def takeWhile_append dropWhile_append)

lemma header_ascii: "byte (CHR ''$'') < 128" "byte (CHR ''*'') < 128"
    "\<not> space1 (byte (CHR ''$''))" "\<not> space1 (byte (CHR ''*''))"
  by (simp_all add: byte_def space1_def)

lemma sscanf_dec: "n < 2 ^ 63 \<Longrightarrow> sscanf_lit_d c (c # dec_nat n) = Inr (int n)"
  using scan_d_dec_nat [of n "[]"] by (simp add: sscanf_lit_d_def)

lemma ReadString_header:
  assumes "byte c < 128" "\<not> space1 (byte c)"
  shows "\<exists>line. ReadString (c # dec_nat n @ crlf @ r) = Some (line, r) \<and> TrimSpace line = c # dec_nat n"
proof -
  have "LF \<notin> set (c # dec_nat n @ [CR])"
    using assms dec_nat_no_crlf [of n] by (auto simp: space1_def)
  from ReadString_line [OF this, of r] show ?thesis
    using TrimSpace_header [OF assms, of n] by simp
qed

lemma read_bulk_write:
  assumes "int (length s) \<le> maxBulkLength"
  shows "read_bulk (bulk s @ r) = Ret (Inr (s, r))"
proof -
  obtain line where line: "ReadString (CHR ''$'' # dec_nat (length s) @ crlf @ s @ crlf @ r) = Some (line, s @ crlf @ r)"
      "TrimSpace line = CHR ''$'' # dec_nat (length s)"
    using ReadString_header [OF header_ascii(1,3)] by metis
  have "nat (int (length s) + 2) = length s + 2" "nat (int (length s) + 1) = length s + 1"
    by simp_all
  then show ?thesis
    using assms line by (simp add: read_bulk_def bulk_def sscanf_dec maxBulkLength_def nth_append)
qed

lemma read_bulks_write:
  "(\<And>a. a \<in> set as \<Longrightarrow> int (length a) \<le> maxBulkLength) \<Longrightarrow>
   read_bulks (length as) acc (concat (map bulk as) @ r) = Ret (Inr (acc @ as, r))"
  by (induction as arbitrary: acc) (simp_all add: read_bulk_write)

lemma indexCRLF_Some: "indexCRLF d = Some i \<Longrightarrow> i + 2 \<le> length d"
  by (induction d arbitrary: i rule: indexCRLF.induct) (fastforce split: if_splits)+

lemma indexCRLF_append: "indexCRLF d = Some i \<Longrightarrow> indexCRLF (d @ m) = Some i"
  by (induction d arbitrary: i rule: indexCRLF.induct) (auto split: if_splits)

lemma indexCRLF_take: "indexCRLF d = Some i \<Longrightarrow> indexCRLF (take (i + 2) d) = Some i"
proof (induction d arbitrary: i rule: indexCRLF.induct)
  case (1 a b s)
  then show ?case
    by (auto split: if_splits)
qed auto

lemma indexCRLF_line: "CR \<notin> set l \<Longrightarrow> indexCRLF (l @ crlf @ r) = Some (length l)"
proof (induction l)
  case (Cons a l)
  then show ?case
    by (cases "l @ crlf @ r") auto
qed simp

lemma bulk_at_write:
  assumes "int (length s) \<le> maxBulkLength"
  shows "bulk_at (pre @ bulk s @ r) (length pre) = Ret (Inr (Some (s, length pre + length (bulk s))))"
proof -
  have "CR \<notin> set (CHR ''$'' # dec_nat (length s))"
    using dec_nat_no_crlf by simp
  from indexCRLF_line [OF this, of "s @ crlf @ r"]
  have idx: "indexCRLF (CHR ''$'' # dec_nat (length s) @ CR # LF # s @ CR # LF # r)
              = Some (length (dec_nat (length s)) + 1)"
    by simp
  have "scan_d (dec_nat (length s)) = Inr (int (length s))"
    using scan_d_dec_nat [of "length s" "[]"] assms by (simp add: maxBulkLength_def)
  then show ?thesis
    using assms idx by (simp add: bulk_at_def bulk_def nth_append Let_def maxBulkLength_def numeral_3_eq_3)
qed

lemma bulks_at_write:
  assumes "\<And>a. a \<in> set as \<Longrightarrow> int (length a) \<le> maxBulkLength"
  shows "bulks_at (pre @ concat (map bulk as) @ r) (length as) acc (length pre)
           = Ret (Inr (Some (acc @ as, length pre + length (concat (map bulk as)))))"
  using assms
proof (induction as arbitrary: pre acc)
  case (Cons a as)
  have "bulk_at (pre @ bulk a @ concat (map bulk as) @ r) (length pre)
          = Ret (Inr (Some (a, length pre + length (bulk a))))"
    using Cons.prems by (intro bulk_at_write) simp
  then show ?case
    using Cons.IH [of "pre @ bulk a" "acc @ [a]"] Cons.prems by simp
qed simp

section \<open>The buffer parser looks at a prefix of the buffer only\<close>

lemma bulk_at_append:
  assumes "bulk_at data pos \<noteq> Ret (Inr None)"
  shows "bulk_at (data @ ext) pos = bulk_at data pos"
proof -
  from assms obtain i where pos: "pos < length data" and i: "indexCRLF (drop pos data) = Some i"
    by (auto simp: bulk_at_def split: if_splits option.splits)
  then have "indexCRLF (drop pos (data @ ext)) = Some i" "pos + i + 2 \<le> length data"
    using indexCRLF_append indexCRLF_Some [OF i] by fastforce+
  then show ?thesis
    using assms pos i by (auto simp: bulk_at_def nth_append Let_def split: sum.splits if_splits)
qed

lemma bulks_at_append:
  "bulks_at data n args pos \<noteq> Ret (Inr None) \<Longrightarrow>
   bulks_at (data @ ext) n args pos = bulks_at data n args pos"
proof (induction n arbitrary: args pos)
  case (Suc n)
  then have "bulk_at data pos \<noteq> Ret (Inr None)"
    by (auto split: outcome.splits)
  then show ?case
    using Suc by (auto simp: bulk_at_append split: outcome.splits sum.splits option.splits)
qed simp

lemma bulk_at_Some:
  "bulk_at data pos = Ret (Inr (Some (a, pos'))) \<longleftrightarrow>
   pos < length data \<and> data ! pos = CHR ''$'' \<and>
   (\<exists>i blen. indexCRLF (drop pos data) = Some i \<and>
      scan_d (take (i - 1) (drop (pos + 1) data)) = Inr blen \<and> blen \<le> maxBulkLength \<and>
      (blen = -1 \<and> a = [] \<and> pos' = pos + i + 2 \<or>
       0 \<le> blen \<and> pos' = pos + i + 2 + nat blen + 2 \<and> pos' \<le> length data \<and>
       a = take (nat blen) (drop (pos + i + 2) data)))"
proof (cases "pos < length data \<and> data ! pos = CHR ''$''")
  case True
  then show ?thesis
    by (cases "indexCRLF (drop pos data)"; cases "scan_d (take (the (indexCRLF (drop pos data)) - 1) (drop (pos + 1) data))")
      (auto simp: bulk_at_def Let_def)
qed (auto simp: bulk_at_def)

lemma bulk_at_bounds:
  assumes "bulk_at data pos = Ret (Inr (Some (a, pos')))"
  shows "pos < pos' \<and> pos' \<le> length data \<and> int (length a) \<le> maxBulkLength"
proof -
  have "indexCRLF (drop pos data) = Some i \<Longrightarrow> pos < length data \<Longrightarrow> pos + i + 2 \<le> length data" for i
    using indexCRLF_Some by fastforce
  then show ?thesis
    using assms unfolding bulk_at_Some by (auto simp: maxBulkLength_def)
qed

lemma indexCRLF_window:
  assumes "indexCRLF (drop pos data) = Some i" "pos + i + 2 \<le> n"
  shows "indexCRLF (drop pos (take n data)) = Some i"
proof -
  obtain k where k: "n = (i + 2 + k) + pos"
    using assms(2) by (metis add.commute add.left_commute le_add_diff_inverse)
  have "take (i + 2 + k) (drop pos data) = take (i + 2) (drop pos data) @ take k (drop (i + 2) (drop pos data))"
    by (rule take_add)
  then show ?thesis
    using indexCRLF_append [OF indexCRLF_take [OF assms(1)]] k by (simp add: drop_take)
qed

lemma bulk_at_take:
  assumes "bulk_at data pos = Ret (Inr (Some (a, pos')))"
  shows "bulk_at (take pos' data) pos = Ret (Inr (Some (a, pos')))"
proof -
  obtain i blen where i: "pos < length data" "data ! pos = CHR ''$''" "indexCRLF (drop pos data) = Some i"
      "scan_d (take (i - 1) (drop (pos + 1) data)) = Inr blen" "blen \<le> maxBulkLength"
    and v: "blen = -1 \<and> a = [] \<and> pos' = pos + i + 2 \<or>
       0 \<le> blen \<and> pos' = pos + i + 2 + nat blen + 2 \<and> pos' \<le> length data \<and>
       a = take (nat blen) (drop (pos + i + 2) data)"
    using assms unfolding bulk_at_Some by blast
  have le: "pos + i + 2 \<le> pos'" "pos < pos'"
    using v by auto
  have "take (i - 1) (drop (pos + 1) (take pos' data)) = take (i - 1) (drop (pos + 1) data)"
    using le by (simp add: drop_take min_def)
  moreover have "0 \<le> blen \<Longrightarrow> take (nat blen) (drop (pos + i + 2) (take pos' data)) = a"
    using v by (auto simp: drop_take min_def)
  ultimately show ?thesis
    using i v le indexCRLF_window [OF i(3) le(1)] unfolding bulk_at_Some
    by (intro conjI exI [of _ i] exI [of _ blen]) auto
qed

lemma bulks_at_bounds:
  "bulks_at data n args pos = Ret (Inr (Some (args', pos'))) \<Longrightarrow> pos \<le> length data \<Longrightarrow>
   pos \<le> pos' \<and> pos' \<le> length data \<and>
   (\<exists>as. args' = args @ as \<and> length as = n \<and> (\<forall>a\<in>set as. int (length a) \<le> maxBulkLength))"
proof (induction n arbitrary: args pos)
  case (Suc n)
  then obtain a p where a: "bulk_at data pos = Ret (Inr (Some (a, p)))"
      "bulks_at data n (args @ [a]) p = Ret (Inr (Some (args', pos')))"
    by (auto split: outcome.splits sum.splits option.splits)
  note b = bulk_at_bounds [OF a(1)]
  obtain as where as: "p \<le> pos'" "pos' \<le> length data" "args' = (args @ [a]) @ as" "length as = n"
      "\<forall>a\<in>set as. int (length a) \<le> maxBulkLength"
    using Suc.IH [OF a(2)] b by blast
  then show ?case
    using b by (intro conjI exI [of _ "a # as"]) auto
qed simp

lemma bulks_at_take:
  "bulks_at data n args pos = Ret (Inr (Some (args', pos'))) \<Longrightarrow> pos \<le> length data \<Longrightarrow>
   bulks_at (take pos' data) n args pos = Ret (Inr (Some (args', pos')))"
proof (induction n arbitrary: args pos)
  case (Suc n)
  then obtain a p where a: "bulk_at data pos = Ret (Inr (Some (a, p)))"
      "bulks_at data n (args @ [a]) p = Ret (Inr (Some (args', pos')))"
    by (auto split: outcome.splits sum.splits option.splits)
  have p: "p \<le> length data" "p \<le> pos'"
    using bulk_at_bounds [OF a(1)] bulks_at_bounds [OF a(2)] by auto
  have "take pos' data = take p data @ drop p (take pos' data)"
    using p by (metis append_take_drop_id min.absorb1 take_take)
  then have "bulk_at (take pos' data) pos = Ret (Inr (Some (a, p)))"
    using bulk_at_append [of "take p data" pos "drop p (take pos' data)"] bulk_at_take [OF a(1)] by simp
  then show ?case
    using Suc.IH [OF a(2) p(1)] by simp
qed simp

lemma parse_bytes_append:
  assumes "ParseCommandFromBytes L data \<noteq> Ret (Inr (None, 0))"
  shows "ParseCommandFromBytes L (data @ ext) = ParseCommandFromBytes L data"
proof -
  obtain c d where data: "data = c # d"
    using assms by (cases data) (auto simp: ParseCommandFromBytes_def)
  obtain i where i: "indexCRLF data = Some i"
    using assms by (cases "indexCRLF data")
      (auto simp: ParseCommandFromBytes_def data parseRESPArray_def parseInline_def split: if_splits)
  then have i2: "indexCRLF (data @ ext) = Some i" "i + 2 \<le> length data"
    using indexCRLF_append indexCRLF_Some by blast+
  have inl: "parseInline L (data @ ext) = parseInline L data"
    using i i2 by (simp add: parseInline_def)
  have arr: "parseRESPArray L (data @ ext) = parseRESPArray L data"
    if "parseRESPArray L data \<noteq> Ret (Inr (None, 0))"
  proof (cases "scan_d (take (i - 1) (drop 1 data))")
    case (Inr n)
    then show ?thesis
      using i i2 that bulks_at_append [of data "nat n" "[]" "i + 2" ext]
      by (cases "bulks_at data (nat n) [] (i + 2) = Ret (Inr None)") (auto simp: parseRESPArray_def)
  qed (use i i2 in \<open>simp add: parseRESPArray_def\<close>)
  show ?thesis
    using assms inl arr by (auto simp: ParseCommandFromBytes_def data split: if_splits)
qed

lemma parse_bytes_bounds:
  assumes "ParseCommandFromBytes L data = Ret (Inr (c, n))"
  shows "n \<le> length data \<and> (0 < n \<longrightarrow> 2 \<le> n) \<and> (c \<noteq> None \<longrightarrow> 2 \<le> n)"
proof (cases "indexCRLF data")
  case None
  then show ?thesis
    using assms by (auto simp: ParseCommandFromBytes_def parseRESPArray_def parseInline_def split: list.splits if_splits)
next
  case (Some i)
  note i = indexCRLF_Some [OF Some]
  have "2 \<le> n \<and> n \<le> length data \<or> c = None \<and> n = 0"
    if "parseRESPArray L data = Ret (Inr (c, n))"
    using that i Some bulks_at_bounds [of data _ "[]" "i + 2"]
    by (fastforce simp: parseRESPArray_def split: sum.splits if_splits outcome.splits option.splits)
  then show ?thesis
    using assms i Some
    by (auto simp: ParseCommandFromBytes_def parseInline_def Let_def split: list.splits if_splits)
qed

lemma parse_bytes_take:
  assumes "ParseCommandFromBytes L data = Ret (Inr (c, n))" "0 < n"
  shows "ParseCommandFromBytes L (take n data) = Ret (Inr (c, n))"
proof -
  obtain x d where data: "data = x # d"
    using assms by (cases data) (auto simp: ParseCommandFromBytes_def)
  then have data': "take n data = x # take (n - 1) d"
    using assms by (cases n) auto
  obtain i where i: "indexCRLF data = Some i"
    using assms by (cases "indexCRLF data")
      (auto simp: ParseCommandFromBytes_def data parseRESPArray_def parseInline_def split: if_splits)
  note i2 = indexCRLF_Some [OF i]
  have idx: "indexCRLF (take n data) = Some i" if "i + 2 \<le> n"
    using indexCRLF_append [OF indexCRLF_take [OF i], of "take (n - (i + 2)) (drop (i + 2) data)"] that
    by (metis le_add_diff_inverse take_add)
  have arr: "parseRESPArray L (take n data) = Ret (Inr (c, n))"
    if r: "parseRESPArray L data = Ret (Inr (c, n))"
  proof -
    obtain m args where m: "scan_d (take (i - 1) (drop 1 data)) = Inr m" "m \<le> maxArgs" "0 \<le> m"
        "bulks_at data (nat m) [] (i + 2) = Ret (Inr (Some (args, n)))" "c = to_command L args"
      using r i assms(2)
      by (auto simp: parseRESPArray_def split: sum.splits if_splits outcome.splits option.splits)
    have "i + 2 \<le> n"
      using bulks_at_bounds [OF m(4)] i2 by simp
    moreover from this have "take (i - 1) (drop 1 (take n data)) = take (i - 1) (drop 1 data)"
      by (simp add: drop_take min_def)
    ultimately show ?thesis
      using m idx bulks_at_take [OF m(4)] i2 by (simp add: parseRESPArray_def)
  qed
  have "parseInline L (take n data) = Ret (Inr (c, n))" if "parseInline L data = Ret (Inr (c, n))"
    using that i idx by (auto simp: parseInline_def Let_def min_def split: if_splits)
  then show ?thesis
    using assms(1) arr unfolding ParseCommandFromBytes_def data' unfolding data
    by (auto split: if_splits)
qed

end
