(* ===== verification/Fas_Protocol_Props.thy ===== *)
theory Fas_Protocol_Props
  imports Fas_Protocol
begin

text \<open>
  What the protocol layer promises: commands survive writing and parsing with both
  parsers, the buffer parser reports a command exactly when its last byte has arrived
  and consumes exactly its bytes, results respect the limits, and the only input that
  can bring the process down carries a minus sign.
\<close>

section \<open>Supporting facts\<close>

definition within_limits :: "string list \<Rightarrow> bool" where
  "within_limits args \<longleftrightarrow>
     length args \<le> 1024 \<and> list_all (\<lambda>a. length a \<le> 524288) args"

lemma within_limitsD:
  "within_limits args \<Longrightarrow> int (length args) \<le> maxArgs"
  "within_limits args \<Longrightarrow> a \<in> set args \<Longrightarrow> int (length a) \<le> maxBulkLength"
  by (auto simp: within_limits_def maxArgs_def maxBulkLength_def list_all_iff)

lemma parse_write_stream_aux:
  assumes "within_limits args"
  shows "ParseCommand L (WriteCommand args @ rest) = Ret (Inr (to_command L args, rest))"
proof -
  obtain line where line:
      "ReadString (CHR ''*'' # dec_nat (length args) @ crlf @ concat (map bulk args) @ rest)
         = Some (line, concat (map bulk args) @ rest)"
      "TrimSpace line = CHR ''*'' # dec_nat (length args)"
    using ReadString_header [OF header_ascii(2,4)] by metis
  have "sscanf_lit_d (CHR ''*'') (CHR ''*'' # dec_nat (length args)) = Inr (int (length args))"
    using within_limitsD(1) [OF assms] by (intro sscanf_dec) (simp add: maxArgs_def)
  moreover have "read_bulks (length args) [] (concat (map bulk args) @ rest) = Ret (Inr (args, rest))"
    using read_bulks_write [of args "[]" rest] within_limitsD(2) [OF assms] by simp
  ultimately show ?thesis
    using line within_limitsD(1) [OF assms] by (simp add: ParseCommand_def WriteCommand_def)
qed

lemma parse_write_buffer_aux:
  assumes "within_limits args"
  shows "ParseCommandFromBytes L (WriteCommand args @ rest)
           = Ret (Inr (to_command L args, length (WriteCommand args)))"
proof -
  let ?h = "CHR ''*'' # dec_nat (length args)"
  have "CR \<notin> set ?h"
    using dec_nat_no_crlf by simp
  from indexCRLF_line [OF this, of "concat (map bulk args) @ rest"]
  have idx: "indexCRLF (WriteCommand args @ rest) = Some (length ?h)"
    by (simp add: WriteCommand_def)
  have "scan_d (dec_nat (length args)) = Inr (int (length args))"
    using within_limitsD(1) [OF assms] scan_d_dec_nat [of "length args" "[]"] by (simp add: maxArgs_def)
  then have scan: "scan_d (take (length ?h - 1) (drop 1 (WriteCommand args @ rest))) = Inr (int (length args))"
    by (simp add: WriteCommand_def)
  have "bulks_at ((?h @ crlf) @ concat (map bulk args) @ rest) (length args) [] (length (?h @ crlf))
          = Ret (Inr (Some ([] @ args, length (?h @ crlf) + length (concat (map bulk args)))))"
    using bulks_at_write within_limitsD(2) [OF assms] by blast
  then have "bulks_at (WriteCommand args @ rest) (length args) [] (length ?h + 2)
      = Ret (Inr (Some (args, length (WriteCommand args))))"
    by (simp add: WriteCommand_def)
  then have "parseRESPArray L (WriteCommand args @ rest)
      = Ret (Inr (to_command L args, length (WriteCommand args)))"
    unfolding parseRESPArray_def idx option.case scan sum.case
    using within_limitsD(1) [OF assms] by simp
  moreover obtain d where "WriteCommand args @ rest = CHR ''*'' # d"
    by (simp add: WriteCommand_def)
  ultimately show ?thesis
    by (simp add: ParseCommandFromBytes_def)
qed

lemma set_tl_dropWhile: "set (tl (dropWhile P s)) \<subseteq> set s"
  by (induction s) (auto dest: set_dropWhileD)

lemma ReadString_set:
  assumes "ReadString s = Some (line, r)"
  shows "set line \<subseteq> set s" "set r \<subseteq> set s"
proof -
  have lf: "LF \<in> set s" and line: "line = takeWhile (\<lambda>c. c \<noteq> LF) s @ [LF]"
    and r: "r = tl (dropWhile (\<lambda>c. c \<noteq> LF) s)"
    using assms by (simp_all add: ReadString_def split: if_splits)
  show "set r \<subseteq> set s"
    unfolding r by (rule set_tl_dropWhile)
  have "set (takeWhile (\<lambda>c. c \<noteq> LF) s) \<subseteq> set s"
    using set_takeWhileD by fastforce
  then show "set line \<subseteq> set s"
    unfolding line using lf by simp
qed

lemma read_bulk_no_panic:
  assumes "CHR ''-'' \<notin> set s"
  shows "\<exists>x. read_bulk s = Ret x"
proof (cases "ReadString s")
  case (Some lr)
  then obtain line r where lr: "ReadString s = Some (line, r)"
    by (cases lr) auto
  then have "CHR ''-'' \<notin> set (TrimSpace line)"
    using assms ReadString_set [OF lr] TrimSpace_set by blast
  then show ?thesis
    using sscanf_nonneg [of "CHR ''$''" "TrimSpace line"] lr
    by (cases "sscanf_lit_d (CHR ''$'') (TrimSpace line)") (force simp: read_bulk_def)+
qed (simp add: read_bulk_def)

lemma read_bulk_set: "read_bulk s = Ret (Inr (a, r)) \<Longrightarrow> set r \<subseteq> set s"
  using ReadString_set
  by (fastforce simp: read_bulk_def split: option.splits sum.splits if_splits dest: in_set_dropD)

lemma read_bulks_no_panic: "CHR ''-'' \<notin> set s \<Longrightarrow> \<exists>x. read_bulks n args s = Ret x"
proof (induction n arbitrary: args s)
  case (Suc n)
  obtain x where x: "read_bulk s = Ret x"
    using read_bulk_no_panic [OF Suc.prems] by blast
  show ?case
  proof (cases x)
    case (Inr ar)
    then obtain a r where "read_bulk s = Ret (Inr (a, r))"
      using x by (cases ar) auto
    moreover from this have "CHR ''-'' \<notin> set r"
      using Suc.prems read_bulk_set by blast
    ultimately show ?thesis
      using Suc.IH by simp
  qed (use x in simp)
qed simp

lemma bulk_at_no_panic:
  assumes "CHR ''-'' \<notin> set data"
  shows "\<exists>x. bulk_at data pos = Ret x"
proof -
  have "CHR ''-'' \<notin> set (take i (drop j data))" for i j
    using assms by (meson in_set_dropD in_set_takeD)
  then have "scan_d (take i (drop j data)) = Inr n \<Longrightarrow> 0 \<le> n" for i j n
    using scan_d_nonneg by blast
  then show ?thesis
    by (force simp: bulk_at_def Let_def split: option.splits sum.splits)
qed

lemma bulks_at_no_panic: "CHR ''-'' \<notin> set data \<Longrightarrow> \<exists>x. bulks_at data n args pos = Ret x"
proof (induction n arbitrary: args pos)
  case (Suc n)
  obtain x where "bulk_at data pos = Ret x"
    using bulk_at_no_panic [OF Suc.prems] by blast
  then show ?case
    using Suc by (auto split: sum.splits option.splits)
qed simp

section \<open>Properties\<close>

text \<open>
  C11: A command within the limits (1 to 1024 strings of at most 512 KB, of any bytes) that
  \<^verbatim>\<open>WriteCommand\<close> puts on a stream is read back by \<^verbatim>\<open>ParseCommand\<close> with its name in
  upper case and its arguments unchanged, and exactly the bytes written are consumed.
\<close>
theorem parse_write_stream:
  assumes "within_limits (n # args)"
  shows "ParseCommand L (WriteCommand (n # args) @ rest)
           = Ret (Inr (Some \<lparr>cName = ToUpper L n, cArgs = args\<rparr>, rest))"
  using parse_write_stream_aux [OF assms] by (simp add: to_command_def)

theorem parse_write_stream_witness:
  "ParseCommand ascii_golib (WriteCommand [''set'', ''k'', [CR, LF]] @ ''*1'')
     = Ret (Inr (Some \<lparr>cName = ''SET'', cArgs = [''k'', [CR, LF]]\<rparr>, ''*1''))"
proof -
  have "ToUpper ascii_golib ''set'' = ''SET''"
    by code_simp
  then show ?thesis
    using parse_write_stream [of "''set''" "[''k'', [CR, LF]]"] by (simp add: within_limits_def)
qed

text \<open>
  The buffer parser of the event loops reads back every command within the limits that
  \<^verbatim>\<open>WriteCommand\<close> wrote, whatever follows it in the buffer, and reports as consumed
  exactly the length of its encoding, so that the next pipelined command starts right there.
\<close>
lemma parse_write_buffer:
  assumes "within_limits (n # args)"
  shows "ParseCommandFromBytes L (WriteCommand (n # args) @ rest)
           = Ret (Inr (Some \<lparr>cName = ToUpper L n, cArgs = args\<rparr>, length (WriteCommand (n # args))))"
  using parse_write_buffer_aux [OF assms] by (simp add: to_command_def)

text \<open>
  C12: Chunking does not matter to the buffer parser. When it consumes \<open>n\<close> bytes of a
  buffer, then on any shorter piece of it that holds fewer than \<open>n\<close> bytes it answers
  \<^verbatim>\<open>nil, 0, nil\<close> (wait for more input), and on every piece with at least \<open>n\<close> bytes it
  gives the same command and the same count.
\<close>
theorem parse_bytes_incremental:
  assumes "ParseCommandFromBytes L data = Ret (Inr (c, n))" "0 < n"
  shows "ParseCommandFromBytes L (take k data) = (if k < n then Ret (Inr (None, 0)) else Ret (Inr (c, n)))"
proof (cases "k < n")
  case True
  have "length (take k data) < n"
    using True by simp
  moreover have "ParseCommandFromBytes L (take k data) \<noteq> Ret (Inr (None, 0)) \<Longrightarrow>
      ParseCommandFromBytes L (take k data) = Ret (Inr (c, n))"
    using parse_bytes_append [of L "take k data" "drop k data"] assms(1) by simp
  ultimately show ?thesis
    using parse_bytes_bounds [of L "take k data" c n] True by fastforce
next
  case False
  then have "take k data = take n data @ drop n (take k data)"
    by (metis append_take_drop_id linorder_not_less min.absorb1 take_take)
  then show ?thesis
    using parse_bytes_take [OF assms] parse_bytes_append [of L "take n data" "drop n (take k data)"]
      assms(2) False by auto
qed

theorem parse_bytes_incremental_witness:
  "ParseCommandFromBytes ascii_golib (take 5 (WriteCommand [''get'', ''k''])) = Ret (Inr (None, 0))"
  using parse_bytes_incremental [OF parse_write_buffer_aux [of "[''get'', ''k'']" ascii_golib "[]"], of 5]
  by (simp add: within_limits_def WriteCommand_def bulk_def)

text \<open>
  The buffer parser stays inside the buffer and inside the limits: it never consumes
  more than the buffer holds, a command accounts for at least two consumed bytes, and a
  command parsed from a RESP array has fewer than 1024 arguments of at most 512 KB each.
\<close>
lemma parse_bytes_limits:
  assumes "ParseCommandFromBytes L data = Ret (Inr (Some c, n))"
  shows "2 \<le> n \<and> n \<le> length data \<and>
         (hd data = CHR ''*'' \<longrightarrow>
            length (cArgs c) < 1024 \<and> (\<forall>a \<in> set (cArgs c). length a \<le> 524288))"
proof -
  have "length (cArgs c) < 1024 \<and> (\<forall>a \<in> set (cArgs c). length a \<le> 524288)"
    if r: "parseRESPArray L data = Ret (Inr (Some c, n))"
  proof -
    obtain i m args where m: "indexCRLF data = Some i" "\<not> maxArgs < m"
        "bulks_at data (nat m) [] (i + 2) = Ret (Inr (Some (args, n)))" "to_command L args = Some c"
      using r by (auto simp: parseRESPArray_def split: sum.splits if_splits outcome.splits option.splits)
    then have "length args = nat m" "\<forall>a\<in>set args. int (length a) \<le> maxBulkLength"
      using bulks_at_bounds [OF m(3)] indexCRLF_Some [OF m(1)] by auto
    then show ?thesis
      using m by (auto simp: to_command_def maxArgs_def maxBulkLength_def split: list.splits)
  qed
  then show ?thesis
    using parse_bytes_bounds [OF assms] assms
    by (auto simp: ParseCommandFromBytes_def split: list.splits)
qed

lemma read_bulks_set: "read_bulks n args s = Ret (Inr (as, r)) \<Longrightarrow> set r \<subseteq> set s"
proof (induction n arbitrary: args s)
  case (Suc n)
  then obtain a r1 where "read_bulk s = Ret (Inr (a, r1))" "read_bulks n (args @ [a]) r1 = Ret (Inr (as, r))"
    by (auto split: outcome.splits sum.splits)
  then show ?case
    using Suc.IH read_bulk_set by blast
qed simp

lemma ParseCommand_set:
  assumes "ParseCommand L s = Ret (Inr (c, r))"
  shows "set r \<subseteq> set s"
proof -
  obtain line r0 where line: "ReadString s = Some (line, r0)"
    using assms by (cases "ReadString s") (auto simp: ParseCommand_def)
  have "r = r0 \<or> (\<exists>n as. read_bulks n [] r0 = Ret (Inr (as, r)))"
    using assms by (auto simp: ParseCommand_def line Let_def split: if_splits sum.splits outcome.splits)
  then show ?thesis
    using ReadString_set [OF line] read_bulks_set by blast
qed

lemma ParseCommand_no_panic:
  assumes "CHR ''-'' \<notin> set s"
  shows "\<exists>x. ParseCommand L s = Ret x"
proof (cases "ReadString s")
  case (Some lr)
  then obtain line r where lr: "ReadString s = Some (line, r)"
    by (cases lr) auto
  then have "CHR ''-'' \<notin> set (TrimSpace line)" "CHR ''-'' \<notin> set r"
    using assms ReadString_set [OF lr] TrimSpace_set by blast+
  then have "\<exists>x. read_bulks m [] r = Ret x" "sscanf_lit_d (CHR ''*'') (TrimSpace line) = Inr v \<Longrightarrow> 0 \<le> v" for m v
    using sscanf_nonneg read_bulks_no_panic by blast+
  note bulks = this
  show ?thesis
  proof (cases "sscanf_lit_d (CHR ''*'') (TrimSpace line)")
    case (Inr v)
    obtain x where "read_bulks (nat v) [] r = Ret x"
      using bulks(1) by blast
    then show ?thesis
      using lr Inr bulks(2) [OF Inr] by (cases x) (auto simp: ParseCommand_def Let_def)
  qed (simp add: ParseCommand_def Let_def lr)
qed (simp add: ParseCommand_def)

text \<open>
  C27: Input without a minus sign cannot make a parser panic: on every such stream and
  buffer, however malformed, both parsers return (a command, no command or an error).
\<close>
theorem parse_no_panic:
  assumes "CHR ''-'' \<notin> set s"
  shows "(\<exists>x. ParseCommand L s = Ret x) \<and> (\<exists>x. ParseCommandFromBytes L s = Ret x)"
proof (rule conjI [OF ParseCommand_no_panic [OF assms]])
  have "CHR ''-'' \<notin> set (take i (drop j s))" for i j
    using assms by (meson in_set_dropD in_set_takeD)
  then have "scan_d (take i (drop j s)) = Inr n \<Longrightarrow> 0 \<le> n" for i j n
    using scan_d_nonneg by blast
  note nonneg = this
  have "\<exists>x. parseRESPArray L s = Ret x"
  proof (cases "indexCRLF s")
    case (Some i)
    show ?thesis
    proof (cases "scan_d (take (i - 1) (drop 1 s))")
      case (Inr v)
      obtain x where "bulks_at s (nat v) [] (i + 2) = Ret x"
        using bulks_at_no_panic [OF assms] by blast
      then show ?thesis
        using Some Inr nonneg [OF Inr]
        by (cases x) (auto simp: parseRESPArray_def split: option.splits)
    qed (simp add: parseRESPArray_def Some)
  qed (simp add: parseRESPArray_def)
  moreover have "\<exists>x. parseInline L s = Ret x"
    by (simp add: parseInline_def Let_def split: option.splits)
  ultimately show "\<exists>x. ParseCommandFromBytes L s = Ret x"
    by (cases s) (auto simp: ParseCommandFromBytes_def)
qed

theorem parse_no_panic_witness:
  "\<exists>x. ParseCommand ascii_golib (''*2'' @ crlf @ ''$x'') = Ret x"
  using parse_no_panic [of "''*2'' @ crlf @ ''$x''"] by simp

lemma negative_line:
  assumes "byte c < 128" "\<not> space1 (byte c)" "n \<le> 2 ^ 63"
  shows "\<exists>line. ReadString (c # CHR ''-'' # dec_nat n @ crlf @ r) = Some (line, r) \<and>
           TrimSpace line = c # CHR ''-'' # dec_nat n \<and> sscanf_lit_d c (c # CHR ''-'' # dec_nat n) = Inr (- int n) \<and>
           indexCRLF (c # CHR ''-'' # dec_nat n @ crlf @ r) = Some (length (dec_nat n) + 2)"
proof -
  have "LF \<notin> set (c # CHR ''-'' # dec_nat n @ [CR])" "CR \<notin> set (c # CHR ''-'' # dec_nat n)"
    using assms(1,2) dec_nat_no_crlf [of n] by (auto simp: space1_def)
  then show ?thesis
    using ReadString_line [of "c # CHR ''-'' # dec_nat n @ [CR]" r] indexCRLF_line [of "c # CHR ''-'' # dec_nat n" r]
      TrimSpace_line [OF assms(1,2), of "''-''" n] scan_d_negative [OF assms(3), of "[]"]
    by (simp add: sscanf_lit_d_def)
qed

lemma negative_count_panics:
  assumes "0 < n" "n \<le> 2 ^ 63"
  shows "ParseCommand L (''*-'' @ dec_nat n @ crlf @ rest) = Panic ''makeslice: cap out of range''"
    and "ParseCommandFromBytes L (''*-'' @ dec_nat n @ crlf @ rest) = Panic ''makeslice: cap out of range''"
  using negative_line [OF header_ascii(2,4) assms(2), of rest] scan_d_negative [OF assms(2), of "[]"] assms(1)
  by (auto simp: ParseCommand_def ParseCommandFromBytes_def parseRESPArray_def maxArgs_def)

lemma negative_bulk_panics:
  assumes "2 \<le> n" "n \<le> 2 ^ 63"
  shows "\<exists>m. read_bulk (''$-'' @ dec_nat n @ crlf @ rest) = Panic m"
    and "bulk_at (pre @ ''$-'' @ dec_nat n @ crlf @ rest) (length pre) = Panic ''slice bounds out of range''"
proof -
  obtain line where line: "ReadString (''$-'' @ dec_nat n @ crlf @ rest) = Some (line, rest)"
      "sscanf_lit_d (CHR ''$'') (TrimSpace line) = Inr (- int n)"
      "indexCRLF (''$-'' @ dec_nat n @ crlf @ rest) = Some (length (dec_nat n) + 2)"
    using negative_line [OF header_ascii(1,3) assms(2), of rest] by auto
  show "\<exists>m. read_bulk (''$-'' @ dec_nat n @ crlf @ rest) = Panic m"
    using line(1,2) assms(1) by (auto simp: read_bulk_def maxBulkLength_def)
  show "bulk_at (pre @ ''$-'' @ dec_nat n @ crlf @ rest) (length pre) = Panic ''slice bounds out of range''"
    using line(3) scan_d_negative [OF assms(2), of "[]"] assms(1)
    by (simp add: bulk_at_def nth_append Let_def maxBulkLength_def)
qed

lemma read_bulks_then:
  assumes "\<And>a. a \<in> set as \<Longrightarrow> int (length a) \<le> maxBulkLength" "read_bulk r = Panic m"
  shows "read_bulks (length as + Suc k) acc (concat (map bulk as) @ r) = Panic m"
  using assms by (induction as arbitrary: acc) (simp_all add: read_bulk_write)

lemma bulks_at_then:
  assumes "\<And>a. a \<in> set as \<Longrightarrow> int (length a) \<le> maxBulkLength"
    and "\<And>pre. bulk_at (pre @ r) (length pre) = Panic m"
  shows "bulks_at (pre @ concat (map bulk as) @ r) (length as + Suc k) acc (length pre) = Panic m"
  using assms(1)
proof (induction as arbitrary: pre acc)
  case (Cons a as)
  have "bulk_at (pre @ bulk a @ concat (map bulk as) @ r) (length pre)
          = Ret (Inr (Some (a, length pre + length (bulk a))))"
    using Cons.prems by (intro bulk_at_write) simp
  then show ?case
    using Cons.IH [of "pre @ bulk a" "acc @ [a]"] Cons.prems by simp
qed (simp add: assms(2))

text \<open>
  C28: Negative numbers end the process. An array header with any negative count that fits 64 bits is
  not an error to the parsers: the slice of that capacity cannot be made, and Go panics; RESP
  uses the count -1 for a null array. Any length below -1 in the header of a bulk string does the same, after any
  arguments before it that are within the limits. This is so for all bytes that follow.
\<close>
theorem parse_negative_panics:
  assumes "0 < n" "n \<le> 2 ^ 63"
    and "length as < k" "k \<le> 1024" "\<forall>a \<in> set as. length a \<le> 524288"
  shows "ParseCommand L (''*-'' @ dec_nat n @ crlf @ rest) = Panic ''makeslice: cap out of range'' \<and>
         ParseCommandFromBytes L (''*-'' @ dec_nat n @ crlf @ rest) = Panic ''makeslice: cap out of range'' \<and>
         (n \<noteq> 1 \<longrightarrow>
           (\<exists>m. ParseCommand L
              (''*'' @ dec_nat k @ crlf @ concat (map bulk as) @ ''$-'' @ dec_nat n @ crlf @ rest) = Panic m) \<and>
           ParseCommandFromBytes L
              (''*'' @ dec_nat k @ crlf @ concat (map bulk as) @ ''$-'' @ dec_nat n @ crlf @ rest)
            = Panic ''slice bounds out of range'')"
proof (intro conjI impI negative_count_panics [OF assms(1,2)])
  let ?neg = "''$-'' @ dec_nat n @ crlf @ rest"
  let ?tail = "concat (map bulk as) @ ?neg"
  assume "n \<noteq> 1"
  then have n: "2 \<le> n"
    using assms(1) by simp
  have as: "int (length a) \<le> maxBulkLength" if "a \<in> set as" for a
    using assms(5) that by (auto simp: maxBulkLength_def)
  obtain j where k: "k = length as + Suc j"
    using assms(3) less_imp_Suc_add by fastforce
  obtain m where "read_bulk ?neg = Panic m"
    using negative_bulk_panics(1) [OF n assms(2)] by blast
  then have "read_bulks k [] ?tail = Panic m"
    unfolding k by (intro read_bulks_then as)
  moreover obtain line where "ReadString (CHR ''*'' # dec_nat k @ crlf @ ?tail) = Some (line, ?tail)"
      "TrimSpace line = CHR ''*'' # dec_nat k"
    using ReadString_header [OF header_ascii(2,4), of k ?tail] by blast
  ultimately show "\<exists>m. ParseCommand L (''*'' @ dec_nat k @ crlf @ ?tail) = Panic m"
    using assms(4) by (simp add: ParseCommand_def sscanf_dec maxArgs_def)
  have "indexCRLF ((CHR ''*'' # dec_nat k) @ crlf @ ?tail) = Some (length (CHR ''*'' # dec_nat k))"
    by (rule indexCRLF_line) (use dec_nat_no_crlf in simp)
  moreover have "bulks_at ((CHR ''*'' # dec_nat k @ crlf) @ ?tail) k [] (length (CHR ''*'' # dec_nat k @ crlf))
      = Panic ''slice bounds out of range''"
    unfolding k by (intro bulks_at_then as negative_bulk_panics(2) n assms(2))
  ultimately show "ParseCommandFromBytes L (''*'' @ dec_nat k @ crlf @ ?tail) = Panic ''slice bounds out of range''"
    using assms(4) scan_d_dec_nat [of k "[]"] by (simp add: ParseCommandFromBytes_def parseRESPArray_def maxArgs_def)
qed

theorem parse_negative_panics_witness:
  "ParseCommand ascii_golib (''*-'' @ dec_nat 7 @ crlf) = Panic ''makeslice: cap out of range'' \<and>
   (\<exists>m. ParseCommand ascii_golib (''*'' @ dec_nat 2 @ crlf @ bulk ''GET'' @ ''$-'' @ dec_nat 7 @ crlf) = Panic m)"
  using parse_negative_panics [of 7 "[''GET'']" 2 ascii_golib "[]"] by simp

end
