(* ===== verification/Fas_Aof.thy ===== *)
theory Fas_Aof
  imports Fas_Protocol_Props
begin

text \<open>
  The append-only file (\<^verbatim>\<open>pkg/persistence/aof.go\<close>): logging a command and reading the
  log back. The state is what the operating system holds of the file, how many of its
  bytes are known to be on disk, and whether the buffered writer has failed (after an error
  a \<^verbatim>\<open>bufio.Writer\<close> accepts nothing more). A fault of the device is an argument of the
  operation: \<open>Some k\<close> when it takes only \<open>k\<close> more bytes. \<^verbatim>\<open>Write\<close> always ends with a flush,
  so nothing stays in the buffer between two calls.
\<close>

section \<open>State and operations\<close>

datatype FsyncPolicy = FsyncAlways | FsyncEverySec | FsyncNo

record aof =
  afile :: bytes
  asynced :: nat
  abroken :: bool
  apolicy :: FsyncPolicy

datatype aof_error = WriteFailed | SyncFailed | CloseFailed

definition NewAOF :: "bytes \<Rightarrow> FsyncPolicy \<Rightarrow> aof" where
  "NewAOF contents policy = \<lparr>afile = contents, asynced = 0, abroken = False, apolicy = policy\<rparr>"

definition encode_cmd :: "command \<Rightarrow> bytes" where
  "encode_cmd cmd = WriteCommand (cName cmd # cArgs cmd)"

definition flush_bytes :: "nat option \<Rightarrow> bytes \<Rightarrow> aof \<Rightarrow> aof_error option \<times> aof" where
  "flush_bytes fault bs a =
     (if abroken a then (Some WriteFailed, a)
      else case fault of
        None \<Rightarrow> (None, a\<lparr>afile := afile a @ bs\<rparr>)
      | Some k \<Rightarrow> (Some WriteFailed, a\<lparr>afile := afile a @ take k bs, abroken := True\<rparr>))"

definition sync :: "bool \<Rightarrow> aof \<Rightarrow> aof_error option \<times> aof" where
  "sync ok a = (if ok then (None, a\<lparr>asynced := length (afile a)\<rparr>) else (Some SyncFailed, a))"

definition aof_Write :: "nat option \<Rightarrow> bool \<Rightarrow> command \<Rightarrow> aof \<Rightarrow> aof_error option \<times> aof" where
  "aof_Write fault sync_ok cmd a =
     (case flush_bytes fault (encode_cmd cmd) a of
        (Some e, a') \<Rightarrow> (Some e, a')
      | (None, a') \<Rightarrow> if apolicy a' = FsyncAlways then sync sync_ok a' else (None, a'))"

text \<open>One tick of \<^verbatim>\<open>backgroundSync\<close>: flush, then sync, errors are only logged.\<close>

definition backgroundSync_tick :: "bool \<Rightarrow> aof \<Rightarrow> aof" where
  "backgroundSync_tick sync_ok a = snd (sync sync_ok a)"

text \<open>The goroutine: what its \<^verbatim>\<open>select\<close> receives, ticks until the channel \<^verbatim>\<open>done\<close> is closed.\<close>

datatype bg_event = Tick bool | Done

fun backgroundSync :: "bg_event list \<Rightarrow> aof \<Rightarrow> aof" where
  "backgroundSync [] a = a"
| "backgroundSync (Tick ok # es) a = backgroundSync es (backgroundSync_tick ok a)"
| "backgroundSync (Done # es) a = a"

text \<open>
  The open log: whether its file is open and its channel \<^verbatim>\<open>done\<close> closed. Opening gives an error or the
  contents found; \<open>ok\<close> is the result of closing the file.
\<close>

record aof_handle =
  ahAof :: aof
  ahOpen :: bool
  ahDone :: bool

definition aof_open :: "string + bytes \<Rightarrow> FsyncPolicy \<Rightarrow> string + aof_handle" where
  "aof_open opened policy =
     (case opened of
        Inl e \<Rightarrow> Inl e
      | Inr contents \<Rightarrow> Inr \<lparr>ahAof = NewAOF contents policy, ahOpen = True, ahDone = False\<rparr>)"

definition aof_Close :: "bool \<Rightarrow> aof_handle \<Rightarrow> (aof_error option \<times> aof_handle) outcome" where
  "aof_Close ok h =
     (if apolicy (ahAof h) = FsyncEverySec \<and> ahDone h then Panic ''close of closed channel''
      else let h1 = (if apolicy (ahAof h) = FsyncEverySec then h\<lparr>ahDone := True\<rparr> else h) in
        if abroken (ahAof h) then Ret (Some WriteFailed, h1)
        else Ret (if ahOpen h \<and> ok then None else Some CloseFailed, h1\<lparr>ahOpen := False\<rparr>))"

lemma aof_Close_panics: "(\<exists>m. aof_Close ok h = Panic m) \<longleftrightarrow> apolicy (ahAof h) = FsyncEverySec \<and> ahDone h"
  by (simp add: aof_Close_def Let_def)

text \<open>
  The first \<^verbatim>\<open>Close\<close> never panics and keeps every byte that was written; after a failed write it reports
  the failure and leaves the file open. A second one panics exactly under the policy with a goroutine to stop.
\<close>

lemma aof_Close_first:
  assumes "aof_open (Inr contents) policy = Inr h" "apolicy a = policy"
  shows "\<exists>r h'. aof_Close ok (h\<lparr>ahAof := a\<rparr>) = Ret (r, h') \<and> ahAof h' = a \<and> (r = None \<longleftrightarrow> ok \<and> \<not> abroken a) \<and>
           (ahOpen h' \<longleftrightarrow> abroken a) \<and> (\<forall>ok'. (\<exists>m. aof_Close ok' h' = Panic m) \<longleftrightarrow> policy = FsyncEverySec)"
proof -
  have h: "h = \<lparr>ahAof = NewAOF contents policy, ahOpen = True, ahDone = False\<rparr>"
    using assms(1) by (simp add: aof_open_def)
  show ?thesis
    unfolding aof_Close_panics using assms(2)
    by (cases "abroken a"; cases "policy = FsyncEverySec") (simp_all add: h aof_Close_def)
qed

lemma backgroundSync_keeps: "afile (backgroundSync es a) = afile a \<and> abroken (backgroundSync es a) = abroken a"
  by (induction es a rule: backgroundSync.induct) (auto simp: backgroundSync_tick_def sync_def)

section \<open>Reading the log\<close>

lemma ReadString_shorter: "ReadString s = Some (line, r) \<Longrightarrow> length r < length s"
proof -
  assume "ReadString s = Some (line, r)"
  then have lf: "LF \<in> set s" and r: "r = tl (dropWhile (\<lambda>c. c \<noteq> LF) s)"
    by (simp_all add: ReadString_def split: if_splits)
  have "length (dropWhile (\<lambda>c. c \<noteq> LF) s) \<le> length s"
    by (rule length_dropWhile_le)
  then show ?thesis
    using lf unfolding r by (cases s) auto
qed

lemma read_bulk_shorter: "read_bulk s = Ret (Inr (a, r)) \<Longrightarrow> length r < length s"
  by (auto simp: read_bulk_def split: option.splits sum.splits if_splits dest!: ReadString_shorter)

lemma read_bulks_shorter: "read_bulks n args s = Ret (Inr (as, r)) \<Longrightarrow> length r \<le> length s"
proof (induction n arbitrary: args s)
  case (Suc n)
  then obtain a t where "read_bulk s = Ret (Inr (a, t))" "read_bulks n (args @ [a]) t = Ret (Inr (as, r))"
    by (auto split: outcome.splits sum.splits)
  then show ?case
    using Suc.IH read_bulk_shorter by (meson less_imp_le_nat order_trans)
qed simp

lemma ParseCommand_shorter:
  assumes "ParseCommand L s = Ret (Inr (c, r))"
  shows "length r < length s"
proof -
  obtain line t where t: "ReadString s = Some (line, t)"
    using assms by (auto simp: ParseCommand_def split: option.splits)
  then have "length r \<le> length t"
    using assms
    by (auto simp: ParseCommand_def Let_def split: if_splits sum.splits outcome.splits dest: read_bulks_shorter)
  then show ?thesis
    using ReadString_shorter [OF t] by simp
qed

text \<open>
  \<^verbatim>\<open>ReadCommands\<close> calls back with each command before it reads the next one; here it
  returns the commands it called back with and the error it ended with, if any.
\<close>

function ReadCommands :: "golib \<Rightarrow> bytes \<Rightarrow> (command list \<times> perr option) outcome" where
  "ReadCommands L s =
     (case ParseCommand L s of
        Panic m \<Rightarrow> Panic m
      | Ret (Inl e) \<Rightarrow> Ret ([], if e = ErrEOF then None else Some e)
      | Ret (Inr (c, r)) \<Rightarrow>
          (case ReadCommands L r of
             Panic m \<Rightarrow> Panic m
           | Ret (cs, e) \<Rightarrow> Ret ((case c of None \<Rightarrow> [] | Some cmd \<Rightarrow> [cmd]) @ cs, e)))"
  by pat_completeness auto
termination
  by (relation "measure (\<lambda>(L, s). length s)") (auto dest: ParseCommand_shorter)

declare ReadCommands.simps [simp del]

section \<open>A log cut off at any byte\<close>

definition cut_error :: "perr \<Rightarrow> bool" where
  "cut_error e \<longleftrightarrow> e = ErrEOF \<or> e = ErrUnexpectedEOF"

lemma ReadString_cut: "LF \<notin> set l \<Longrightarrow> k \<le> length l \<Longrightarrow> ReadString (take k (l @ LF # r)) = None"
  by (auto simp: ReadString_def dest: in_set_takeD)

lemma header_cut:
  assumes "c \<noteq> LF"
  shows "k < length (dec_nat n) + 3 \<Longrightarrow> ReadString (take k (c # dec_nat n @ crlf @ r)) = None"
    and "length (dec_nat n) + 3 \<le> k \<Longrightarrow>
         take k (c # dec_nat n @ crlf @ r) = c # dec_nat n @ crlf @ take (k - (length (dec_nat n) + 3)) r"
proof -
  have "LF \<notin> set (c # dec_nat n @ [CR])"
    using assms dec_nat_no_crlf [of n] by simp
  from ReadString_cut [OF this, of k r]
  show "k < length (dec_nat n) + 3 \<Longrightarrow> ReadString (take k (c # dec_nat n @ crlf @ r)) = None"
    by simp
  have "take k ((c # dec_nat n @ crlf) @ r) = take k (c # dec_nat n @ crlf) @ take (k - length (c # dec_nat n @ crlf)) r"
    by (rule take_append)
  then show "length (dec_nat n) + 3 \<le> k \<Longrightarrow>
      take k (c # dec_nat n @ crlf @ r) = c # dec_nat n @ crlf @ take (k - (length (dec_nat n) + 3)) r"
    by (simp add: numeral_3_eq_3)
qed

lemma read_bulk_cut:
  assumes "int (length s) \<le> maxBulkLength" "k < length (bulk s)"
  shows "\<exists>e. read_bulk (take k (bulk s)) = Ret (Inl e) \<and> cut_error e"
proof (cases "k < length (dec_nat (length s)) + 3")
  case True
  then show ?thesis
    using header_cut(1) [of "CHR ''$''" k] by (simp add: read_bulk_def bulk_def cut_error_def)
next
  case False
  define t where "t = take (k - (length (dec_nat (length s)) + 3)) (s @ crlf)"
  have t: "length t < length s + 2" "take k (bulk s) = CHR ''$'' # dec_nat (length s) @ crlf @ t"
    using False assms(2) header_cut(2) [of "CHR ''$''" "length s" k "s @ crlf"] by (auto simp: bulk_def t_def)
  obtain line where "ReadString (CHR ''$'' # dec_nat (length s) @ crlf @ t) = Some (line, t)"
      "TrimSpace line = CHR ''$'' # dec_nat (length s)"
    using ReadString_header [OF header_ascii(1,3)] by metis
  then show ?thesis
    using assms(1) t by (auto simp: read_bulk_def sscanf_dec maxBulkLength_def cut_error_def)
qed

lemma read_bulks_cut:
  assumes "\<And>a. a \<in> set as \<Longrightarrow> int (length a) \<le> maxBulkLength" "k < length (concat (map bulk as))"
  shows "\<exists>e. read_bulks (length as) acc (take k (concat (map bulk as))) = Ret (Inl e) \<and> cut_error e"
  using assms
proof (induction as arbitrary: acc k)
  case (Cons a as)
  show ?case
  proof (cases "k < length (bulk a)")
    case True
    then show ?thesis
      using read_bulk_cut [of a k] Cons.prems by auto
  next
    case False
    then have "read_bulk (take k (bulk a @ concat (map bulk as)))
        = Ret (Inr (a, take (k - length (bulk a)) (concat (map bulk as))))"
      using read_bulk_write Cons.prems by simp
    moreover have "k - length (bulk a) < length (concat (map bulk as))"
      using False Cons.prems by simp
    ultimately show ?thesis
      using Cons.IH [of "k - length (bulk a)" "acc @ [a]"] Cons.prems by simp
  qed
qed simp

lemma ParseCommand_cut:
  assumes "within_limits args" "k < length (WriteCommand args)"
  shows "\<exists>e. ParseCommand L (take k (WriteCommand args)) = Ret (Inl e) \<and> cut_error e"
proof (cases "k < length (dec_nat (length args)) + 3")
  case True
  then show ?thesis
    using header_cut(1) [of "CHR ''*''" k] by (simp add: ParseCommand_def WriteCommand_def cut_error_def)
next
  case False
  let ?j = "k - (length (dec_nat (length args)) + 3)"
  define t where "t = take ?j (concat (map bulk args))"
  have t: "?j < length (concat (map bulk args))"
      "take k (WriteCommand args) = CHR ''*'' # dec_nat (length args) @ crlf @ t"
    using False assms(2) header_cut(2) [of "CHR ''*''" "length args" k "concat (map bulk args)"]
    by (auto simp: WriteCommand_def t_def)
  obtain line where line: "ReadString (CHR ''*'' # dec_nat (length args) @ crlf @ t) = Some (line, t)"
      "TrimSpace line = CHR ''*'' # dec_nat (length args)"
    using ReadString_header [OF header_ascii(2,4)] by metis
  obtain e where e: "read_bulks (length args) [] t = Ret (Inl e)" "cut_error e"
    using read_bulks_cut [OF _ t(1)] within_limitsD(2) [OF assms(1)] unfolding t_def by blast
  have "sscanf_lit_d (CHR ''*'') (CHR ''*'' # dec_nat (length args)) = Inr (int (length args))"
    using within_limitsD(1) [OF assms(1)] by (intro sscanf_dec) (simp add: maxArgs_def)
  then show ?thesis
    using line e t within_limitsD(1) [OF assms(1)] by (simp add: ParseCommand_def)
qed

section \<open>Recovery\<close>

definition loggable :: "golib \<Rightarrow> command \<Rightarrow> bool" where
  "loggable L cmd \<longleftrightarrow> within_limits (cName cmd # cArgs cmd) \<and> ToUpper L (cName cmd) = cName cmd"

definition log_of :: "command list \<Rightarrow> bytes" where
  "log_of cmds = concat (map encode_cmd cmds)"

text \<open>How many whole commands the first \<open>k\<close> bytes of a log hold.\<close>

fun complete :: "command list \<Rightarrow> nat \<Rightarrow> nat" where
  "complete [] k = 0"
| "complete (c # cs) k =
     (if k < length (encode_cmd c) then 0 else Suc (complete cs (k - length (encode_cmd c))))"

lemma complete_all: "length (log_of cmds) \<le> k \<Longrightarrow> complete cmds k = length cmds"
  by (induction cmds arbitrary: k) (auto simp: log_of_def)

lemma ReadCommands_Nil: "ReadCommands L [] = Ret ([], None)"
  by (simp add: ReadCommands.simps ParseCommand_def ReadString_def)

lemma ReadCommands_step:
  assumes "loggable L c"
  shows "ReadCommands L (encode_cmd c @ r) =
    (case ReadCommands L r of Panic m \<Rightarrow> Panic m | Ret (cs, e) \<Rightarrow> Ret (c # cs, e))"
proof -
  have "ParseCommand L (encode_cmd c @ r) = Ret (Inr (Some c, r))"
    using assms parse_write_stream_aux [of "cName c # cArgs c" L r]
    by (simp add: loggable_def encode_cmd_def to_command_def)
  then show ?thesis
    by (subst ReadCommands.simps) (simp split: outcome.split)
qed

lemma recover_cut:
  assumes "\<forall>c \<in> set cmds. loggable L c"
  shows "\<exists>e. ReadCommands L (take k (log_of cmds)) = Ret (take (complete cmds k) cmds, e) \<and>
           (e = None \<or> e = Some ErrUnexpectedEOF) \<and> (length (log_of cmds) \<le> k \<longrightarrow> e = None)"
  using assms
proof (induction cmds arbitrary: k)
  case Nil
  then show ?case
    by (simp add: log_of_def ReadCommands_Nil)
next
  case (Cons c cs)
  show ?case
  proof (cases "k < length (encode_cmd c)")
    case True
    then have "take k (log_of (c # cs)) = take k (encode_cmd c)"
      by (simp add: log_of_def)
    moreover obtain e where "ParseCommand L (take k (encode_cmd c)) = Ret (Inl e)" "cut_error e"
      using Cons.prems True ParseCommand_cut [of "cName c # cArgs c" k L] by (auto simp: loggable_def encode_cmd_def)
    ultimately show ?thesis
      using True by (auto simp: ReadCommands.simps [of L "take k (encode_cmd c)"] cut_error_def log_of_def)
  next
    case False
    then have "take k (log_of (c # cs)) = encode_cmd c @ take (k - length (encode_cmd c)) (log_of cs)"
      by (simp add: log_of_def)
    then show ?thesis
      using Cons.IH [of "k - length (encode_cmd c)"] Cons.prems False
      by (auto simp: ReadCommands_step log_of_def)
  qed
qed

section \<open>Sequences of writes\<close>

type_synonym logged = "nat option \<times> bool \<times> command"

fun aof_run :: "logged list \<Rightarrow> aof \<Rightarrow> aof" where
  "aof_run [] a = a"
| "aof_run ((fault, ok, cmd) # ws) a = aof_run ws (snd (aof_Write fault ok cmd a))"

definition cmd_of :: "logged \<Rightarrow> command" where
  "cmd_of w = snd (snd w)"

lemma cmd_of_simp [simp]: "cmd_of (fault, ok, cmd) = cmd"
  by (simp add: cmd_of_def)

lemma aof_Write_cases:
  obtains (broken) "abroken a" "aof_Write fault ok cmd a = (Some WriteFailed, a)"
  | (failed) k where "\<not> abroken a" "fault = Some k"
      "aof_Write fault ok cmd a = (Some WriteFailed, a\<lparr>afile := afile a @ take k (encode_cmd cmd), abroken := True\<rparr>)"
  | (written) r b where "\<not> abroken a" "fault = None" "aof_Write fault ok cmd a = (r, b)"
      "afile b = afile a @ encode_cmd cmd" "\<not> abroken b" "apolicy b = apolicy a"
      "r = None \<Longrightarrow> apolicy a = FsyncAlways \<Longrightarrow> asynced b = length (afile b)"
proof (cases "abroken a")
  case True
  then show ?thesis
    by (intro broken) (simp_all add: aof_Write_def flush_bytes_def)
next
  case False
  show ?thesis
  proof (cases fault)
    case None
    obtain r b where rb: "aof_Write fault ok cmd a = (r, b)"
      by fastforce
    show ?thesis
      by (rule written [OF False None rb])
        (use False None rb in \<open>auto simp: aof_Write_def flush_bytes_def sync_def split: if_splits\<close>)
  next
    case (Some k)
    then show ?thesis
      using False by (intro failed) (simp_all add: aof_Write_def flush_bytes_def)
  qed
qed

lemma aof_run_broken: "abroken a \<Longrightarrow> aof_run ws a = a"
  by (induction ws) (auto simp: aof_Write_def flush_bytes_def)

lemma aof_run_file:
  "\<not> abroken a \<Longrightarrow>
   \<exists>k. afile (aof_run ws a) = afile a @ take k (log_of (map cmd_of ws)) \<and>
       (\<not> abroken (aof_run ws a) \<longrightarrow> afile (aof_run ws a) = afile a @ log_of (map cmd_of ws)) \<and>
       apolicy (aof_run ws a) = apolicy a"
proof (induction ws arbitrary: a)
  case Nil
  then show ?case
    by (simp add: log_of_def)
next
  case (Cons w ws)
  obtain fault ok cmd where w: "w = (fault, ok, cmd)"
    by (cases w)
  show ?case
  proof (cases rule: aof_Write_cases [of a fault ok cmd])
    case broken
    then show ?thesis
      using Cons.prems by simp
  next
    case (failed k)
    let ?e = "encode_cmd cmd"
    have "take k ?e = take (min k (length ?e)) (log_of (map cmd_of (w # ws)))"
      by (simp add: w log_of_def min_def)
    then show ?thesis
      using failed by (auto simp: w aof_run_broken)
  next
    case (written r b)
    obtain k where "afile (aof_run ws b) = afile b @ take k (log_of (map cmd_of ws))"
        "\<not> abroken (aof_run ws b) \<longrightarrow> afile (aof_run ws b) = afile b @ log_of (map cmd_of ws)"
        "apolicy (aof_run ws b) = apolicy b"
      using Cons.IH [OF written(5)] by blast
    then show ?thesis
      using written(3,4,6)
      by (intro exI [of _ "length (encode_cmd cmd) + k"]) (simp add: w log_of_def)
  qed
qed

section \<open>Properties\<close>

text \<open>
  C19: Crash recovery of the log. If the log of a sequence of commands is cut off at any byte
  (a crash in the middle of an append), reading it back calls back with exactly the commands that
  are completely in the file, in order, and never with a damaged one. The read ends cleanly or
  with \<^verbatim>\<open>io.ErrUnexpectedEOF\<close>, and cleanly when nothing is missing.
\<close>
theorem aof_crash_recovery:
  assumes "\<forall>c \<in> set cmds. loggable L c"
  shows "\<exists>e. ReadCommands L (take k (log_of cmds)) = Ret (take (complete cmds k) cmds, e) \<and>
           (e = None \<or> e = Some ErrUnexpectedEOF) \<and> (length (log_of cmds) \<le> k \<longrightarrow> e = None)"
  using assms by (rule recover_cut)

definition demo_cmd :: command where
  "demo_cmd = \<lparr>cName = ''SET'', cArgs = [''k'', ''v'']\<rparr>"

lemma demo_cmd_loggable: "loggable ascii_golib demo_cmd"
proof -
  have "ToUpper ascii_golib ''SET'' = ''SET''"
    by code_simp
  then show ?thesis
    by (simp add: loggable_def demo_cmd_def within_limits_def)
qed

theorem aof_crash_recovery_witness:
  "\<exists>e. ReadCommands ascii_golib (take 40 (log_of [demo_cmd, demo_cmd]))
         = Ret (take (complete [demo_cmd, demo_cmd] 40) [demo_cmd, demo_cmd], e)"
  using aof_crash_recovery [of "[demo_cmd, demo_cmd]" ascii_golib 40] demo_cmd_loggable by auto



text \<open>
  Logs and faults: after any sequence of writes with any device faults the file is a
  prefix of the log of those commands, so that a restart replays a prefix of what was written, in
  order, and no command twice.
\<close>
lemma aof_replays_prefix:
  assumes "\<forall>c \<in> set (map cmd_of ws). loggable L c"
  shows "\<exists>n e. ReadCommands L (afile (aof_run ws (NewAOF [] p))) = Ret (take n (map cmd_of ws), e)"
proof -
  obtain k where "afile (aof_run ws (NewAOF [] p)) = take k (log_of (map cmd_of ws))"
    using aof_run_file [of "NewAOF [] p" ws] by (auto simp: NewAOF_def)
  then show ?thesis
    using recover_cut [OF assms, of k] by metis
qed

end
