(* ===== verification/Fas_Cluster.thy ===== *)
theory Fas_Cluster
  imports Fas_Go "HOL-Library.Word"
begin

unbundle bit_operations_syntax

text \<open>
  Slot hashing and the static slot table (\<^verbatim>\<open>pkg/server/slot.go\<close>,
  \<^verbatim>\<open>pkg/server/cluster.go\<close>). The checksum works on 16-bit words as the code does. The
  resolver \<^verbatim>\<open>net.ResolveTCPAddr\<close> is an argument: it gives \<open>None\<close> for an address it accepts
  and the text of its error otherwise.
\<close>

section \<open>The checksum (slot.go)\<close>

definition crc_step :: "16 word \<Rightarrow> 16 word" where
  "crc_step crc = (if crc AND 0x8000 \<noteq> 0 then push_bit 1 crc XOR 0x1021 else push_bit 1 crc)"

definition crc_byte :: "16 word \<Rightarrow> char \<Rightarrow> 16 word" where
  "crc_byte crc b = (crc_step ^^ 8) (crc XOR push_bit 8 (of_nat (byte b)))"

definition crc16 :: "string \<Rightarrow> 16 word" where
  "crc16 data = foldl crc_byte 0 data"

definition keySlot :: "string \<Rightarrow> int \<Rightarrow> int outcome" where
  "keySlot key slots =
     (if slots \<le> 0 then Ret 0
      else let m = (word_of_int slots :: 16 word) in
           if m = 0 then Panic ''integer divide by zero''
           else Ret (uint (crc16 key mod m)))"

section \<open>The slot table (cluster.go)\<close>

record SlotRange =
  rStart :: int
  rEnd :: int
  rAddr :: string

record ClusterState =
  slots :: int
  ranges :: "SlotRange list"

definition NewClusterState :: "int \<Rightarrow> string \<Rightarrow> ClusterState" where
  "NewClusterState n self = \<lparr>slots = n, ranges = [\<lparr>rStart = 0, rEnd = wrap64 (n - 1), rAddr = self\<rparr>]\<rparr>"

definition SetRanges :: "ClusterState \<Rightarrow> SlotRange list \<Rightarrow> ClusterState" where
  "SetRanges c r = c\<lparr>ranges := r\<rparr>"

fun lookup_loop :: "SlotRange list \<Rightarrow> int \<Rightarrow> string option" where
  "lookup_loop [] slot = None"
| "lookup_loop (r # rs) slot = (if rStart r \<le> slot \<and> slot \<le> rEnd r then Some (rAddr r) else lookup_loop rs slot)"

definition Lookup :: "ClusterState \<Rightarrow> int \<Rightarrow> string" where
  "Lookup c slot =
     (case lookup_loop (ranges c) slot of
        Some a \<Rightarrow> a
      | None \<Rightarrow> if ranges c \<noteq> [] then rAddr (hd (ranges c)) else [])"

definition SlotsInfo :: "ClusterState \<Rightarrow> string" where
  "SlotsInfo c =
     concat (map (\<lambda>r. dec_int (rStart r) @ ''-'' @ dec_int (rEnd r) @ '' '' @ rAddr r @ [LF]) (ranges c))"

datatype slot_error =
    InvalidSlotRange string
  | StartAfterEnd string
  | InvalidAddr string string

text \<open>\<^verbatim>\<open>Sscanf\<close> leaves its zero-initialised target alone when it fails, and its error is not looked at.\<close>

definition scan_or_zero :: "string \<Rightarrow> int" where
  "scan_or_zero s = (case scan_d s of Inl _ \<Rightarrow> 0 | Inr n \<Rightarrow> n)"

definition parse_range :: "(string \<Rightarrow> string option) \<Rightarrow> string \<Rightarrow> slot_error + SlotRange" where
  "parse_range resolve p =
     (case split2 (CHR '':'') p of
        [rangePart, addr] \<Rightarrow>
          (case split2 (CHR ''-'') rangePart of
             [r0, r1] \<Rightarrow>
               let start = scan_or_zero r0; end = scan_or_zero r1 in
               if start > end then Inl (StartAfterEnd p)
               else (case resolve addr of
                  Some err \<Rightarrow> Inl (InvalidAddr addr err)
                | None \<Rightarrow> Inr \<lparr>rStart = start, rEnd = end, rAddr = addr\<rparr>)
           | _ \<Rightarrow> Inl (InvalidSlotRange p))
      | _ \<Rightarrow> Inl (InvalidSlotRange p))"

fun parse_ranges_loop :: "(string \<Rightarrow> string option) \<Rightarrow> string list \<Rightarrow> SlotRange list \<Rightarrow> slot_error + SlotRange list" where
  "parse_ranges_loop resolve [] out = Inr out"
| "parse_ranges_loop resolve (p0 # ps) out =
     (let p = TrimSpace p0 in
      if p = [] then parse_ranges_loop resolve ps out
      else (case parse_range resolve p of
         Inl e \<Rightarrow> Inl e
       | Inr r \<Rightarrow> parse_ranges_loop resolve ps (out @ [r])))"

definition ParseSlotRanges :: "(string \<Rightarrow> string option) \<Rightarrow> string \<Rightarrow> slot_error + SlotRange list" where
  "ParseSlotRanges resolve val = parse_ranges_loop resolve (split_on (CHR '','') val) []"

section \<open>The checksum as a linear code\<close>

lemma crc_step_bit: "crc_step w = (if bit w 15 then push_bit 1 w XOR 0x1021 else push_bit 1 w)"
proof -
  have "(w AND 0x8000 \<noteq> 0) = bit w 15"
  proof -
    have "(0x8000 :: 16 word) = push_bit 15 1"
      by simp
    then show ?thesis
      by (metis bit_iff_and_push_bit_not_eq_0)
  qed
  then show ?thesis
    by (simp add: crc_step_def)
qed

lemma crc_step_xor: "crc_step (v XOR w) = crc_step v XOR crc_step w"
  by (auto simp: crc_step_bit bit_xor_iff push_bit_xor xor.assoc xor.left_commute xor.commute)

lemma crc_steps_xor: "(crc_step ^^ n) (v XOR w) = (crc_step ^^ n) v XOR (crc_step ^^ n) w"
  by (induction n) (simp_all add: crc_step_xor)

lemma crc_step_0 [simp]: "crc_step 0 = 0"
  by (simp add: crc_step_def)

lemma crc_steps_0 [simp]: "(crc_step ^^ n) 0 = 0"
  by (induction n) simp_all

lemma crc_steps_low:
  assumes "\<And>i. 8 \<le> i \<Longrightarrow> \<not> bit w i" "n \<le> 8"
  shows "(crc_step ^^ n) w = push_bit n w"
  using assms(2)
proof (induction n)
  case (Suc n)
  then have "\<not> bit (push_bit n w) 15"
    using assms(1) [of "15 - n"] by (auto simp: bit_push_bit_iff)
  then show ?case
    using Suc by (simp add: crc_step_bit push_bit_push_bit)
qed simp

lemma crc_byte_xor:
  "crc_byte (v XOR w) b = (crc_step ^^ 8) v XOR crc_byte w b"
  by (simp add: crc_byte_def crc_steps_xor xor.assoc)

lemma crc16_snoc: "crc16 (s @ [b]) = crc_byte (crc16 s) b"
  by (simp add: crc16_def)

definition hi_byte :: "16 word \<Rightarrow> char" where
  "hi_byte w = char_of (unat (drop_bit 8 w))"

definition lo_byte :: "16 word \<Rightarrow> char" where
  "lo_byte w = char_of (unat (take_bit 8 w))"

lemma hi_byte_word: "of_nat (byte (hi_byte w)) = drop_bit 8 w"
proof -
  have less: "unat (drop_bit 8 w) < 256"
  proof -
    have "unat w < 65536"
      using unsigned_less [of w, where ?'a = nat] by simp
    then have "unat w div 256 < 256"
      by (simp add: less_mult_imp_div_less)
    then show ?thesis
      by (simp add: drop_bit_eq_div unat_div)
  qed
  then show ?thesis
    by (simp add: hi_byte_def byte_char_of)
qed

lemma lo_byte_word: "of_nat (byte (lo_byte w)) = take_bit 8 w"
proof -
  have "unat (take_bit 8 w) < 256"
    using take_bit_nat_less_exp [of 8 "unat w"] by (simp only: unsigned_take_bit_eq) simp
  then show ?thesis
    by (simp add: lo_byte_def byte_char_of)
qed

lemma word_split8: "w XOR push_bit 8 (drop_bit 8 w) = take_bit 8 (w :: 16 word)"
  by (rule bit_eqI) (auto simp: bit_xor_iff bit_push_bit_iff bit_drop_bit_eq bit_take_bit_iff)

lemma crc16_append_own:
  "crc16 (s @ [hi_byte (crc16 s), lo_byte (crc16 s)]) = 0"
proof -
  let ?w = "crc16 s"
  have "crc_byte ?w (hi_byte ?w) = (crc_step ^^ 8) (take_bit 8 ?w)"
    by (simp add: crc_byte_def hi_byte_word word_split8)
  also have "\<dots> = push_bit 8 (take_bit 8 ?w)"
    by (rule crc_steps_low) (simp_all add: bit_take_bit_iff)
  finally have "crc16 (s @ [hi_byte ?w]) = push_bit 8 (take_bit 8 ?w)"
    by (simp add: crc16_snoc)
  then have "crc_byte (crc16 (s @ [hi_byte ?w])) (lo_byte ?w) = 0"
    by (simp add: crc_byte_def lo_byte_word)
  then show ?thesis
    using crc16_snoc [of "s @ [hi_byte ?w]" "lo_byte ?w"] by simp
qed

section \<open>Reading back a slot table\<close>

definition show_range :: "SlotRange \<Rightarrow> string" where
  "show_range r = dec_int (rStart r) @ ''-'' @ dec_int (rEnd r) @ '':'' @ rAddr r"

fun join_commas :: "string list \<Rightarrow> string" where
  "join_commas [] = []"
| "join_commas [p] = p"
| "join_commas (p # q # ps) = p @ '','' @ join_commas (q # ps)"

definition range_ok :: "(string \<Rightarrow> string option) \<Rightarrow> SlotRange \<Rightarrow> bool" where
  "range_ok resolve r \<longleftrightarrow>
     0 \<le> rStart r \<and> rStart r \<le> rEnd r \<and> rEnd r < 2 ^ 63 \<and>
     resolve (rAddr r) = None \<and> CHR '','' \<notin> set (rAddr r) \<and>
     rAddr r \<noteq> [] \<and> byte (last (rAddr r)) < 128 \<and> \<not> space1 (byte (last (rAddr r)))"

lemma split_on_join:
  "\<forall>p \<in> set ps. CHR '','' \<notin> set p \<Longrightarrow> ps \<noteq> [] \<Longrightarrow> split_on (CHR '','') (join_commas ps) = ps"
  by (induction ps rule: join_commas.induct) (simp_all add: split_on_plain split_on_sep)

lemma dec_nat_plain: "\<not> is_digit c \<Longrightarrow> c \<notin> set (dec_nat n)"
  using dec_nat_digits by blast

lemma scan_or_zero_dec: "n < 2 ^ 63 \<Longrightarrow> scan_or_zero (dec_nat n) = int n"
  using scan_d_dec_nat [of n "[]"] by (simp add: scan_or_zero_def)

lemma show_range_nat:
  assumes "range_ok resolve r"
  shows "show_range r = dec_nat (nat (rStart r)) @ CHR ''-'' # dec_nat (nat (rEnd r)) @ CHR '':'' # rAddr r"
  using assms by (simp add: show_range_def dec_int_def range_ok_def)

lemma TrimSpace_show_range:
  assumes "range_ok resolve r"
  shows "TrimSpace (show_range r) = show_range r"
proof -
  obtain d ds where d: "dec_nat (nat (rStart r)) = d # ds"
    by (metis dec_nat_nonempty neq_Nil_conv)
  then have dig: "is_digit d"
    using dec_nat_digits [of "nat (rStart r)"] by simp
  have "rAddr r = butlast (rAddr r) @ [last (rAddr r)]"
    using assms by (simp add: range_ok_def)
  then obtain x where x: "show_range r = x @ [last (rAddr r)]"
    unfolding show_range_def by (metis append.assoc)
  have "TrimLeft (show_range r) = show_range r"
    using is_digit_ascii [OF dig] by (simp add: show_range_nat [OF assms] d)
  moreover have "TrimRight (show_range r) = show_range r"
    using assms TrimRight_ascii [of "last (rAddr r)" x] by (simp add: x range_ok_def)
  ultimately show ?thesis
    by (simp add: TrimSpace_def)
qed

lemma parse_show_range:
  assumes "range_ok resolve r"
  shows "parse_range resolve (show_range r) = Inr r"
proof -
  let ?a = "dec_nat (nat (rStart r))" and ?b = "dec_nat (nat (rEnd r))"
  have sep: "CHR ''-'' \<notin> set ?a" "CHR '':'' \<notin> set (?a @ CHR ''-'' # ?b)"
    using dec_nat_plain [of "CHR '':''"] dec_nat_plain [of "CHR ''-''"] by (auto simp: is_digit_def byte_def)
  have "split2 (CHR '':'') (show_range r) = [?a @ CHR ''-'' # ?b, rAddr r]"
    using split2_sep [OF sep(2), of "rAddr r"] by (simp add: show_range_nat [OF assms])
  moreover have "split2 (CHR ''-'') (?a @ CHR ''-'' # ?b) = [?a, ?b]"
    by (rule split2_sep [OF sep(1)])
  moreover have "nat (rStart r) < 2 ^ 63" "nat (rEnd r) < 2 ^ 63"
    using assms unfolding range_ok_def by (auto simp: nat_less_iff)
  then have "scan_or_zero ?a = rStart r" "scan_or_zero ?b = rEnd r"
    using assms scan_or_zero_dec [of "nat (rStart r)"] scan_or_zero_dec [of "nat (rEnd r)"]
    by (simp_all add: range_ok_def)
  ultimately show ?thesis
    using assms by (simp add: parse_range_def range_ok_def)
qed

lemma parse_show_loop:
  "\<forall>r \<in> set rs. range_ok resolve r \<Longrightarrow>
   parse_ranges_loop resolve (map show_range rs) out = Inr (out @ rs)"
proof (induction rs arbitrary: out)
  case (Cons r rs)
  have "show_range r \<noteq> []"
    by (simp add: show_range_def)
  then show ?case
    using Cons parse_show_range [of resolve r] TrimSpace_show_range [of resolve r] by (simp add: Let_def)
qed simp

section \<open>Properties\<close>

text \<open>
  C33: The slot hash is the checksum Redis clusters use (CRC-16/XMODEM): it has the
  published check value for \<^verbatim>\<open>123456789\<close>, it is a linear code (the checksum of a
  bytewise exclusive or is the exclusive or of the checksums, here for the last byte), and
  a message followed by its own checksum has checksum 0.
\<close>
theorem crc16_is_xmodem:
  "crc16 ''123456789'' = 0x31C3 \<and>
   crc_byte (v XOR w) b = (crc_step ^^ 8) v XOR crc_byte w b \<and>
   crc16 (s @ [hi_byte (crc16 s), lo_byte (crc16 s)]) = 0"
proof (intro conjI)
  show "crc16 ''123456789'' = 0x31C3"
    by code_simp
qed (simp_all add: crc_byte_xor crc16_append_own)

text \<open>
  C34: \<^verbatim>\<open>keySlot\<close> gives a slot of the table for every positive number of slots that fits
  16 bits, and panics with a division by zero exactly for positive multiples of 65536, because the
  number is cut down to 16 bits before the division.
\<close>
theorem keySlot_range:
  "(0 < n \<and> n < 65536 \<longrightarrow> (\<exists>i. keySlot key n = Ret i \<and> 0 \<le> i \<and> i < n)) \<and>
   (keySlot key n = Panic ''integer divide by zero'' \<longleftrightarrow> 0 < n \<and> 65536 dvd n)"
proof -
  have zero: "(word_of_int n :: 16 word) = 0 \<longleftrightarrow> 65536 dvd n"
    by (simp add: word_of_int_eq_0_iff)
  have "uint (crc16 key mod word_of_int n) < n" if "0 < n" "n < 65536"
  proof -
    have "uint (word_of_int n :: 16 word) = n"
      using that by (simp add: uint_word_of_int)
    then show ?thesis
      using that by (simp add: uint_mod_distrib)
  qed
  moreover have "\<not> 65536 dvd n" if "0 < n" "n < 65536"
    using that by (simp add: zdvd_not_zless)
  ultimately show ?thesis
    using zero by (auto simp: keySlot_def Let_def)
qed

theorem keySlot_range_witness:
  "\<exists>i. keySlot ''user:1'' 16384 = Ret i \<and> 0 \<le> i \<and> i < 16384"
  using keySlot_range [of 16384 "''user:1''"] by simp

text \<open>
  A slot table written as \<^verbatim>\<open>start-end:addr\<close> entries separated by commas is read back
  by \<^verbatim>\<open>ParseSlotRanges\<close> as it was: same entries, same order, for bounds that are
  not negative and in order and addresses the resolver accepts.
\<close>
lemma slot_ranges_roundtrip:
  assumes "\<forall>r \<in> set rs. range_ok resolve r"
  shows "ParseSlotRanges resolve (join_commas (map show_range rs)) = Inr rs"
proof (cases "rs = []")
  case True
  then show ?thesis
    by (simp add: ParseSlotRanges_def TrimSpace_def TrimLeft.simps TrimRight.simps)
next
  case False
  have "CHR '','' \<notin> set (show_range r)" if "r \<in> set rs" for r
    using assms that dec_nat_plain [of "CHR '',''"] show_range_nat [of resolve r]
    by (auto simp: range_ok_def is_digit_def byte_def)
  then have "split_on (CHR '','') (join_commas (map show_range rs)) = map show_range rs"
    using False by (intro split_on_join) auto
  then show ?thesis
    using parse_show_loop [OF assms, of "[]"] by (simp add: ParseSlotRanges_def)
qed

lemma lookup_loop_agree:
  "r \<in> set rs \<Longrightarrow> rStart r \<le> i \<Longrightarrow> i \<le> rEnd r \<Longrightarrow>
   (\<And>q. q \<in> set rs \<Longrightarrow> rStart q \<le> i \<Longrightarrow> i \<le> rEnd q \<Longrightarrow> rAddr q = rAddr r) \<Longrightarrow>
   lookup_loop rs i = Some (rAddr r)"
proof (induction rs)
  case (Cons q rs)
  show ?case
  proof (cases "rStart q \<le> i \<and> i \<le> rEnd q")
    case True
    then show ?thesis
      using Cons.prems(4) [OF list.set_intros(1)] by auto
  next
    case False
    then have "r \<in> set rs"
      using Cons.prems(1-3) by auto
    from Cons.IH [OF this Cons.prems(2,3)] have "lookup_loop rs i = Some (rAddr r)"
      using Cons.prems(4) by (meson list.set_intros(2))
    then show ?thesis
      using False by auto
  qed
qed simp

text \<open>
  Every slot inside a configured range is routed to the address of that range as
  long as overlapping ranges agree on the address, and a fresh table routes every slot, also
  one outside of the table, to the node itself.
\<close>
lemma lookup_routes:
  assumes "r \<in> set (ranges c)" "rStart r \<le> i" "i \<le> rEnd r"
    and "\<forall>q \<in> set (ranges c). rStart q \<le> i \<and> i \<le> rEnd q \<longrightarrow> rAddr q = rAddr r"
  shows "Lookup c i = rAddr r \<and> Lookup (NewClusterState n self) j = self"
proof
  have "lookup_loop (ranges c) i = Some (rAddr r)"
    using assms by (intro lookup_loop_agree) blast+
  then show "Lookup c i = rAddr r"
    by (simp add: Lookup_def)
  show "Lookup (NewClusterState n self) j = self"
    by (simp add: Lookup_def NewClusterState_def)
qed

end
