(* ===== verification/Fas_Config.thy ===== *)
theory Fas_Config
  imports Fas_Store Fas_Aof Fas_Cluster
begin

text \<open>
  Configuration: the record \<^verbatim>\<open>Config\<close> with its validation (\<^verbatim>\<open>server.go\<close>), the names of
  the eviction policies (\<^verbatim>\<open>eviction.go\<close>) and the configuration file
  (\<^verbatim>\<open>config_loader.go\<close>). The file is its contents; opening it is not modelled. A
  configuration that a faulty file has changed half-way is returned with the error, as the code
  changes it in place. A network prefix of the allow list is its text.
\<close>

section \<open>The configuration\<close>

record config =
  Host :: string
  Port :: int
  AOFPath :: string
  cfgFsync :: FsyncPolicy
  MaxMemory :: int
  Eviction :: EvictionPolicy
  AuthEnabled :: bool
  Password :: string
  TLSCertPath :: string
  TLSKeyPath :: string
  AllowedCIDR :: "string list"
  RDBPath :: string
  MaxClients :: int
  MetricsPort :: int
  ReplicaOf :: string
  ReplicaUseTLS :: bool
  ReplicaPass :: string
  Slots :: int
  StaticSlots :: "SlotRange list"

datatype cfg_error =
    InvalidLine string
  | InvalidPort string
  | InvalidFsync string
  | InvalidMaxMemory string
  | InvalidMaxClients string
  | InvalidMetricsPort string
  | UnknownPolicy string
  | TokenTooLong
  | AuthWithoutPassword
  | TLSNotTogether

text \<open>The checks of \<^verbatim>\<open>ValidateAndFill\<close> follow the defaults, which stay filled in when a check fails.\<close>

definition fill_defaults :: "config \<Rightarrow> config" where
  "fill_defaults c =
     (let c1 = (if MaxMemory c = 0 then c\<lparr>MaxMemory := 1024 * 1024 * 1024\<rparr> else c);
          c2 = (if Eviction c1 = EvictionNoEviction then c1\<lparr>Eviction := EvictionAllKeysRandom\<rparr> else c1)
      in if Slots c2 = 0 then c2\<lparr>Slots := 16384\<rparr> else c2)"

definition ValidateAndFill :: "config \<Rightarrow> cfg_error option \<times> config" where
  "ValidateAndFill c =
     (let c' = fill_defaults c in
      if AuthEnabled c' \<and> Password c' = [] then (Some AuthWithoutPassword, c')
      else if (TLSCertPath c' = []) \<noteq> (TLSKeyPath c' = []) then (Some TLSNotTogether, c')
      else (None, c'))"

definition ParseEvictionPolicy :: "golib \<Rightarrow> string \<Rightarrow> cfg_error + EvictionPolicy" where
  "ParseEvictionPolicy L p =
     (let q = ToLower L p in
      if q = ''noeject'' \<or> q = ''none'' \<or> q = ''no-eviction'' then Inr EvictionNoEviction
      else if q = ''allkeys-random'' then Inr EvictionAllKeysRandom
      else if q = ''volatile-random'' then Inr EvictionVolatileRandom
      else if q = ''allkeys-lru'' then Inr EvictionAllKeysLRU
      else if q = ''allkeys-lfu'' then Inr EvictionAllKeysLFU
      else Inl (UnknownPolicy p))"

section \<open>The file\<close>

text \<open>\<^verbatim>\<open>strconv.Atoi\<close> and \<^verbatim>\<open>strconv.ParseInt(s, 10, 64)\<close>: a sign and decimal digits, nothing else.\<close>

definition ParseInt :: "string \<Rightarrow> int option" where
  "ParseInt s =
     (let neg = (s \<noteq> [] \<and> hd s = CHR ''-'');
          ds = (if s \<noteq> [] \<and> (hd s = CHR ''-'' \<or> hd s = CHR ''+'') then tl s else s);
          v = (if neg then - int (digits_val ds) else int (digits_val ds))
      in if ds = [] \<or> \<not> list_all is_digit ds \<or> v < - (2 ^ 63) \<or> 2 ^ 63 \<le> v then None else Some v)"

text \<open>
  \<^verbatim>\<open>bufio.Scanner\<close>: lines end with a newline, a carriage return before it is dropped, the last
  line needs no newline, and a line that does not fit the buffer of 64 KB stops the scan.
\<close>

definition dropCR :: "string \<Rightarrow> string" where
  "dropCR l = (if l \<noteq> [] \<and> last l = CR then butlast l else l)"

definition scan_lines :: "bytes \<Rightarrow> string list" where
  "scan_lines s = (let ls = split_on LF s in if last ls = [] then butlast ls else ls)"

definition is_true :: "golib \<Rightarrow> string \<Rightarrow> bool" where
  "is_true L v \<longleftrightarrow> ToLower L v = ''true''"

definition apply_setting :: "golib \<Rightarrow> string \<Rightarrow> string \<Rightarrow> config \<Rightarrow> cfg_error option \<times> config" where
  "apply_setting L key val c =
     (if key = ''host'' then (None, c\<lparr>Host := val\<rparr>)
      else if key = ''port'' then
        (case ParseInt val of Some p \<Rightarrow> (None, c\<lparr>Port := p\<rparr>) | None \<Rightarrow> (Some (InvalidPort val), c))
      else if key = ''aof'' then (None, c\<lparr>AOFPath := val\<rparr>)
      else if key = ''rdb'' then (None, c\<lparr>RDBPath := val\<rparr>)
      else if key = ''fsync'' then
        (let v = ToLower L val in
         if v = ''always'' then (None, c\<lparr>cfgFsync := FsyncAlways\<rparr>)
         else if v = ''everysec'' then (None, c\<lparr>cfgFsync := FsyncEverySec\<rparr>)
         else if v = ''no'' then (None, c\<lparr>cfgFsync := FsyncNo\<rparr>)
         else (Some (InvalidFsync val), c))
      else if key = ''auth'' then (None, c\<lparr>AuthEnabled := is_true L val\<rparr>)
      else if key = ''requirepass'' then (None, c\<lparr>Password := val\<rparr>)
      else if key = ''maxmemory'' then
        (case ParseInt val of Some m \<Rightarrow> (None, c\<lparr>MaxMemory := m\<rparr>) | None \<Rightarrow> (Some (InvalidMaxMemory val), c))
      else if key = ''maxclients'' then
        (case ParseInt val of Some m \<Rightarrow> (None, c\<lparr>MaxClients := m\<rparr>) | None \<Rightarrow> (Some (InvalidMaxClients val), c))
      else if key = ''maxmemory-policy'' then
        (case ParseEvictionPolicy L val of Inl e \<Rightarrow> (Some e, c) | Inr ep \<Rightarrow> (None, c\<lparr>Eviction := ep\<rparr>))
      else if key = ''tls-cert'' then (None, c\<lparr>TLSCertPath := val\<rparr>)
      else if key = ''tls-key'' then (None, c\<lparr>TLSKeyPath := val\<rparr>)
      else if key = ''metrics-port'' then
        (case ParseInt val of Some m \<Rightarrow> (None, c\<lparr>MetricsPort := m\<rparr>) | None \<Rightarrow> (Some (InvalidMetricsPort val), c))
      else if key = ''seed'' then (None, c\<lparr>ReplicaOf := val, AuthEnabled := True\<rparr>)
      else if key = ''seed-tls'' then (None, c\<lparr>ReplicaUseTLS := is_true L val\<rparr>)
      else if key = ''seed-pass'' then (None, c\<lparr>ReplicaPass := val\<rparr>)
      else (None, c))"

definition apply_line :: "golib \<Rightarrow> string \<Rightarrow> config \<Rightarrow> cfg_error option \<times> config" where
  "apply_line L raw c =
     (let line = TrimSpace raw in
      if line = [] \<or> HasPrefix line ''#'' then (None, c)
      else (case split2 (CHR ''='') line of
         [k, v] \<Rightarrow> apply_setting L (ToLower L (TrimSpace k)) (TrimSpace v) c
       | _ \<Rightarrow> (Some (InvalidLine line), c)))"

fun config_loop :: "golib \<Rightarrow> string list \<Rightarrow> config \<Rightarrow> cfg_error option \<times> config" where
  "config_loop L [] c = (None, c)"
| "config_loop L (l # ls) c =
     (if 65536 \<le> length l then (Some TokenTooLong, c)
      else case apply_line L (dropCR l) c of
        (Some e, c') \<Rightarrow> (Some e, c')
      | (None, c') \<Rightarrow> config_loop L ls c')"

definition LoadConfigFile :: "golib \<Rightarrow> bytes \<Rightarrow> config \<Rightarrow> cfg_error option \<times> config" where
  "LoadConfigFile L contents c = config_loop L (scan_lines contents) c"

section \<open>Reading back a list of settings\<close>

definition key_ok :: "string \<Rightarrow> bool" where
  "key_ok k \<longleftrightarrow> k \<noteq> [] \<and> list_all (\<lambda>c. 97 \<le> byte c \<and> byte c \<le> 122 \<or> c = CHR ''-'') k"

definition setting_ok :: "string \<times> string \<Rightarrow> bool" where
  "setting_ok kv \<longleftrightarrow>
     key_ok (fst kv) \<and> trimmed (snd kv) \<and> LF \<notin> set (snd kv) \<and> length (fst kv) + length (snd kv) < 65535"

definition show_setting :: "string \<times> string \<Rightarrow> string" where
  "show_setting kv = fst kv @ CHR ''='' # snd kv"

fun apply_settings :: "golib \<Rightarrow> (string \<times> string) list \<Rightarrow> config \<Rightarrow> cfg_error option \<times> config" where
  "apply_settings L [] c = (None, c)"
| "apply_settings L ((k, v) # kvs) c =
     (case apply_setting L k v c of (Some e, c') \<Rightarrow> (Some e, c') | (None, c') \<Rightarrow> apply_settings L kvs c')"

lemma key_char:
  assumes "key_ok k" "c \<in> set k"
  shows "byte c < 128" "\<not> space1 (byte c)" "c \<noteq> CHR ''=''" "c \<noteq> CHR ''#''" "c \<noteq> LF" "lower_char c = c"
proof -
  have b: "byte (CHR ''-'') = 45" "byte (CHR ''='') = 61" "byte (CHR ''#'') = 35" "byte LF = 10"
    by (simp_all add: byte_def)
  have "97 \<le> byte c \<and> byte c \<le> 122 \<or> c = CHR ''-''"
    using assms unfolding key_ok_def list_all_iff by blast
  then have c: "97 \<le> byte c \<and> byte c \<le> 122 \<or> byte c = 45"
    using b(1) by metis
  then show "byte c < 128" "\<not> space1 (byte c)" "lower_char c = c"
    by (auto simp: space1_def lower_char_def)
  have "byte c \<noteq> 61" "byte c \<noteq> 35" "byte c \<noteq> 10"
    using c by auto
  then show "c \<noteq> CHR ''=''" "c \<noteq> CHR ''#''" "c \<noteq> LF"
    using b by metis+
qed

lemma key_trimmed: "key_ok k \<Longrightarrow> trimmed k"
  using key_char [of k "hd k"] key_char [of k "last k"] by (simp add: trimmed_def plain_char_def key_ok_def)

lemma key_lower: "key_ok k \<Longrightarrow> ToLower L k = k"
  using key_char [of k] by (simp add: ToLower_def is_ascii_def list_all_iff map_idI)

lemma show_setting_line:
  assumes "setting_ok kv"
  shows "trimmed (show_setting kv)" "show_setting kv \<noteq> []" "hd (show_setting kv) \<noteq> CHR ''#''"
    "LF \<notin> set (show_setting kv)" "last (show_setting kv) \<noteq> CR"
proof -
  have k: "key_ok (fst kv)" "fst kv \<noteq> []" "hd (fst kv) \<in> set (fst kv)"
    using assms by (auto simp: setting_ok_def key_ok_def)
  have "plain_char (last (show_setting kv))"
    using assms by (auto simp: show_setting_def setting_ok_def trimmed_def plain_char_def byte_def space1_def)
  then show "trimmed (show_setting kv)" "last (show_setting kv) \<noteq> CR"
    using k key_char [OF k(1,3)] by (auto simp: trimmed_def plain_char_def show_setting_def space1_def)
  show "show_setting kv \<noteq> []" "hd (show_setting kv) \<noteq> CHR ''#''"
    using k key_char(4) [OF k(1,3)] by (auto simp: show_setting_def)
  show "LF \<notin> set (show_setting kv)"
    using assms key_char(5) [OF k(1)] by (auto simp: show_setting_def setting_ok_def)
qed

lemma apply_show_setting:
  assumes "setting_ok (k, v)"
  shows "apply_line L (dropCR (show_setting (k, v))) c = apply_setting L k v c"
proof -
  note l = show_setting_line [OF assms]
  have k: "key_ok k" "trimmed v"
    using assms by (auto simp: setting_ok_def)
  have "dropCR (show_setting (k, v)) = show_setting (k, v)"
    using l(5) by (simp add: dropCR_def)
  moreover have "\<not> HasPrefix (show_setting (k, v)) ''#''"
    using l(2,3) by (cases "show_setting (k, v)") (auto simp: HasPrefix_def)
  moreover have "split2 (CHR ''='') (show_setting (k, v)) = [k, v]"
    unfolding show_setting_def fst_conv snd_conv using key_char(3) [OF k(1)] by (intro split2_sep) blast
  ultimately show ?thesis
    using l(2) TrimSpace_trimmed [OF l(1)] TrimSpace_trimmed [OF k(2)]
      TrimSpace_trimmed [OF key_trimmed [OF k(1)]] key_lower [OF k(1)]
    by (simp add: apply_line_def)
qed

lemma config_loop_settings:
  "\<forall>kv \<in> set kvs. setting_ok kv \<Longrightarrow> config_loop L (map show_setting kvs) c = apply_settings L kvs c"
proof (induction kvs arbitrary: c)
  case (Cons kv kvs)
  obtain k v where kv: "kv = (k, v)"
    by fastforce
  have "length (show_setting kv) < 65536"
    using Cons.prems by (simp add: setting_ok_def show_setting_def)
  then show ?case
    using Cons apply_show_setting [of k v L c] by (auto simp: kv split: prod.split option.split)
qed simp

lemma scan_lines_unlines:
  "\<forall>l \<in> set ls. LF \<notin> set l \<Longrightarrow> scan_lines (concat (map (\<lambda>l. l @ [LF]) ls)) = ls"
proof -
  assume ls: "\<forall>l \<in> set ls. LF \<notin> set l"
  have "split_on LF (concat (map (\<lambda>l. l @ [LF]) ls)) = ls @ [[]]"
    using ls by (induction ls) (simp_all add: split_on_sep)
  then show ?thesis
    by (simp add: scan_lines_def)
qed

section \<open>Properties\<close>

text \<open>
  A configuration file of \<^verbatim>\<open>key=value\<close> lines does what its settings do one after the
  other: names and values reach the settings unchanged, later lines win, and loading stops with the
  error of the first setting that is refused.
\<close>
lemma load_config_applies_settings:
  assumes "\<forall>kv \<in> set kvs. setting_ok kv"
  shows "LoadConfigFile L (concat (map (\<lambda>kv. show_setting kv @ [LF]) kvs)) c = apply_settings L kvs c"
proof -
  have "\<forall>l \<in> set (map show_setting kvs). LF \<notin> set l"
    using assms show_setting_line(4) by auto
  from scan_lines_unlines [OF this] show ?thesis
    using config_loop_settings [OF assms] by (simp add: LoadConfigFile_def comp_def)
qed

definition demo_config :: config where
  "demo_config = \<lparr>Host = ''localhost'', Port = 6379, AOFPath = [], cfgFsync = FsyncEverySec, MaxMemory = 0,
     Eviction = EvictionNoEviction, AuthEnabled = False, Password = [], TLSCertPath = [], TLSKeyPath = [],
     AllowedCIDR = [], RDBPath = [], MaxClients = 0, MetricsPort = 0, ReplicaOf = [], ReplicaUseTLS = False,
     ReplicaPass = [], Slots = 0, StaticSlots = []\<rparr>"

text \<open>
  C37: A configuration that passes \<^verbatim>\<open>ValidateAndFill\<close> has a memory limit, slots, a password
  whenever authentication is on, and the two TLS paths both or not at all; validating it again
  changes nothing. It never has the policy \<^verbatim>\<open>no-eviction\<close>: the zero value of the policy is
  replaced by \<^verbatim>\<open>allkeys-random\<close> even when it was asked for by name.
\<close>
theorem validated_config:
  assumes "ValidateAndFill c = (None, c')"
  shows "MaxMemory c' \<noteq> 0 \<and> Slots c' \<noteq> 0 \<and> (AuthEnabled c' \<longrightarrow> Password c' \<noteq> []) \<and>
         (TLSCertPath c' = [] \<longleftrightarrow> TLSKeyPath c' = []) \<and> ValidateAndFill c' = (None, c') \<and>
         Eviction c' = (if Eviction c = EvictionNoEviction then EvictionAllKeysRandom else Eviction c) \<and>
         Eviction c' \<noteq> EvictionNoEviction"
proof -
  have c': "c' = fill_defaults c" "\<not> (AuthEnabled c' \<and> Password c' = [])" "(TLSCertPath c' = []) = (TLSKeyPath c' = [])"
    using assms by (auto simp: ValidateAndFill_def Let_def split: if_splits)
  moreover have "fill_defaults c' = c'" "MaxMemory c' \<noteq> 0" "Slots c' \<noteq> 0"
      "Eviction c' = (if Eviction c = EvictionNoEviction then EvictionAllKeysRandom else Eviction c)"
    by (simp_all add: c'(1) fill_defaults_def Let_def)
  ultimately show ?thesis
    by (auto simp: ValidateAndFill_def Let_def)
qed

theorem validated_config_witness:
  "Eviction (snd (ValidateAndFill demo_config)) = EvictionAllKeysRandom"
proof -
  have "ValidateAndFill demo_config = (None, fill_defaults demo_config)"
    by (simp add: ValidateAndFill_def fill_defaults_def demo_config_def)
  moreover from validated_config [OF this]
  have "Eviction (fill_defaults demo_config)
      = (if Eviction demo_config = EvictionNoEviction then EvictionAllKeysRandom else Eviction demo_config)"
    by blast
  ultimately show ?thesis
    by (simp add: demo_config_def)
qed

end
