(* ===== verification/Fas_PubSub.thy ===== *)
theory Fas_PubSub
  imports Fas_Go
begin

text \<open>
  Publish/subscribe (\<^verbatim>\<open>pkg/pubsub/pubsub.go\<close>). Go channels are cells of a store and a
  channel value is the index of its cell, so that two subscriptions never share a buffer
  and a channel can be closed while its name is no longer known. The operations are
  modelled as the code has them; \<^verbatim>\<open>Unsubscribe\<close> is split where the code releases the
  lock, because it closes the channel after that point.

  Concurrency is a step relation: any number of \<^verbatim>\<open>Publish\<close> calls hold the read lock and
  send one message at a time, subscribers receive at any moment, the write lock is taken
  only when no reader holds it, and a channel removed by \<^verbatim>\<open>Unsubscribe\<close> is closed at some
  later step.
\<close>

section \<open>State and operations\<close>

record chan =
  buf :: "string list"
  closed :: bool

record pubsub =
  channels :: "nat list gomap"
  chans :: "chan list"

definition chan_cap :: nat where "chan_cap = 100"

definition New_pubsub :: pubsub where
  "New_pubsub = \<lparr>channels = [], chans = []\<rparr>"

definition subscribers :: "pubsub \<Rightarrow> string \<Rightarrow> nat list" where
  "subscribers ps name = (case map_of (channels ps) name of None \<Rightarrow> [] | Some subs \<Rightarrow> subs)"

definition Subscribe :: "pubsub \<Rightarrow> string \<Rightarrow> pubsub \<times> nat" where
  "Subscribe ps name =
     (let ch = length (chans ps) in
      (ps\<lparr>channels := AList.update name (subscribers ps name @ [ch]) (channels ps),
          chans := chans ps @ [\<lparr>buf = [], closed = False\<rparr>]\<rparr>, ch))"

text \<open>The part of \<^verbatim>\<open>Unsubscribe\<close> under the lock; it returns \<^verbatim>\<open>channelToClose\<close>.\<close>

definition Unsubscribe_locked :: "pubsub \<Rightarrow> string \<Rightarrow> nat \<Rightarrow> pubsub \<times> nat option" where
  "Unsubscribe_locked ps name ch =
     (case map_of (channels ps) name of
        None \<Rightarrow> (ps, None)
      | Some subs \<Rightarrow>
          let found = ch \<in> set subs;
              ps1 = (if found then ps\<lparr>channels := AList.update name (remove1 ch subs) (channels ps)\<rparr> else ps);
              ps2 = (if subscribers ps1 name = [] then ps1\<lparr>channels := AList.delete name (channels ps1)\<rparr> else ps1)
          in (ps2, if found then Some ch else None))"

definition close_chan :: "pubsub \<Rightarrow> nat \<Rightarrow> pubsub outcome" where
  "close_chan ps ch =
     (if closed (chans ps ! ch) then Panic ''close of closed channel''
      else Ret (ps\<lparr>chans := (chans ps)[ch := (chans ps ! ch)\<lparr>closed := True\<rparr>]\<rparr>))"

definition Unsubscribe :: "pubsub \<Rightarrow> string \<Rightarrow> nat \<Rightarrow> pubsub outcome" where
  "Unsubscribe ps name ch =
     (case Unsubscribe_locked ps name ch of
        (ps', None) \<Rightarrow> Ret ps'
      | (ps', Some c) \<Rightarrow> close_chan ps' c)"

text \<open>One \<^verbatim>\<open>select\<close> of the loop of \<^verbatim>\<open>Publish\<close>; the flag says whether the send was possible.\<close>

definition try_send :: "pubsub \<Rightarrow> nat \<Rightarrow> string \<Rightarrow> (pubsub \<times> bool) outcome" where
  "try_send ps ch m =
     (let c = chans ps ! ch in
      if closed c then Panic ''send on closed channel''
      else if length (buf c) < chan_cap
        then Ret (ps\<lparr>chans := (chans ps)[ch := c\<lparr>buf := buf c @ [m]\<rparr>]\<rparr>, True)
      else Ret (ps, False))"

fun publish_loop :: "pubsub \<Rightarrow> nat list \<Rightarrow> string \<Rightarrow> nat \<Rightarrow> (pubsub \<times> nat) outcome" where
  "publish_loop ps [] m count = Ret (ps, count)"
| "publish_loop ps (ch # chs) m count =
     (case try_send ps ch m of
        Panic e \<Rightarrow> Panic e
      | Ret (ps', sent) \<Rightarrow> publish_loop ps' chs m (if sent then count + 1 else count))"

definition Publish :: "pubsub \<Rightarrow> string \<Rightarrow> string \<Rightarrow> (pubsub \<times> nat) outcome" where
  "Publish ps name m = publish_loop ps (subscribers ps name) m 0"

text \<open>A receive from a channel: \<open>None\<close> when it would block, \<open>Some None\<close> when it is closed and drained.\<close>

definition receive :: "pubsub \<Rightarrow> nat \<Rightarrow> (pubsub \<times> string option) option" where
  "receive ps ch =
     (case buf (chans ps ! ch) of
        m # ms \<Rightarrow> Some (ps\<lparr>chans := (chans ps)[ch := (chans ps ! ch)\<lparr>buf := ms\<rparr>]\<rparr>, Some m)
      | [] \<Rightarrow> if closed (chans ps ! ch) then Some (ps, None) else None)"

section \<open>The invariant\<close>

declare map_of_eq_Some_iff [simp del] Some_eq_map_of_iff [simp del]

definition listed :: "pubsub \<Rightarrow> nat set" where
  "listed ps = {ch. \<exists>name. ch \<in> set (subscribers ps name)}"

definition ps_inv :: "pubsub \<Rightarrow> bool" where
  "ps_inv ps \<longleftrightarrow>
     distinct (map fst (channels ps)) \<and>
     (\<forall>name. map_of (channels ps) name \<noteq> Some []) \<and>
     (\<forall>name. distinct (subscribers ps name)) \<and>
     (\<forall>n1 n2. n1 \<noteq> n2 \<longrightarrow> set (subscribers ps n1) \<inter> set (subscribers ps n2) = {}) \<and>
     (\<forall>ch \<in> listed ps. ch < length (chans ps) \<and> \<not> closed (chans ps ! ch)) \<and>
     (\<forall>c \<in> set (chans ps). length (buf c) \<le> chan_cap)"

lemma listedI: "ch \<in> set (subscribers ps name) \<Longrightarrow> ch \<in> listed ps"
  by (auto simp: listed_def)

lemma subscribers_update [simp]:
  "subscribers (ps\<lparr>channels := AList.update name subs (channels ps)\<rparr>) =
     (subscribers ps)(name := subs)"
  "subscribers (ps\<lparr>channels := AList.delete name (channels ps)\<rparr>) =
     (subscribers ps)(name := [])"
  "subscribers (ps\<lparr>chans := cs\<rparr>) = subscribers ps"
  by (auto simp: subscribers_def fun_eq_iff)

lemma listed_chans [simp]: "listed (ps\<lparr>chans := cs\<rparr>) = listed ps"
  by (simp add: listed_def)

lemma new_inv [inv_keep]: "ps_inv New_pubsub"
  by (simp add: ps_inv_def New_pubsub_def subscribers_def listed_def)

lemma Subscribe_facts:
  assumes "Subscribe ps name = (ps', ch)"
  shows "subscribers ps' = (subscribers ps)(name := subscribers ps name @ [ch])"
    "ch = length (chans ps)" "chans ps' = chans ps @ [\<lparr>buf = [], closed = False\<rparr>]"
  using assms by (auto simp: Subscribe_def Let_def subscribers_def fun_eq_iff)

lemma Unsubscribe_facts:
  assumes "Unsubscribe_locked ps name ch = (ps', r)"
  shows "subscribers ps' = (subscribers ps)(name := remove1 ch (subscribers ps name))"
    "r = (if ch \<in> set (subscribers ps name) then Some ch else None)" "chans ps' = chans ps"
proof -
  have "remove1 ch (subscribers ps name) = subscribers ps name" if "ch \<notin> set (subscribers ps name)"
    using that by (rule remove1_idem)
  then show "subscribers ps' = (subscribers ps)(name := remove1 ch (subscribers ps name))"
    using assms by (auto simp: Unsubscribe_locked_def Let_def subscribers_def fun_eq_iff split: option.splits if_splits)
qed (use assms in \<open>auto simp: Unsubscribe_locked_def Let_def subscribers_def split: option.splits if_splits\<close>)

lemma Subscribe_inv [inv_keep]:
  assumes "ps_inv ps" "Subscribe ps name = (ps', ch)"
  shows "ps_inv ps'"
proof -
  note f = Subscribe_facts [OF assms(2)]
  have listed: "listed ps' = insert ch (listed ps)"
    by (auto simp: listed_def f(1) split: if_splits)
  have fresh: "ch \<notin> set (subscribers ps n)" for n
    using assms(1) f(2) by (fastforce simp: ps_inv_def dest: listedI)
  have "distinct (map fst (channels ps'))" "map_of (channels ps') n \<noteq> Some []" for n
    using assms by (auto simp: ps_inv_def Subscribe_def Let_def split: if_splits)
  moreover have "x \<in> listed ps \<Longrightarrow> x < length (chans ps) \<and> \<not> closed (chans ps ! x)" for x
    using assms(1) by (simp add: ps_inv_def)
  ultimately show ?thesis
    using assms(1) fresh unfolding ps_inv_def listed f(1) f(3)
    by (auto simp: f(2) nth_append chan_cap_def)
qed

lemma Unsubscribe_locked_inv [inv_keep]:
  assumes "ps_inv ps" "Unsubscribe_locked ps name ch = (ps', r)"
  shows "ps_inv ps' \<and> listed ps' \<subseteq> listed ps \<and> (r = Some ch \<longrightarrow> ch \<in> listed ps \<and> ch \<notin> listed ps')"
proof -
  note f = Unsubscribe_facts [OF assms(2)]
  note i = assms(1) [unfolded ps_inv_def]
  have keys: "distinct (map fst (channels ps'))" "\<And>n. map_of (channels ps') n \<noteq> Some []"
    using i assms(2) by (auto simp: Unsubscribe_locked_def Let_def subscribers_def split: option.splits if_splits)
  have sub: "set (subscribers ps' n) \<subseteq> set (subscribers ps n)" for n
    using set_remove1_subset [of ch "subscribers ps name"] by (cases "n = name") (auto simp: f(1))
  then have listed: "x \<in> listed ps' \<Longrightarrow> x \<in> listed ps" for x
    by (auto simp: listed_def)
  have "ps_inv ps'"
    unfolding ps_inv_def f(3)
  proof (intro conjI allI impI ballI)
    show "distinct (subscribers ps' n)" for n
      using i by (simp add: f(1))
    show "set (subscribers ps' n1) \<inter> set (subscribers ps' n2) = {}" if "n1 \<noteq> n2" for n1 n2
      using i sub [of n1] sub [of n2] that by blast
  qed (use i keys listed in auto)
  moreover have "ch \<in> listed ps \<and> ch \<notin> listed ps'" if "r = Some ch"
  proof -
    have in_n: "ch \<in> set (subscribers ps name)"
      using that f(2) by (simp split: if_splits)
    have "ch \<notin> set (subscribers ps' n)" for n
    proof (cases "n = name")
      case False
      then have "set (subscribers ps n) \<inter> set (subscribers ps name) = {}"
        using i by blast
      then show ?thesis
        using in_n False by (auto simp: f(1))
    qed (use i in \<open>simp add: f(1)\<close>)
    then show ?thesis
      using in_n by (auto simp: listed_def)
  qed
  ultimately show ?thesis
    using listed by blast
qed

lemma chans_update_inv:
  assumes "ps_inv ps" "length (buf c) \<le> chan_cap" "ch \<in> listed ps \<Longrightarrow> \<not> closed c"
  shows "ps_inv (ps\<lparr>chans := (chans ps)[ch := c]\<rparr>)"
proof -
  have "\<forall>d \<in> set ((chans ps)[ch := c]). length (buf d) \<le> chan_cap"
    using assms set_update_subset_insert [of "chans ps" ch c] by (fastforce simp: ps_inv_def)
  moreover have "\<not> closed ((chans ps)[ch := c] ! x)" if "x \<in> listed ps" for x
    using assms that by (cases "x = ch") (auto simp: ps_inv_def)
  ultimately show ?thesis
    using assms(1) by (simp add: ps_inv_def)
qed

lemma buf_cap: "ps_inv ps \<Longrightarrow> ch < length (chans ps) \<Longrightarrow> length (buf (chans ps ! ch)) \<le> chan_cap"
  by (simp add: ps_inv_def)

lemma listed_open: "ps_inv ps \<Longrightarrow> ch \<in> listed ps \<Longrightarrow> ch < length (chans ps) \<and> \<not> closed (chans ps ! ch)"
  by (simp add: ps_inv_def)

lemma try_send_inv [inv_keep]:
  assumes "ps_inv ps" "try_send ps ch m = Ret (ps', sent)"
  shows "ps_inv ps'"
  using assms by (auto simp: try_send_def Let_def split: if_splits intro!: chans_update_inv)

lemma try_send_frame [frame]:
  assumes "try_send ps ch m = Ret (ps', sent)"
  shows "subscribers ps' = subscribers ps" "listed ps' = listed ps"
    "length (chans ps') = length (chans ps)"
    "map closed (chans ps') = map closed (chans ps)"
proof -
  have "map closed ((chans ps)[ch := c]) = map closed (chans ps)" if "\<not> closed c" "\<not> closed (chans ps ! ch)" for c
    using that by (cases "ch < length (chans ps)") (auto simp: map_update list_update_same_conv list_update_beyond)
  then show "map closed (chans ps') = map closed (chans ps)"
    using assms by (auto simp: try_send_def Let_def split: if_splits)
qed (use assms in \<open>auto simp: try_send_def Let_def split: if_splits\<close>)

lemma close_inv [inv_keep]:
  assumes "ps_inv ps" "ch \<notin> listed ps" "ch < length (chans ps)" "close_chan ps ch = Ret ps'"
  shows "ps_inv ps'"
  using assms buf_cap [of ps ch] by (auto simp: close_chan_def split: if_splits intro!: chans_update_inv)

lemma receive_inv [inv_keep]:
  assumes "ps_inv ps" "ch < length (chans ps)" "receive ps ch = Some (ps', r)"
  shows "ps_inv ps'"
proof -
  have "length (buf (chans ps ! ch)) \<le> chan_cap" "ch \<in> listed ps \<Longrightarrow> \<not> closed (chans ps ! ch)"
    using assms buf_cap listed_open by auto
  then show ?thesis
    using assms by (auto simp: receive_def split: list.splits if_splits intro!: chans_update_inv)
qed

section \<open>Publishing\<close>

definition room :: "pubsub \<Rightarrow> nat \<Rightarrow> bool" where
  "room ps ch \<longleftrightarrow> length (buf (chans ps ! ch)) < chan_cap"

definition deliver :: "pubsub \<Rightarrow> nat list \<Rightarrow> string \<Rightarrow> nat \<Rightarrow> string list" where
  "deliver ps chs m i =
     (if i \<in> set chs \<and> room ps i then buf (chans ps ! i) @ [m] else buf (chans ps ! i))"

lemma try_send_listed:
  assumes "ps_inv ps" "ch \<in> listed ps"
  shows "\<exists>ps'. try_send ps ch m = Ret (ps', room ps ch) \<and>
           (\<forall>i < length (chans ps). buf (chans ps' ! i) = deliver ps [ch] m i)"
  using listed_open [OF assms] by (auto simp: try_send_def Let_def room_def deliver_def nth_list_update)

lemma publish_loop_spec:
  assumes "ps_inv ps" "set chs \<subseteq> listed ps" "distinct chs"
  shows "\<exists>ps'. publish_loop ps chs m n = Ret (ps', n + length (filter (room ps) chs)) \<and>
           ps_inv ps' \<and> subscribers ps' = subscribers ps \<and> length (chans ps') = length (chans ps) \<and>
           (\<forall>i < length (chans ps). buf (chans ps' ! i) = deliver ps chs m i)"
  using assms
proof (induction chs arbitrary: ps n)
  case Nil
  then show ?case
    by (simp add: deliver_def)
next
  case (Cons ch chs)
  obtain p where p: "try_send ps ch m = Ret (p, room ps ch)"
      "\<forall>i < length (chans ps). buf (chans p ! i) = deliver ps [ch] m i"
    using try_send_listed [OF Cons.prems(1)] Cons.prems(2) by fastforce
  note fr = try_send_frame [OF p(1)]
  have room: "room p i = room ps i" if "i \<in> set chs" for i
  proof -
    have "i < length (chans ps)" "i \<noteq> ch"
      using that Cons.prems listed_open [OF Cons.prems(1), of i] by auto
    then show ?thesis
      using p(2) by (simp add: room_def deliver_def)
  qed
  then have "filter (room p) chs = filter (room ps) chs"
    by (intro filter_cong) auto
  moreover have "i < length (chans ps) \<Longrightarrow> deliver p chs m i = deliver ps (ch # chs) m i" for i
    using p(2) room [of i] Cons.prems(3) by (auto simp: deliver_def)
  ultimately show ?case
    using Cons.IH [of p "if room ps ch then n + 1 else n"] Cons.prems fr p(1) try_send_inv [OF Cons.prems(1) p(1)]
    by auto
qed

lemma Publish_spec:
  assumes "ps_inv ps"
  shows "\<exists>ps'. Publish ps name m = Ret (ps', length (filter (room ps) (subscribers ps name))) \<and>
           ps_inv ps' \<and> subscribers ps' = subscribers ps \<and> length (chans ps') = length (chans ps) \<and>
           (\<forall>i < length (chans ps). buf (chans ps' ! i) = deliver ps (subscribers ps name) m i)"
proof -
  have "set (subscribers ps name) \<subseteq> listed ps" "distinct (subscribers ps name)"
    using assms by (auto simp: ps_inv_def intro: listedI)
  then show ?thesis
    using publish_loop_spec [OF assms, of "subscribers ps name" m 0] by (simp add: Publish_def)
qed

fun publish_all :: "pubsub \<Rightarrow> string \<Rightarrow> string list \<Rightarrow> pubsub outcome" where
  "publish_all ps name [] = Ret ps"
| "publish_all ps name (m # ms) =
     (case Publish ps name m of Panic e \<Rightarrow> Panic e | Ret (ps', _) \<Rightarrow> publish_all ps' name ms)"

lemma Unsubscribe_spec:
  assumes "ps_inv ps" "ch \<in> set (subscribers ps name)"
  shows "\<exists>ps'. Unsubscribe ps name ch = Ret ps' \<and> ps_inv ps' \<and>
           subscribers ps' = (subscribers ps)(name := remove1 ch (subscribers ps name)) \<and>
           closed (chans ps' ! ch) \<and> buf (chans ps' ! ch) = buf (chans ps ! ch) \<and>
           (\<forall>i. i \<noteq> ch \<longrightarrow> chans ps' ! i = chans ps ! i) \<and>
           Unsubscribe ps' name ch = Ret ps'"
proof -
  obtain p r where u: "Unsubscribe_locked ps name ch = (p, r)"
    by fastforce
  note f = Unsubscribe_facts [OF u]
  note open_ch = listed_open [OF assms(1) listedI [OF assms(2)]]
  have r: "r = Some ch"
    using f(2) assms(2) by simp
  then have p: "ps_inv p" "ch \<notin> listed p"
    using Unsubscribe_locked_inv [OF assms(1) u] by auto
  define p' where "p' = p\<lparr>chans := (chans p)[ch := (chans p ! ch)\<lparr>closed := True\<rparr>]\<rparr>"
  have c: "close_chan p ch = Ret p'"
    using open_ch f(3) by (simp add: close_chan_def p'_def)
  have inv: "ps_inv p'"
    using close_inv [OF p _ c] open_ch f(3) by simp
  have out: "ch \<notin> set (subscribers p' name)"
    using p(2) listedI [of ch p name] by (auto simp: p'_def)
  then have "Unsubscribe_locked p' name ch = (p', None)"
    using inv by (auto simp: Unsubscribe_locked_def Let_def subscribers_def ps_inv_def split: option.splits)
  moreover have "Unsubscribe ps name ch = Ret p'"
    using u r c by (simp add: Unsubscribe_def)
  ultimately show ?thesis
    using inv f open_ch by (intro exI [of _ p']) (auto simp: p'_def Unsubscribe_def)
qed

section \<open>Concurrent use\<close>

record sys =
  psOf :: pubsub
  readers :: "(nat list \<times> string \<times> nat) list"
  closing :: "nat list"

definition sys_init :: sys where
  "sys_init = \<lparr>psOf = New_pubsub, readers = [], closing = []\<rparr>"

definition add_closing :: "nat option \<Rightarrow> nat list \<Rightarrow> nat list" where
  "add_closing r cs = (case r of None \<Rightarrow> cs | Some c \<Rightarrow> c # cs)"

inductive ps_step :: "sys \<Rightarrow> sys outcome \<Rightarrow> bool" where
  subscribe: "readers s = [] \<Longrightarrow> Subscribe (psOf s) name = (p, ch) \<Longrightarrow> ps_step s (Ret (s\<lparr>psOf := p\<rparr>))"
| unsubscribe: "readers s = [] \<Longrightarrow> Unsubscribe_locked (psOf s) name ch = (p, r) \<Longrightarrow>
    ps_step s (Ret (s\<lparr>psOf := p, closing := add_closing r (closing s)\<rparr>))"
| close: "ch \<in> set (closing s) \<Longrightarrow> close_chan (psOf s) ch = Ret p \<Longrightarrow>
    ps_step s (Ret (s\<lparr>psOf := p, closing := remove1 ch (closing s)\<rparr>))"
| close_panic: "ch \<in> set (closing s) \<Longrightarrow> close_chan (psOf s) ch = Panic e \<Longrightarrow> ps_step s (Panic e)"
| publish: "ps_step s (Ret (s\<lparr>readers := (subscribers (psOf s) name, m, 0) # readers s\<rparr>))"
| send: "i < length (readers s) \<Longrightarrow> readers s ! i = (ch # chs, m, n) \<Longrightarrow>
    try_send (psOf s) ch m = Ret (p, sent) \<Longrightarrow>
    ps_step s (Ret (s\<lparr>psOf := p, readers := (readers s)[i := (chs, m, if sent then n + 1 else n)]\<rparr>))"
| send_panic: "i < length (readers s) \<Longrightarrow> readers s ! i = (ch # chs, m, n) \<Longrightarrow>
    try_send (psOf s) ch m = Panic e \<Longrightarrow> ps_step s (Panic e)"
| published: "i < length (readers s) \<Longrightarrow> readers s ! i = ([], m, n) \<Longrightarrow>
    ps_step s (Ret (s\<lparr>readers := take i (readers s) @ drop (Suc i) (readers s)\<rparr>))"
| recv: "ch < length (chans (psOf s)) \<Longrightarrow> receive (psOf s) ch = Some (p, r) \<Longrightarrow>
    ps_step s (Ret (s\<lparr>psOf := p\<rparr>))"

inductive ps_reach :: "sys \<Rightarrow> bool" where
  init: "ps_reach sys_init"
| step: "ps_reach s \<Longrightarrow> ps_step s (Ret s') \<Longrightarrow> ps_reach s'"

inductive_cases ps_step_RetE: "ps_step s (Ret s')"

definition sys_inv :: "sys \<Rightarrow> bool" where
  "sys_inv s \<longleftrightarrow>
     ps_inv (psOf s) \<and>
     (\<forall>(chs, m, n) \<in> set (readers s). set chs \<subseteq> listed (psOf s)) \<and>
     distinct (closing s) \<and>
     (\<forall>ch \<in> set (closing s). ch \<notin> listed (psOf s) \<and> ch < length (chans (psOf s)) \<and>
        \<not> closed (chans (psOf s) ! ch))"

lemma subscribe_keeps:
  assumes "sys_inv s" "readers s = []" "Subscribe (psOf s) name = (p, ch)"
  shows "sys_inv (s\<lparr>psOf := p\<rparr>)"
proof -
  note f = Subscribe_facts [OF assms(3)]
  have "listed p = insert ch (listed (psOf s))"
    by (auto simp: listed_def f(1) split: if_splits)
  then show ?thesis
    using assms(1,2) Subscribe_inv [OF _ assms(3)] by (auto simp: sys_inv_def f(2,3) nth_append)
qed

lemma unsubscribe_keeps:
  assumes "sys_inv s" "readers s = []" "Unsubscribe_locked (psOf s) name ch = (p, r)"
  shows "sys_inv (s\<lparr>psOf := p, closing := add_closing r (closing s)\<rparr>)"
proof -
  note f = Unsubscribe_facts [OF assms(3)]
  have "ps_inv (psOf s)"
    using assms(1) by (simp add: sys_inv_def)
  from Unsubscribe_locked_inv [OF this assms(3)] listed_open [OF this]
  show ?thesis
    using assms(1,2) f(2,3) by (auto simp: sys_inv_def add_closing_def split: if_splits)
qed

lemma close_keeps:
  assumes "sys_inv s" "ch \<in> set (closing s)" "close_chan (psOf s) ch = Ret p"
  shows "sys_inv (s\<lparr>psOf := p, closing := remove1 ch (closing s)\<rparr>)"
proof -
  have p: "p = (psOf s)\<lparr>chans := (chans (psOf s))[ch := (chans (psOf s) ! ch)\<lparr>closed := True\<rparr>]\<rparr>"
    using assms(3) by (simp add: close_chan_def split: if_splits)
  have "ps_inv p"
    using assms close_inv by (auto simp: sys_inv_def)
  then show ?thesis
    using assms(1) by (auto simp: sys_inv_def p)
qed

lemma send_keeps:
  assumes "sys_inv s" "i < length (readers s)" "readers s ! i = (ch # chs, m, n)"
    "try_send (psOf s) ch m = Ret (p, sent)"
  shows "sys_inv (s\<lparr>psOf := p, readers := (readers s)[i := (chs, m, k)]\<rparr>)"
proof -
  note f = try_send_frame [OF assms(4)]
  have "(ch # chs, m, n) \<in> set (readers s)"
    using assms(2,3) by (metis nth_mem)
  then have "set chs \<subseteq> listed (psOf s)"
    using assms(1) by (fastforce simp: sys_inv_def)
  then have "\<forall>(chs, m, n) \<in> set ((readers s)[i := (chs, m, k)]). set chs \<subseteq> listed p"
    using assms(1) set_update_subset_insert [of "readers s" i "(chs, m, k)"] by (fastforce simp: sys_inv_def f(2))
  moreover have "closed (chans p ! j) = closed (chans (psOf s) ! j)" if "j < length (chans p)" for j
    using f(3,4) that by (metis nth_map)
  ultimately show ?thesis
    using assms(1) try_send_inv [OF _ assms(4)] f by (auto simp: sys_inv_def)
qed

lemma recv_keeps:
  assumes "sys_inv s" "ch < length (chans (psOf s))" "receive (psOf s) ch = Some (p, r)"
  shows "sys_inv (s\<lparr>psOf := p\<rparr>)"
proof -
  have "ps_inv p"
    using assms(1) receive_inv [OF _ assms(2,3)] by (simp add: sys_inv_def)
  moreover have "listed p = listed (psOf s)" "length (chans p) = length (chans (psOf s))"
      "\<And>j. closed (chans p ! j) = closed (chans (psOf s) ! j)"
    using assms(2,3) by (auto simp: receive_def nth_list_update split: list.splits if_splits)
  ultimately show ?thesis
    using assms(1) by (simp add: sys_inv_def)
qed

lemma publish_keeps: "sys_inv s \<Longrightarrow> sys_inv (s\<lparr>readers := (subscribers (psOf s) name, m, 0) # readers s\<rparr>)"
  by (auto simp: sys_inv_def intro: listedI)

lemma published_keeps: "sys_inv s \<Longrightarrow> sys_inv (s\<lparr>readers := take i (readers s) @ drop (Suc i) (readers s)\<rparr>)"
  by (fastforce simp: sys_inv_def dest: in_set_takeD in_set_dropD)

lemmas ps_step_keeps =
  subscribe_keeps unsubscribe_keeps close_keeps send_keeps recv_keeps publish_keeps published_keeps

lemma ps_step_inv: "ps_step s (Ret s') \<Longrightarrow> sys_inv s \<Longrightarrow> sys_inv s'"
  by (erule ps_step_RetE) (auto intro: ps_step_keeps)

lemma ps_reach_sys_inv: "ps_reach s \<Longrightarrow> sys_inv s"
proof (induction rule: ps_reach.induct)
  case init
  show ?case
    using new_inv by (simp add: sys_inv_def sys_init_def)
qed (blast intro: ps_step_inv)

text \<open>What is left to do for the publishers that hold the read lock and for pending closes.\<close>

definition work :: "sys \<Rightarrow> nat" where
  "work s = sum_list (map (\<lambda>(chs, m, n). length chs + 1) (readers s)) + length (closing s)"

text \<open>What the next step of a publisher makes of the list of publishers.\<close>

definition next_readers :: "sys \<Rightarrow> nat \<Rightarrow> (nat list \<times> string \<times> nat) list" where
  "next_readers s i =
     (case readers s ! i of
        ([], m, n) \<Rightarrow> take i (readers s) @ drop (Suc i) (readers s)
      | (ch # chs, m, n) \<Rightarrow> (readers s)[i := (chs, m, if room (psOf s) ch then n + 1 else n)])"

lemma reader_progress:
  assumes "sys_inv s" "i < length (readers s)"
  shows "\<exists>t. ps_step s (Ret t) \<and> readers t = next_readers s i \<and> closing t = closing s"
proof -
  obtain chs m n where rd: "readers s ! i = (chs, m, n)"
    by (cases "readers s ! i")
  show ?thesis
  proof (cases chs)
    case Nil
    then show ?thesis
      using ps_step.published [OF assms(2), of m n] rd by (force simp: next_readers_def)
  next
    case (Cons ch rest)
    have "(chs, m, n) \<in> set (readers s)"
      using rd assms(2) by (metis nth_mem)
    then have "ch \<in> listed (psOf s)" "ps_inv (psOf s)"
      using assms(1) Cons by (auto simp: sys_inv_def)
    then obtain p where "try_send (psOf s) ch m = Ret (p, room (psOf s) ch)"
      using try_send_listed by blast
    from ps_step.send [OF assms(2) _ this, of rest n] show ?thesis
      using rd Cons by (force simp: next_readers_def)
  qed
qed

lemma work_progress:
  assumes "sys_inv s" "readers s \<noteq> [] \<or> closing s \<noteq> []"
  shows "\<exists>t. ps_step s (Ret t) \<and> work t < work s"
proof (cases "readers s")
  case Nil
  then obtain ch chs where ch: "closing s = ch # chs"
    using assms(2) by (cases "closing s") auto
  have "ps_step s (Ret (s\<lparr>psOf := (psOf s)\<lparr>chans := (chans (psOf s))[ch := (chans (psOf s) ! ch)\<lparr>closed := True\<rparr>]\<rparr>,
      closing := remove1 ch (closing s)\<rparr>))"
    using assms(1) ch by (intro ps_step.close) (auto simp: close_chan_def sys_inv_def)
  then show ?thesis
    using ch Nil by (force simp: work_def)
next
  case (Cons rd rds)
  obtain t where t: "ps_step s (Ret t)" "readers t = next_readers s 0" "closing t = closing s"
    using reader_progress [OF assms(1), of 0] Cons by auto
  then have "work t < work s"
    using Cons by (auto simp: work_def next_readers_def split: prod.split list.split)
  then show ?thesis
    using t(1) by blast
qed

text \<open>
  A step that does some of this work: a send, the end of a publication or a close. A receive, a new
  subscription, its cancellation or a new publication do none.
\<close>

definition working_step :: "sys \<Rightarrow> sys \<Rightarrow> bool" where
  "working_step s t \<longleftrightarrow> ps_step s (Ret t) \<and> work t < work s"

lemma work_finishes: "sys_inv s \<Longrightarrow> \<exists>t. working_step\<^sup>*\<^sup>* s t \<and> readers t = [] \<and> closing t = []"
proof (induction "work s" arbitrary: s rule: less_induct)
  case less
  show ?case
  proof (cases "readers s \<noteq> [] \<or> closing s \<noteq> []")
    case True
    then obtain u where u: "ps_step s (Ret u)" "work u < work s"
      using work_progress [OF less.prems] by blast
    then obtain t where "working_step\<^sup>*\<^sup>* u t" "readers t = []" "closing t = []"
      using less.hyps ps_step_inv less.prems by blast
    then show ?thesis
      using u by (blast intro: converse_rtranclp_into_rtranclp working_step_def [THEN iffD2])
  qed auto
qed

section \<open>Properties\<close>

definition one_sub :: pubsub where
  "one_sub = fst (Subscribe New_pubsub ''news'')"

lemma one_sub_unfold:
  "one_sub = \<lparr>channels = [(''news'', [0])], chans = [\<lparr>buf = [], closed = False\<rparr>]\<rparr>"
  by (simp add: one_sub_def Subscribe_def New_pubsub_def subscribers_def Let_def)

lemma one_sub_inv: "ps_inv one_sub"
  unfolding one_sub_def by (metis Subscribe_inv new_inv prod.collapse)

lemma one_sub_reader: "ps_reach \<lparr>psOf = one_sub, readers = [([0], ''m'', 0)], closing = []\<rparr>"
proof -
  have "ps_reach (sys_init\<lparr>psOf := one_sub\<rparr>)"
    by (rule ps_reach.step [OF ps_reach.init ps_step.subscribe [where name = "''news''" and ch = 0]])
      (simp_all add: sys_init_def one_sub_def Subscribe_def New_pubsub_def)
  from ps_reach.step [OF this ps_step.publish [where name = "''news''" and m = "''m''"]]
  show ?thesis
    by (simp add: sys_init_def one_sub_unfold subscribers_def)
qed

text \<open>
  C17: In no interleaving of subscriptions, cancellations, concurrent publications, late closes
  and receives does the process panic: a publisher holding the read lock never sends on a
  closed channel, and no channel is closed twice.
\<close>
theorem pubsub_never_panics:
  assumes "ps_reach s"
  shows "\<not> ps_step s (Panic e)"
proof
  assume "ps_step s (Panic e)"
  then show False
  proof cases
    case (close_panic ch)
    then show False
      using ps_reach_sys_inv [OF assms] by (auto simp: sys_inv_def close_chan_def split: if_splits)
  next
    case (send_panic i ch chs m n)
    then have "(ch # chs, m, n) \<in> set (readers s)"
      by (metis nth_mem)
    then have "ps_inv (psOf s)" "ch \<in> listed (psOf s)"
      using ps_reach_sys_inv [OF assms] by (fastforce simp: sys_inv_def)+
    then show False
      using listed_open send_panic by (fastforce simp: try_send_def Let_def split: if_splits)
  qed
qed

theorem pubsub_never_panics_witness:
  "\<not> ps_step \<lparr>psOf = one_sub, readers = [([0], ''m'', 0)], closing = []\<rparr> (Panic ''send on closed channel'')"
  by (rule pubsub_never_panics [OF one_sub_reader])

text \<open>
  C24: Nobody waits forever. In every reachable state every publisher in progress can take its next step, whatever the
  other goroutines do and without any subscriber receiving: a send into a full buffer is skipped, and a publisher
  that has tried all its subscribers leaves. So the publishers that hold the read lock
  finish and the pending channels are closed by steps of their own, and the lock becomes free for
  \<^verbatim>\<open>Subscribe\<close> and \<^verbatim>\<open>Unsubscribe\<close>.
\<close>
theorem publishers_finish:
  assumes "ps_reach s"
  shows "(\<forall>i < length (readers s). \<exists>t. ps_step s (Ret t) \<and> readers t = next_readers s i) \<and>
         (\<exists>t. working_step\<^sup>*\<^sup>* s t \<and> readers t = [] \<and> closing t = [])"
  using work_finishes reader_progress ps_reach_sys_inv [OF assms] by blast

theorem publishers_finish_witness:
  "\<exists>t. working_step\<^sup>*\<^sup>* \<lparr>psOf = one_sub, readers = [([0], ''m'', 0)], closing = []\<rparr> t \<and> readers t = []"
  using publishers_finish [OF one_sub_reader] by blast

text \<open>
  \<^verbatim>\<open>Publish\<close> returns the number of subscribers of the channel whose buffer had room;
  exactly these get the message at the end of their buffer, no other buffer changes, and a
  slow subscriber with 100 pending messages only loses the message.
\<close>
lemma publish_counts_deliveries:
  assumes "ps_inv ps"
  shows "\<exists>ps'. Publish ps name m
             = Ret (ps', length (filter (\<lambda>ch. length (buf (chans ps ! ch)) < 100) (subscribers ps name))) \<and>
           ps_inv ps' \<and>
           (\<forall>i < length (chans ps). buf (chans ps' ! i) =
              (if i \<in> set (subscribers ps name) \<and> length (buf (chans ps ! i)) < 100
               then buf (chans ps ! i) @ [m] else buf (chans ps ! i)))"
  using Publish_spec [OF assms, of name m] unfolding room_def deliver_def chan_cap_def by blast

text \<open>
  Messages published one after the other reach a subscriber in the order of
  publication, none lost or duplicated, up to the capacity of its buffer of 100 messages.
\<close>
lemma publish_in_order:
  assumes "ps_inv ps" "ch \<in> set (subscribers ps name)"
  shows "\<exists>ps'. publish_all ps name ms = Ret ps' \<and>
           buf (chans ps' ! ch) = take 100 (buf (chans ps ! ch) @ ms)"
  using assms
proof (induction ms arbitrary: ps)
  case Nil
  then have "length (buf (chans ps ! ch)) \<le> 100"
    using buf_cap listed_open [OF Nil(1) listedI [OF Nil(2)]] by (fastforce simp: chan_cap_def)
  then show ?case
    by simp
next
  case (Cons m ms)
  obtain p n where p: "Publish ps name m = Ret (p, n)" "ps_inv p" "subscribers p = subscribers ps"
      "\<forall>i < length (chans ps). buf (chans p ! i) = deliver ps (subscribers ps name) m i"
    using Publish_spec [OF Cons.prems(1), of name m] by blast
  have ch: "ch < length (chans ps)"
    using listed_open [OF Cons.prems(1) listedI [OF Cons.prems(2)]] by simp
  then have "take 100 (buf (chans p ! ch) @ ms) = take 100 (buf (chans ps ! ch) @ m # ms)"
    using p(4) Cons.prems(2) buf_cap [OF Cons.prems(1) ch] by (auto simp: deliver_def room_def chan_cap_def take_Cons')
  moreover obtain p' where "publish_all p name ms = Ret p'"
      "buf (chans p' ! ch) = take 100 (buf (chans p ! ch) @ ms)"
    using Cons.IH [OF p(2)] Cons.prems(2) p(3) by auto
  ultimately show ?case
    using p(1) by simp
qed

end
