(* ===== verification/Fas_Store_Inv.thy ===== *)
theory Fas_Store_Inv
  imports Fas_Store
begin

text \<open>
  The invariant of the store and its preservation. It has three parts: the accounting of
  memory (\<open>data_ok\<close>), the agreement of the ring with the keys that have no time to live
  (\<open>ring_ok\<close>), and the agreement of the two heaps with the access statistics of the items
  (\<open>heaps_ok\<close>). The last two take a set of exempted keys, for the moment between popping
  a victim and deleting it.

  The empty key is outside the ring and the heaps: the code uses the empty string as the
  tombstone of the ring and as the "nothing found" answer of the pop operations.
\<close>

section \<open>The invariant\<close>

definition data_ok :: "store \<Rightarrow> bool" where
  "data_ok s \<longleftrightarrow> distinct (map fst (sdata s)) \<and> usedMemory s = msum iSize (sdata s) \<and>
     (\<forall>k it. map_of (sdata s) k = Some it \<longrightarrow> iSize it = estimateItemSize k (iValue it))"

definition persistent :: "store \<Rightarrow> string set" where
  "persistent s = {k. k \<noteq> [] \<and> (\<exists>it. map_of (sdata s) k = Some it \<and> iExpiresAt it = 0)}"

definition ring_ok :: "string set \<Rightarrow> store \<Rightarrow> bool" where
  "ring_ok X s \<longleftrightarrow> fifo_ok (ring s) \<and> distinct (live (ring s)) \<and> set (live (ring s)) = persistent s - X"

definition lru_entry :: "string \<Rightarrow> item \<Rightarrow> lruEntry" where
  "lru_entry k it = \<lparr>lru_key = k, lru_ts = iLastAccess it, lru_version = iAccessID it\<rparr>"

definition lfu_entry :: "string \<Rightarrow> item \<Rightarrow> lfuEntry" where
  "lfu_entry k it = \<lparr>lfu_key = k, lfu_freq = iFreq it, lfu_ts = iLastAccess it, lfu_version = iAccessID it\<rparr>"

text \<open>
  One heap agrees with the map: it is ordered, no version is from the future, an entry with
  the version of its item carries the statistics of the item, and every item has its entry.
\<close>

definition heap_agrees ::
  "('e \<Rightarrow> 'e \<Rightarrow> bool) \<Rightarrow> ('e \<Rightarrow> string) \<Rightarrow> ('e \<Rightarrow> int) \<Rightarrow> (string \<Rightarrow> item \<Rightarrow> 'e)
   \<Rightarrow> string set \<Rightarrow> int \<Rightarrow> item gomap \<Rightarrow> 'e list \<Rightarrow> bool"
where
  "heap_agrees le ekey ever entry X cnt d h \<longleftrightarrow> heap_order le h \<and>
     (\<forall>e \<in> set h. ever e \<le> cnt \<and>
        (\<forall>it. map_of d (ekey e) = Some it \<and> iAccessID it = ever e \<longrightarrow> e = entry (ekey e) it)) \<and>
     (\<forall>k it. map_of d k = Some it \<longrightarrow> iAccessID it \<le> cnt \<and> (k \<noteq> [] \<and> k \<notin> X \<longrightarrow> entry k it \<in> set h))"

definition heaps_ok :: "string set \<Rightarrow> string set \<Rightarrow> store \<Rightarrow> bool" where
  "heaps_ok X Y s \<longleftrightarrow>
     heap_agrees lru_le lru_key lru_version lru_entry X (accessCounter s) (sdata s) (lruHeap s) \<and>
     heap_agrees lfu_le lfu_key lfu_version lfu_entry Y (accessCounter s) (sdata s) (lfuHeap s)"

definition store_inv :: "store \<Rightarrow> bool" where
  "store_inv s \<longleftrightarrow> data_ok s \<and> ring_ok {} s \<and> heaps_ok {} {} s"

text \<open>What eviction and expiry may change: items disappear, nothing else in the map changes.\<close>

definition shrinks :: "store \<Rightarrow> store \<Rightarrow> bool" where
  "shrinks s s' \<longleftrightarrow> map_of (sdata s') \<subseteq>\<^sub>m map_of (sdata s) \<and> maxMemory s' = maxMemory s \<and>
     evictionPolicy s' = evictionPolicy s \<and> evictTTLWhenFull s' = evictTTLWhenFull s \<and>
     accessCounter s' = accessCounter s"

lemma shrinks_refl [simp]: "shrinks s s"
  by (simp add: shrinks_def)

lemma shrinks_trans: "shrinks s t \<Longrightarrow> shrinks t u \<Longrightarrow> shrinks s u"
  by (auto simp: shrinks_def intro: map_le_trans)

lemma shrinks_keys: "shrinks s t \<Longrightarrow> keys (sdata t) \<subseteq> keys (sdata s)"
  unfolding shrinks_def by (metis dom_map_of_conv_image_fst map_le_implies_dom_le)

lemma shrinks_lookup: "shrinks s t \<Longrightarrow> map_of (sdata t) k = Some it \<Longrightarrow> map_of (sdata s) k = Some it"
  unfolding shrinks_def map_le_def by (metis domI)

section \<open>New, delete\<close>

lemma store_inv_New [inv_keep]: "store_inv (New m p)"
  by (auto simp: store_inv_def data_ok_def ring_ok_def heaps_ok_def heap_agrees_def New_def
      persistent_def fifo_ok_new live_new)

lemma used_nonneg:
  assumes "data_ok s"
  shows "0 \<le> usedMemory s"
proof -
  have "0 \<le> iSize it" if "(k, it) \<in> set (sdata s)" for k it
  proof -
    have "map_of (sdata s) k = Some it"
      using assms that by (simp add: data_ok_def map_of_eq_Some_iff)
    with assms show ?thesis by (simp add: data_ok_def estimateItemSize_def)
  qed
  then have "0 \<le> msum iSize (sdata s)" by (rule msum_nonneg)
  with assms show ?thesis by (simp add: data_ok_def)
qed

lemma used_empty: "data_ok s \<Longrightarrow> sdata s = [] \<Longrightarrow> usedMemory s = 0"
  by (simp add: data_ok_def)

lemma delete_shrinks: "shrinks s (deleteKeyUnlocked k s)"
  by (auto simp: shrinks_def map_le_def)

lemma delete_data_ok [inv_keep]: "data_ok s \<Longrightarrow> data_ok (deleteKeyUnlocked k s)"
  by (auto simp: data_ok_def msum_delete deleteKeyUnlocked_def Let_def split: option.splits)

lemma delete_persistent: "persistent (deleteKeyUnlocked k s) = persistent s - {k}"
  by (auto simp: persistent_def)

lemma delete_ring_ok [inv_keep]:
  assumes "ring_ok X s" "X \<subseteq> {k}"
  shows "ring_ok {} (deleteKeyUnlocked k s)"
proof -
  have r: "fifo_ok (ring s)" "distinct (live (ring s))" "set (live (ring s)) = persistent s - X"
    using assms by (auto simp: ring_ok_def)
  have "ring (deleteKeyUnlocked k s) =
      (case map_of (sdata s) k of Some it \<Rightarrow> if iExpiresAt it = 0 then removeFIFOUnlocked k (ring s) else ring s
       | None \<Rightarrow> ring s)"
    by (auto simp: deleteKeyUnlocked_def Let_def split: option.splits)
  moreover have "case map_of (sdata s) k of Some it \<Rightarrow> iExpiresAt it = 0 \<or> k \<notin> persistent s
       | None \<Rightarrow> k \<notin> persistent s"
    by (auto simp: persistent_def split: option.splits)
  ultimately show ?thesis
    using r assms(2) fq.distinct_remove [OF r(1,2), of k] fq.ok_remove [OF r(1), of k]
    by (auto simp: ring_ok_def delete_persistent split: option.splits if_splits)
qed

lemma heap_agrees_delete:
  "heap_agrees le ekey ever entry X cnt d h \<Longrightarrow> X \<subseteq> {k} \<Longrightarrow>
   heap_agrees le ekey ever entry {} cnt (AList.delete k d) h"
  by (simp add: heap_agrees_def) blast

lemma delete_heaps_ok [inv_keep]:
  "heaps_ok X Y s \<Longrightarrow> X \<subseteq> {k} \<Longrightarrow> Y \<subseteq> {k} \<Longrightarrow> heaps_ok {} {} (deleteKeyUnlocked k s)"
  by (auto simp: heaps_ok_def intro: heap_agrees_delete)

lemma delete_inv [inv_keep]: "store_inv s \<Longrightarrow> store_inv (deleteKeyUnlocked k s)"
  by (auto simp: store_inv_def intro: delete_data_ok delete_ring_ok delete_heaps_ok)

lemma store_inv_expired [simp]: "store_inv (s\<lparr>expiredCount := n\<rparr>) = store_inv s"
  by (simp add: store_inv_def data_ok_def ring_ok_def heaps_ok_def persistent_def)

lemma shrinks_expired [simp]: "shrinks s (t\<lparr>expiredCount := n\<rparr>) = shrinks s t"
  by (simp add: shrinks_def)

section \<open>Pushing onto the heaps\<close>

lemma heap_agrees_touch:
  assumes ag: "heap_agrees le ekey ever entry X cnt d h"
    and h': "heap_order le h'" "set h' = insert (entry k it) (set h)"
    and it: "iAccessID it = cnt + 1" "ekey (entry k it) = k" "ever (entry k it) = cnt + 1"
  shows "heap_agrees le ekey ever entry X (cnt + 1) (AList.update k it d) h'"
  unfolding heap_agrees_def
proof (intro conjI ballI allI impI)
  show "heap_order le h'" by (rule h')
next
  fix e assume e: "e \<in> set h'"
  with ag h' it show "ever e \<le> cnt + 1"
    by (fastforce simp: heap_agrees_def)
  fix j assume "map_of (AList.update k it d) (ekey e) = Some j \<and> iAccessID j = ever e"
  with e ag h' it show "e = entry (ekey e) j"
    by (fastforce simp: heap_agrees_def split: if_splits)
next
  fix k' j assume "map_of (AList.update k it d) k' = Some j"
  with ag it h' show "iAccessID j \<le> cnt + 1" "k' \<noteq> [] \<and> k' \<notin> X \<Longrightarrow> entry k' j \<in> set h'"
    by (fastforce simp: heap_agrees_def split: if_splits)+
qed

lemma set_lru_push: "set (lru_push h e) = insert e (set h)"
  by (metis lru_push_laws(1) set_mset_add_mset_insert set_mset_mset)

lemma set_lfu_push: "set (lfu_push h e) = insert e (set h)"
  by (metis lfu_push_laws(1) set_mset_add_mset_insert set_mset_mset)

lemma pushHeaps_fields [frame, simp]:
  "sdata (pushHeaps k it s) = sdata s" "maxMemory (pushHeaps k it s) = maxMemory s"
  "usedMemory (pushHeaps k it s) = usedMemory s" "evictionPolicy (pushHeaps k it s) = evictionPolicy s"
  "ring (pushHeaps k it s) = ring s" "evictTTLWhenFull (pushHeaps k it s) = evictTTLWhenFull s"
  "expiredCount (pushHeaps k it s) = expiredCount s" "accessCounter (pushHeaps k it s) = accessCounter s"
  by (simp_all add: pushHeaps_def)

lemma push_heaps_ok [inv_keep]:
  assumes "heaps_ok {} {} s" "accessCounter t = accessCounter s + 1" "iAccessID it = accessCounter s + 1"
    "sdata t = AList.update k it (sdata s)" "lruHeap t = lruHeap s" "lfuHeap t = lfuHeap s"
  shows "heaps_ok {} {} (pushHeaps k it t)"
  unfolding heaps_ok_def
proof
  show "heap_agrees lru_le lru_key lru_version lru_entry {} (accessCounter (pushHeaps k it t))
      (sdata (pushHeaps k it t)) (lruHeap (pushHeaps k it t))"
    using assms by (simp, intro heap_agrees_touch [of _ _ _ _ _ _ _ "lruHeap s"])
      (auto simp: heaps_ok_def pushHeaps_def set_lru_push lru_entry_def lru_push_laws heap_agrees_def)
  show "heap_agrees lfu_le lfu_key lfu_version lfu_entry {} (accessCounter (pushHeaps k it t))
      (sdata (pushHeaps k it t)) (lfuHeap (pushHeaps k it t))"
    using assms by (simp, intro heap_agrees_touch [of _ _ _ _ _ _ _ "lfuHeap s"])
      (auto simp: heaps_ok_def pushHeaps_def set_lfu_push lfu_entry_def lfu_push_laws heap_agrees_def)
qed

section \<open>Eviction\<close>

text \<open>
  Every eviction loop deletes keys until the memory is within the limit or it runs out of
  candidates. \<open>evicted_to C s s'\<close>: the invariant holds after it, items only disappear, and
  either the limit is met or every key left satisfies \<open>C\<close>.
\<close>

definition evicted_to :: "(string \<Rightarrow> item \<Rightarrow> bool) \<Rightarrow> store \<Rightarrow> store \<Rightarrow> bool" where
  "evicted_to C s s' \<longleftrightarrow> store_inv s' \<and> shrinks s s' \<and> expiredCount s' = expiredCount s \<and>
     (usedMemory s' \<le> maxMemory s' \<or> (\<forall>k it. map_of (sdata s') k = Some it \<longrightarrow> C k it))"

lemma evicted_to_inv: "evicted_to C s t \<Longrightarrow> store_inv t"
  by (simp add: evicted_to_def)

lemma evicted_to_step: "evicted_to C (deleteKeyUnlocked k s) t \<Longrightarrow> evicted_to C s t"
  using shrinks_trans [OF delete_shrinks] by (auto simp: evicted_to_def)

lemma evicted_to_empty:
  "evicted_to (\<lambda>k it. False) s t \<Longrightarrow> 0 \<le> maxMemory s \<Longrightarrow> usedMemory t \<le> maxMemory t"
proof (rule ccontr)
  assume e: "evicted_to (\<lambda>k it. False) s t" "0 \<le> maxMemory s" and gt: "\<not> usedMemory t \<le> maxMemory t"
  then have "map_of (sdata t) = Map.empty" by (auto simp: evicted_to_def fun_eq_iff option.expand)
  with e have "usedMemory t = 0" by (auto simp: evicted_to_def store_inv_def used_empty)
  with e gt show False by (simp add: evicted_to_def shrinks_def)
qed

subsection \<open>Random\<close>

lemma evictRandom_to:
  "store_inv s \<Longrightarrow> (\<And>k it. map_of (sdata s) k = Some it \<Longrightarrow> k \<in> set ord \<or> C k it) \<Longrightarrow>
   (\<And>k it. vo \<Longrightarrow> iExpiresAt it = 0 \<Longrightarrow> map_of (sdata s) k = Some it \<Longrightarrow> C k it) \<Longrightarrow>
   evicted_to C s (evictRandom vo ord s)"
proof (induction vo ord s rule: evictRandom.induct)
  case (1 vo s)
  then show ?case by (auto simp: evicted_to_def)
next
  case (2 vo key ord s)
  show ?case
  proof (cases "map_of (sdata s) key")
    case None
    then have "evicted_to C s (evictRandom vo ord s)"
      using "2.prems" by (intro "2.IH"(1)) fastforce+
    with None show ?thesis by simp
  next
    case (Some it)
    consider (within) "usedMemory s \<le> maxMemory s"
      | (skip) "\<not> usedMemory s \<le> maxMemory s" "vo \<and> iExpiresAt it = 0"
      | (drop) "\<not> usedMemory s \<le> maxMemory s" "\<not> (vo \<and> iExpiresAt it = 0)" by blast
    then show ?thesis
    proof cases
      case within
      with Some "2.prems" show ?thesis by (simp add: evicted_to_def)
    next
      case skip
      have "evicted_to C s (evictRandom vo ord s)"
        using "2.prems" Some skip by (intro "2.IH"(2) [OF Some skip]) fastforce+
      with Some skip show ?thesis by simp
    next
      case drop
      have "evicted_to C (deleteKeyLocked key s) (evictRandom vo ord (deleteKeyLocked key s))"
        by (rule "2.IH"(3) [OF Some drop])
          (use "2.prems" in \<open>auto simp: deleteKeyLocked_def intro: delete_inv split: if_splits\<close>)
      then show ?thesis
        using Some drop evicted_to_step by (auto simp: deleteKeyLocked_def)
    qed
  qed
qed

subsection \<open>FIFO, then keys with a time to live\<close>

lemma evict_fifo_unfold:
  assumes "popFIFO (ring s) = (key, r)"
  shows "evict_fifo s =
    (if usedMemory s > maxMemory s \<and> fifoSize (ring s) > 0
     then evict_fifo (if key \<noteq> [] then deleteKeyUnlocked key (s\<lparr>ring := r\<rparr>) else s\<lparr>ring := r\<rparr>) else s)"
  using assms by (subst evict_fifo.simps) (simp add: deleteKeyLocked_def)

lemma pop_ring_ok:
  assumes "ring_ok {} s" "popFIFO (ring s) = (key, r)"
  shows "ring_ok (if key = [] then {} else {key}) (s\<lparr>ring := r\<rparr>)"
proof -
  have r: "fifo_ok (ring s)" "distinct (live (ring s))" "set (live (ring s)) = persistent s"
    using assms(1) by (auto simp: ring_ok_def)
  have "persistent (s\<lparr>ring := r\<rparr>) = persistent s" by (simp add: persistent_def)
  moreover have "fifo_ok r" using r(1) assms(2) by (rule fq.ok_pop)
  moreover have "distinct (live r)" "set (live r) = persistent s - (if key = [] then {} else {key})"
  proof -
    have v: "live (ring s) = (if key = [] then [] else key # live r)"
      using r(1) assms(2) by (rule fq.pop_view)
    have nil: "key = [] \<Longrightarrow> live r = []" using fq.pop_blank(2) [OF r(1)] assms(2) by blast
    show "distinct (live r)"
      using v nil r(2) by (cases "key = []") simp_all
    show "set (live r) = persistent s - (if key = [] then {} else {key})"
      using v nil r(2) unfolding r(3) [symmetric] by (cases "key = []") auto
  qed
  ultimately show ?thesis by (simp add: ring_ok_def)
qed

lemma ring_only [simp]:
  "data_ok (s\<lparr>ring := r\<rparr>) = data_ok s" "heaps_ok X Y (s\<lparr>ring := r\<rparr>) = heaps_ok X Y s"
  "shrinks (s\<lparr>ring := r\<rparr>) t = shrinks s t"
  by (auto simp: data_ok_def heaps_ok_def shrinks_def)

lemma pop_delete_inv:
  assumes "store_inv s" "popFIFO (ring s) = (key, r)"
  shows "store_inv (if key \<noteq> [] then deleteKeyUnlocked key (s\<lparr>ring := r\<rparr>) else s\<lparr>ring := r\<rparr>)"
  using assms pop_ring_ok [of s key r]
  by (auto simp: store_inv_def intro: delete_data_ok delete_ring_ok delete_heaps_ok)

lemma evict_fifo_to:
  "store_inv s \<Longrightarrow> evicted_to (\<lambda>k it. k = [] \<or> iExpiresAt it \<noteq> 0) s (evict_fifo s)"
proof (induction s rule: evict_fifo.induct)
  case (1 s)
  obtain key r where p: "popFIFO (ring s) = (key, r)" by fastforce
  let ?s = "if key \<noteq> [] then deleteKeyUnlocked key (s\<lparr>ring := r\<rparr>) else s\<lparr>ring := r\<rparr>"
  show ?case
  proof (cases "usedMemory s > maxMemory s \<and> fifoSize (ring s) > 0")
    case True
    have "evicted_to (\<lambda>k it. k = [] \<or> iExpiresAt it \<noteq> 0) ?s (evict_fifo ?s)"
      by (rule "1.IH" [OF True p [symmetric] refl refl, unfolded deleteKeyLocked_def])
        (rule pop_delete_inv [OF "1.prems" p])
    then have "evicted_to (\<lambda>k it. k = [] \<or> iExpiresAt it \<noteq> 0) s (evict_fifo ?s)"
      using evicted_to_step [of _ key "s\<lparr>ring := r\<rparr>"] by (auto simp: evicted_to_def split: if_splits)
    with True show ?thesis by (simp add: evict_fifo_unfold [OF p])
  next
    case False
    then have e: "evict_fifo s = s" by (subst evict_fifo_unfold [OF p]) auto
    show ?thesis
    proof (cases "usedMemory s > maxMemory s")
      case True
      with False have "persistent s = {}"
        using "1.prems" fq.fill_0 [of "ring s"] by (auto simp: store_inv_def ring_ok_def)
      with e "1.prems" show ?thesis by (auto simp: evicted_to_def persistent_def)
    qed (use e "1.prems" in \<open>simp add: evicted_to_def\<close>)
  qed
qed

lemma evict_fifo_oldest:
  "store_inv s \<Longrightarrow> \<exists>n. live (ring (evict_fifo s)) = drop n (live (ring s)) \<and>
     keys (sdata (evict_fifo s)) = keys (sdata s) - set (take n (live (ring s)))"
proof (induction s rule: evict_fifo.induct)
  case (1 s)
  obtain key r where p: "popFIFO (ring s) = (key, r)" by fastforce
  let ?s = "if key \<noteq> [] then deleteKeyUnlocked key (s\<lparr>ring := r\<rparr>) else s\<lparr>ring := r\<rparr>"
  show ?case
  proof (cases "usedMemory s > maxMemory s \<and> fifoSize (ring s) > 0")
    case True
    have ok: "fifo_ok (ring s)" using "1.prems" by (simp add: store_inv_def ring_ok_def)
    have v: "live (ring s) = (if key = [] then [] else key # live r)" using ok p by (rule fq.pop_view)
    have inv: "store_inv ?s" by (rule pop_delete_inv [OF "1.prems" p])
    obtain n where n: "live (ring (evict_fifo ?s)) = drop n (live (ring ?s))"
      "keys (sdata (evict_fifo ?s)) = keys (sdata ?s) - set (take n (live (ring ?s)))"
      using "1.IH" [OF True p [symmetric] refl refl, unfolded deleteKeyLocked_def, OF inv] by blast
    have e: "evict_fifo s = evict_fifo ?s" using True by (subst evict_fifo_unfold [OF p]) simp
    show ?thesis
    proof (cases "key = []")
      case True
      then have "live r = []" using fq.pop_blank(2) [OF ok] p by blast
      with n True v show ?thesis by (intro exI [of _ 0]) (simp add: e)
    next
      case False
      have "live (ring (deleteKeyUnlocked key (s\<lparr>ring := r\<rparr>))) = remove1 key (live r)
          \<or> live (ring (deleteKeyUnlocked key (s\<lparr>ring := r\<rparr>))) = live r"
        using fq.view_remove [OF fq.ok_pop [OF ok p], of key]
        by (auto simp: deleteKeyUnlocked_def Let_def split: option.splits)
      moreover have "key \<notin> set (live r)"
        using v False "1.prems" by (auto simp: store_inv_def ring_ok_def)
      ultimately have "live (ring ?s) = live r" using False by (auto simp: remove1_idem)
      with n False v show ?thesis
        by (intro exI [of _ "Suc n"]) (auto simp: e)
    qed
  next
    case False
    then have "evict_fifo s = s" by (subst evict_fifo_unfold [OF p]) auto
    then show ?thesis by (intro exI [of _ 0]) simp
  qed
qed

lemma evict_ttl_to:
  "store_inv s \<Longrightarrow> (\<And>k it. map_of (sdata s) k = Some it \<Longrightarrow> k \<in> set ord \<or> C k it) \<Longrightarrow>
   (\<And>k it. iExpiresAt it \<le> 0 \<Longrightarrow> map_of (sdata s) k = Some it \<Longrightarrow> C k it) \<Longrightarrow>
   evicted_to C s (evict_ttl ord s)"
proof (induction ord s rule: evict_ttl.induct)
  case (1 s)
  then show ?case by (auto simp: evicted_to_def)
next
  case (2 key ord s)
  show ?case
  proof (cases "map_of (sdata s) key")
    case None
    then have "evicted_to C s (evict_ttl ord s)"
      using "2.prems" by (intro "2.IH"(1)) fastforce+
    with None show ?thesis by simp
  next
    case (Some it)
    consider (within) "usedMemory s \<le> maxMemory s"
      | (ttl) "\<not> usedMemory s \<le> maxMemory s" "iExpiresAt it > 0"
      | (keep) "\<not> usedMemory s \<le> maxMemory s" "\<not> iExpiresAt it > 0" by blast
    then show ?thesis
    proof cases
      case within
      with Some "2.prems" show ?thesis by (simp add: evicted_to_def)
    next
      case ttl
      have "evicted_to C (deleteKeyLocked key s) (evict_ttl ord (deleteKeyLocked key s))"
        by (rule "2.IH"(2) [OF Some ttl])
          (use "2.prems" in \<open>auto simp: deleteKeyLocked_def intro: delete_inv split: if_splits\<close>)
      then show ?thesis
        using Some ttl evicted_to_step by (auto simp: deleteKeyLocked_def)
    next
      case keep
      have "evicted_to C s (evict_ttl ord s)"
        using "2.prems" Some keep by (intro "2.IH"(3) [OF Some keep]) fastforce+
      with Some keep show ?thesis by simp
    qed
  qed
qed

subsection \<open>LRU and LFU\<close>

text \<open>
  Popping a heap that agrees with the map: the heap keeps agreeing but for the victim, and
  the victim is least, in the order of the heap, among all keys but the empty one.
\<close>

locale victim_heap = fresh_pop +
  fixes entry :: "string \<Rightarrow> item \<Rightarrow> 'a"
  assumes ekey_entry: "ekey (entry k it) = k" and ever_entry: "ever (entry k it) = iAccessID it"
begin

lemma fresh_entry: "map_of d k = Some it \<Longrightarrow> fresh d (entry k it)"
  by (simp add: fresh_def ekey_entry ever_entry)

lemma fresh_agrees:
  "heap_agrees le ekey ever entry X cnt d h \<Longrightarrow> e \<in> set h \<Longrightarrow> fresh d e \<Longrightarrow>
   \<exists>it. map_of d (ekey e) = Some it \<and> e = entry (ekey e) it"
  by (auto simp: heap_agrees_def fresh_def)

lemma agrees_smaller:
  "heap_agrees le ekey ever entry {} cnt d h \<Longrightarrow> heap_order le h' \<Longrightarrow> set h' \<subseteq> set h \<Longrightarrow>
   (\<And>k it. map_of d k = Some it \<Longrightarrow> k \<noteq> [] \<Longrightarrow> k \<notin> X \<Longrightarrow> entry k it \<in> set h') \<Longrightarrow>
   heap_agrees le ekey ever entry X cnt d h'"
  unfolding heap_agrees_def by blast

lemma agrees_none:
  assumes "heap_agrees le ekey ever entry {} cnt d h" "\<forall>e \<in> set h. \<not> fresh d e"
  shows "loop d h = ([], [])" "keys d \<subseteq> {[]}"
proof -
  show "loop d h = ([], [])" using assms(2) by (rule loop_none)
  have "k = []" if "map_of d k = Some it" for k it
    using assms that fresh_entry [OF that] unfolding heap_agrees_def by blast
  then show "keys d \<subseteq> {[]}" by (metis map_of_key_cases singletonI subsetI)
qed

lemma agrees_some:
  assumes ag: "heap_agrees le ekey ever entry {} cnt d h" and ex: "e0 \<in> set h" "fresh d e0"
    and lp: "loop d h = (k, h')"
  obtains it where "map_of d k = Some it" "heap_agrees le ekey ever entry (if k = [] then {} else {k}) cnt d h'"
    "\<And>k' it'. map_of d k' = Some it' \<Longrightarrow> k' \<noteq> [] \<Longrightarrow> le (entry k it) (entry k' it')"
proof -
  have ord: "heap_order le h" using ag by (simp add: heap_agrees_def)
  from loop_some [OF ord ex]
  have "\<exists>e \<in> set h. fresh d e \<and> k = ekey e \<and> (\<forall>x \<in> set h. fresh d x \<longrightarrow> le e x \<and> (x = e \<or> x \<in> set h'))"
    unfolding lp by simp
  then obtain e where e: "e \<in> set h" "fresh d e" "k = ekey e"
    and least: "\<And>x. x \<in> set h \<Longrightarrow> fresh d x \<Longrightarrow> le e x \<and> (x = e \<or> x \<in> set h')"
    by blast
  obtain it where it: "map_of d k = Some it" "e = entry k it"
    using fresh_agrees [OF ag e(1,2)] unfolding e(3) by blast
  have mem: "entry k' it' \<in> set h" if "map_of d k' = Some it'" "k' \<noteq> []" for k' it'
    using ag that unfolding heap_agrees_def by blast
  have "heap_agrees le ekey ever entry (if k = [] then {} else {k}) cnt d h'"
  proof (rule agrees_smaller [OF ag])
    show "heap_order le h'" "set h' \<subseteq> set h" using loop_order [OF ord, of d] lp by auto
    fix k' it'
    assume a: "map_of d k' = Some it'" "k' \<noteq> []" "k' \<notin> (if k = [] then {} else {k})"
    then have "k' \<noteq> k" by (cases "k = []") auto
    then have "entry k' it' \<noteq> e" using e(3) ekey_entry [of k' it'] by metis
    with least [OF mem [OF a(1,2)] fresh_entry [OF a(1)]] show "entry k' it' \<in> set h'" by blast
  qed
  moreover have "le (entry k it) (entry k' it')" if "map_of d k' = Some it'" "k' \<noteq> []" for k' it'
    using least [OF mem [OF that] fresh_entry [OF that(1)]] it(2) by simp
  ultimately show ?thesis using it(1) that by blast
qed

lemma pop_agrees:
  assumes ag: "heap_agrees le ekey ever entry {} cnt d h" and lp: "loop d h = (k, h')"
  shows "heap_agrees le ekey ever entry (if k = [] then {} else {k}) cnt d h'"
    and "k = [] \<Longrightarrow> [] \<notin> keys d \<Longrightarrow> d = []"
    and "k \<noteq> [] \<Longrightarrow> \<exists>it. map_of d k = Some it \<and>
      (\<forall>k' it'. map_of d k' = Some it' \<and> k' \<noteq> [] \<longrightarrow> le (entry k it) (entry k' it'))"
proof -
  have "heap_agrees le ekey ever entry (if k = [] then {} else {k}) cnt d h' \<and>
      (k = [] \<longrightarrow> [] \<notin> keys d \<longrightarrow> d = []) \<and>
      (k \<noteq> [] \<longrightarrow> (\<exists>it. map_of d k = Some it \<and>
        (\<forall>k' it'. map_of d k' = Some it' \<and> k' \<noteq> [] \<longrightarrow> le (entry k it) (entry k' it'))))"
  proof (cases "\<exists>e0 \<in> set h. fresh d e0")
    case True
    then obtain e0 where "e0 \<in> set h" "fresh d e0" by blast
    from agrees_some [OF ag this lp] show ?thesis by (metis map_of_keyD)
  next
    case False
    with agrees_none [OF ag] lp have n: "k = []" "h' = []" "keys d \<subseteq> {[]}" by auto
    then have "d = [] \<or> [] \<in> keys d" by (cases d) auto
    moreover have "heap_agrees le ekey ever entry {} cnt d []"
      by (rule agrees_smaller [OF ag]) (use n(3) map_of_keyD in \<open>force+\<close>)
    ultimately show ?thesis using n by auto
  qed
  then show "heap_agrees le ekey ever entry (if k = [] then {} else {k}) cnt d h'"
    "k = [] \<Longrightarrow> [] \<notin> keys d \<Longrightarrow> d = []"
    "k \<noteq> [] \<Longrightarrow> \<exists>it. map_of d k = Some it \<and>
      (\<forall>k' it'. map_of d k' = Some it' \<and> k' \<noteq> [] \<longrightarrow> le (entry k it) (entry k' it'))"
    by blast+
qed

end

interpretation lruv: victim_heap lru_le lru_pop lru_key lru_version popLRU_loop lru_entry
  by unfold_locales (auto simp: lru_entry_def)

interpretation lfuv: victim_heap lfu_le lfu_pop lfu_key lfu_version popLFU_loop lfu_entry
  by unfold_locales (auto simp: lfu_entry_def)

text \<open>The loop around the pop, shared by the two policies.\<close>

locale evict_loop =
  fixes vpop :: "store \<Rightarrow> string \<times> store" and evict :: "store \<Rightarrow> store" and len :: "store \<Rightarrow> nat"
    and vle :: "string \<Rightarrow> item \<Rightarrow> string \<Rightarrow> item \<Rightarrow> bool"
  assumes evict_unfold: "evict s = (if usedMemory s > maxMemory s
      then let (key, s1) = vpop s in if key = [] then s1 else evict (deleteKeyLocked key s1)
      else s)"
    and vpop_frame: "vpop s = (k, s1) \<Longrightarrow> sdata s1 = sdata s \<and> usedMemory s1 = usedMemory s \<and>
      shrinks s s1 \<and> expiredCount s1 = expiredCount s"
    and vpop_len: "vpop s = (k, s1) \<Longrightarrow> k \<noteq> [] \<Longrightarrow> len s1 < len s"
    and len_delete: "len (deleteKeyUnlocked k s) = len s"
    and vpop_inv: "store_inv s \<Longrightarrow> vpop s = (k, s1) \<Longrightarrow>
      store_inv (if k = [] then s1 else deleteKeyUnlocked k s1)"
    and vpop_none: "store_inv s \<Longrightarrow> vpop s = ([], s1) \<Longrightarrow> [] \<notin> keys (sdata s) \<Longrightarrow> sdata s = []"
    and vpop_least: "store_inv s \<Longrightarrow> vpop s = (k, s1) \<Longrightarrow> k \<noteq> [] \<Longrightarrow> map_of (sdata s) k = Some it \<Longrightarrow>
      map_of (sdata s) k' = Some it' \<Longrightarrow> k' \<noteq> [] \<Longrightarrow> vle k it k' it'"
begin

lemma evict_to: "store_inv s \<Longrightarrow> evicted_to (\<lambda>k it. [] \<in> keys (sdata s)) s (evict s)"
proof (induction "len s" arbitrary: s rule: less_induct)
  case less
  obtain k s1 where p: "vpop s = (k, s1)" by fastforce
  note f = vpop_frame [OF p]
  show ?case
  proof (cases "usedMemory s > maxMemory s")
    case False
    then show ?thesis using less.prems by (subst evict_unfold) (simp add: evicted_to_def)
  next
    case over: True
    show ?thesis
    proof (cases "k = []")
      case True
      have "store_inv s1" using vpop_inv [OF less.prems p] True by simp
      moreover have "map_of (sdata s) j = Some it \<Longrightarrow> [] \<in> keys (sdata s)" for j it
        using vpop_none [OF less.prems] p True by fastforce
      ultimately show ?thesis
        using over True p f by (subst evict_unfold) (auto simp: evicted_to_def)
    next
      case False
      let ?t = "deleteKeyUnlocked k s1"
      have e: "evict s = evict ?t"
        using over False p by (subst evict_unfold) (simp add: deleteKeyLocked_def)
      have "evicted_to (\<lambda>k it. [] \<in> keys (sdata ?t)) ?t (evict ?t)"
        using vpop_inv [OF less.prems p] vpop_len [OF p] False
        by (intro less.hyps) (auto simp: len_delete)
      then show ?thesis
        using evicted_to_step [of _ k s1] shrinks_trans [of s s1] f
        unfolding e evicted_to_def by auto
    qed
  qed
qed

lemma evict_oldest:
  "store_inv s \<Longrightarrow> map_of (sdata s) k = Some it \<Longrightarrow> map_of (sdata (evict s)) k = None \<Longrightarrow>
   map_of (sdata (evict s)) k' = Some it' \<Longrightarrow> k' \<noteq> [] \<Longrightarrow> vle k it k' it'"
proof (induction "len s" arbitrary: s rule: less_induct)
  case less
  obtain j s1 where p: "vpop s = (j, s1)" by fastforce
  note f = vpop_frame [OF p]
  have over: "usedMemory s > maxMemory s"
    using less.prems(2,3) by (rule_tac ccontr) (simp add: evict_unfold [of s])
  show ?case
  proof (cases "j = []")
    case True
    with over p less.prems(2,3) f show ?thesis by (simp add: evict_unfold [of s])
  next
    case False
    let ?t = "deleteKeyUnlocked j s1"
    have e: "evict s = evict ?t"
      using over False p by (subst evict_unfold) (simp add: deleteKeyLocked_def)
    have inv: "store_inv ?t" using vpop_inv [OF less.prems(1) p] False by simp
    have k': "map_of (sdata s) k' = Some it'"
    proof (rule shrinks_lookup)
      show "shrinks s (evict s)"
        using evict_to [OF inv] f shrinks_trans [OF _ shrinks_trans [OF delete_shrinks]]
        unfolding e evicted_to_def by blast
    qed (rule less.prems(4))
    show ?thesis
    proof (cases "k = j")
      case True
      then show ?thesis
        using vpop_least [OF less.prems(1) p False _ k' less.prems(5)] less.prems(2) by blast
    next
      case k: False
      show ?thesis
        by (rule less.hyps [OF _ inv])
          (use vpop_len [OF p] False k f less.prems e in \<open>auto simp: len_delete\<close>)
    qed
  qed
qed

end

interpretation lrue: evict_loop popLRU evictLRU "\<lambda>s. length (lruHeap s)"
  "\<lambda>k it k' it'. lru_le (lru_entry k it) (lru_entry k' it')"
proof unfold_locales
  fix s s1 k it k' it'
  show "evictLRU s = (if usedMemory s > maxMemory s
      then let (key, s1) = popLRU s in if key = [] then s1 else evictLRU (deleteKeyLocked key s1)
      else s)" by (rule evictLRU.simps)
  show "length (lruHeap (deleteKeyUnlocked k s)) = length (lruHeap s)" by simp
  {
    assume p: "popLRU s = (k, s1)"
    obtain h where h: "popLRU_loop (sdata s) (lruHeap s) = (k, h)" "s1 = s\<lparr>lruHeap := h\<rparr>"
      using p by (auto simp: popLRU_def split: prod.splits)
    show "sdata s1 = sdata s \<and> usedMemory s1 = usedMemory s \<and> shrinks s s1 \<and> expiredCount s1 = expiredCount s"
      using h by (auto simp: shrinks_def)
    show "k \<noteq> [] \<Longrightarrow> length (lruHeap s1) < length (lruHeap s)"
      using lrup.loop_length [OF h(1)] h(2) by simp
    assume inv: "store_inv s"
    then have "heap_agrees lru_le lru_key lru_version lru_entry {} (accessCounter s) (sdata s) (lruHeap s)"
      by (simp add: store_inv_def heaps_ok_def)
    then show "k \<noteq> [] \<Longrightarrow> map_of (sdata s) k = Some it \<Longrightarrow> map_of (sdata s) k' = Some it' \<Longrightarrow> k' \<noteq> [] \<Longrightarrow>
        lru_le (lru_entry k it) (lru_entry k' it')"
      using lruv.pop_agrees(3) [OF _ h(1)] by fastforce
    note ag = \<open>heap_agrees _ _ _ _ _ _ _ _\<close>
    from lruv.pop_agrees(1) [OF ag h(1)]
    have "heaps_ok (if k = [] then {} else {k}) {} s1"
      using inv h(2) by (simp add: store_inv_def heaps_ok_def)
    moreover have "data_ok s1" "ring_ok {} s1"
      using inv h(2) by (auto simp: store_inv_def data_ok_def ring_ok_def persistent_def)
    ultimately show "store_inv (if k = [] then s1 else deleteKeyUnlocked k s1)"
      by (auto simp: store_inv_def intro: delete_data_ok delete_ring_ok delete_heaps_ok)
  }
  assume inv: "store_inv s" and p: "popLRU s = ([], s1)" and ne: "[] \<notin> keys (sdata s)"
  obtain h where h: "popLRU_loop (sdata s) (lruHeap s) = ([], h)"
    using p by (auto simp: popLRU_def split: prod.splits)
  with inv ne show "sdata s = []"
    using lruv.pop_agrees(2) by (auto simp: store_inv_def heaps_ok_def)
qed

interpretation lfue: evict_loop popLFU evictLFU "\<lambda>s. length (lfuHeap s)"
  "\<lambda>k it k' it'. lfu_le (lfu_entry k it) (lfu_entry k' it')"
proof unfold_locales
  fix s s1 k it k' it'
  show "evictLFU s = (if usedMemory s > maxMemory s
      then let (key, s1) = popLFU s in if key = [] then s1 else evictLFU (deleteKeyLocked key s1)
      else s)" by (rule evictLFU.simps)
  show "length (lfuHeap (deleteKeyUnlocked k s)) = length (lfuHeap s)" by simp
  {
    assume p: "popLFU s = (k, s1)"
    obtain h where h: "popLFU_loop (sdata s) (lfuHeap s) = (k, h)" "s1 = s\<lparr>lfuHeap := h\<rparr>"
      using p by (auto simp: popLFU_def split: prod.splits)
    show "sdata s1 = sdata s \<and> usedMemory s1 = usedMemory s \<and> shrinks s s1 \<and> expiredCount s1 = expiredCount s"
      using h by (auto simp: shrinks_def)
    show "k \<noteq> [] \<Longrightarrow> length (lfuHeap s1) < length (lfuHeap s)"
      using lfup.loop_length [OF h(1)] h(2) by simp
    assume inv: "store_inv s"
    then have "heap_agrees lfu_le lfu_key lfu_version lfu_entry {} (accessCounter s) (sdata s) (lfuHeap s)"
      by (simp add: store_inv_def heaps_ok_def)
    then show "k \<noteq> [] \<Longrightarrow> map_of (sdata s) k = Some it \<Longrightarrow> map_of (sdata s) k' = Some it' \<Longrightarrow> k' \<noteq> [] \<Longrightarrow>
        lfu_le (lfu_entry k it) (lfu_entry k' it')"
      using lfuv.pop_agrees(3) [OF _ h(1)] by fastforce
    note ag = \<open>heap_agrees _ _ _ _ _ _ _ _\<close>
    from lfuv.pop_agrees(1) [OF ag h(1)]
    have "heaps_ok {} (if k = [] then {} else {k}) s1"
      using inv h(2) by (simp add: store_inv_def heaps_ok_def)
    moreover have "data_ok s1" "ring_ok {} s1"
      using inv h(2) by (auto simp: store_inv_def data_ok_def ring_ok_def persistent_def)
    ultimately show "store_inv (if k = [] then s1 else deleteKeyUnlocked k s1)"
      by (auto simp: store_inv_def intro: delete_data_ok delete_ring_ok delete_heaps_ok)
  }
  assume inv: "store_inv s" and p: "popLFU s = ([], s1)" and ne: "[] \<notin> keys (sdata s)"
  obtain h where h: "popLFU_loop (sdata s) (lfuHeap s) = ([], h)"
    using p by (auto simp: popLFU_def split: prod.splits)
  with inv ne show "sdata s = []"
    using lfuv.pop_agrees(2) by (auto simp: store_inv_def heaps_ok_def)
qed

end
