(* ===== verification/Fas_Store_Ops.thy ===== *)
theory Fas_Store_Ops
  imports Fas_Store_Inv
begin

text \<open>
  What the exported operations of the store do: each keeps the invariant, and each is
  described by its effect on the map of items.
\<close>

section \<open>evictIfNeeded\<close>

text \<open>The keys a policy may leave behind above the limit.\<close>

definition spared :: "store \<Rightarrow> string \<Rightarrow> item \<Rightarrow> bool" where
  "spared s k it = (case evictionPolicy s of
      EvictionNoEviction \<Rightarrow> if evictTTLWhenFull s then k = [] \<and> iExpiresAt it = 0 \<or> iExpiresAt it < 0
                            else k = [] \<or> iExpiresAt it \<noteq> 0
    | EvictionAllKeysRandom \<Rightarrow> False
    | EvictionVolatileRandom \<Rightarrow> iExpiresAt it = 0
    | EvictionAllKeysLRU \<Rightarrow> [] \<in> keys (sdata s)
    | EvictionAllKeysLFU \<Rightarrow> [] \<in> keys (sdata s))"

lemma evicted_to_trans: "evicted_to C s t \<Longrightarrow> evicted_to D t u \<Longrightarrow> evicted_to D s u"
  by (auto simp: evicted_to_def intro: shrinks_trans)

lemma evict_default_to:
  assumes inv: "store_inv s" and ttl: "evictTTLWhenFull s"
    and cov: "\<And>k it. map_of (sdata s) k = Some it \<Longrightarrow> k \<in> set ord \<or> C k it"
    and C: "\<And>k it. map_of (sdata s) k = Some it \<Longrightarrow> k = [] \<and> iExpiresAt it = 0 \<or> iExpiresAt it < 0 \<Longrightarrow> C k it"
  shows "evicted_to C s (let s1 = evict_fifo s in
    if evictTTLWhenFull s1 \<and> usedMemory s1 > maxMemory s1 then evict_ttl ord s1 else s1)"
proof -
  define s1 where "s1 = evict_fifo s"
  have e1: "evicted_to (\<lambda>k it. k = [] \<or> iExpiresAt it \<noteq> 0) s s1"
    unfolding s1_def by (rule evict_fifo_to [OF inv])
  then have sh: "shrinks s s1" "store_inv s1" "evictTTLWhenFull s1"
    using ttl by (auto simp: evicted_to_def shrinks_def)
  show ?thesis
  proof (cases "usedMemory s1 > maxMemory s1")
    case True
    have "evicted_to C s1 (evict_ttl ord s1)"
    proof (rule evict_ttl_to [OF sh(2)])
      fix k it assume k: "map_of (sdata s1) k = Some it"
      then show "k \<in> set ord \<or> C k it" using cov shrinks_lookup [OF sh(1)] by blast
      assume "iExpiresAt it \<le> 0"
      moreover have "k = [] \<or> iExpiresAt it \<noteq> 0" using e1 True k by (auto simp: evicted_to_def)
      ultimately show "C k it" using C [OF shrinks_lookup [OF sh(1) k]] by force
    qed
    with True sh e1 show ?thesis
      by (simp add: Let_def flip: s1_def) (rule evicted_to_trans)
  next
    case False
    then show ?thesis using e1 by (simp add: evicted_to_def Let_def flip: s1_def)
  qed
qed

lemma evict_fifo_only_to:
  assumes "store_inv s" "\<not> evictTTLWhenFull s"
  shows "evicted_to (\<lambda>k it. k = [] \<or> iExpiresAt it \<noteq> 0) s (let s1 = evict_fifo s in
    if evictTTLWhenFull s1 \<and> usedMemory s1 > maxMemory s1 then evict_ttl ord s1 else s1)"
  using evict_fifo_to [OF assms(1)] assms(2) by (auto simp: evicted_to_def shrinks_def Let_def)

lemma evictIfNeeded_to:
  assumes "store_inv s" "keys (sdata s) \<subseteq> set ord" "0 < maxMemory s"
  shows "evicted_to (spared s) s (evictIfNeeded ord s)"
proof (cases "usedMemory s \<le> maxMemory s")
  case True
  with assms show ?thesis by (simp add: evictIfNeeded_def evicted_to_def)
next
  case False
  have cov: "k \<in> set ord" if "map_of (sdata s) k = Some it" for k it
    using assms(2) map_of_keyD [OF that] by blast
  have unf: "evictIfNeeded ord s = (case evictionPolicy s of
        EvictionAllKeysRandom \<Rightarrow> evictRandom False ord s
      | EvictionVolatileRandom \<Rightarrow> evictRandom True ord s
      | EvictionAllKeysLRU \<Rightarrow> evictLRU s
      | EvictionAllKeysLFU \<Rightarrow> evictLFU s
      | EvictionNoEviction \<Rightarrow>
          let s1 = evict_fifo s
          in if evictTTLWhenFull s1 \<and> usedMemory s1 > maxMemory s1 then evict_ttl ord s1 else s1)"
    using False assms(3) by (simp add: evictIfNeeded_def)
  show ?thesis
  proof (cases "evictionPolicy s")
    case EvictionNoEviction
    show ?thesis
    proof (cases "evictTTLWhenFull s")
      case True
      have "evicted_to (spared s) s (let s1 = evict_fifo s in
          if evictTTLWhenFull s1 \<and> usedMemory s1 > maxMemory s1 then evict_ttl ord s1 else s1)"
        by (rule evict_default_to [OF assms(1) True])
          (use cov EvictionNoEviction True in \<open>auto simp: spared_def\<close>)
      with unf EvictionNoEviction show ?thesis by simp
    next
      case False
      with evict_fifo_only_to [OF assms(1) False] unf EvictionNoEviction show ?thesis
        by (auto simp: evicted_to_def spared_def)
    qed
  qed (use unf cov assms(1) in \<open>auto simp: spared_def [abs_def] intro: evictRandom_to lrue.evict_to lfue.evict_to\<close>)
qed

lemma evictIfNeeded_inv [inv_keep]:
  assumes "store_inv s"
  shows "store_inv (evictIfNeeded ord s) \<and> shrinks s (evictIfNeeded ord s) \<and>
    expiredCount (evictIfNeeded ord s) = expiredCount s"
proof -
  have r: "evicted_to (\<lambda>_ _. True) s (evictRandom vo ord s)" for vo
    by (rule evictRandom_to [OF assms]) auto
  have d: "evicted_to (\<lambda>_ _. True) s (let s1 = evict_fifo s in
      if evictTTLWhenFull s1 \<and> usedMemory s1 > maxMemory s1 then evict_ttl ord s1 else s1)"
  proof (cases "evictTTLWhenFull s")
    case True
    then show ?thesis by (intro evict_default_to assms) auto
  next
    case False
    then show ?thesis using evict_fifo_only_to [OF assms False, of ord] by (auto simp: evicted_to_def)
  qed
  show ?thesis
    using assms r [of False] r [of True] d lrue.evict_to [OF assms] lfue.evict_to [OF assms]
    by (auto simp: evictIfNeeded_def evicted_to_def Let_def split: EvictionPolicy.splits)
qed

section \<open>Set\<close>

text \<open>
  \<open>set_core\<close> is \<^verbatim>\<open>setUnlocked\<close> up to its last line, the eviction. A time to live is
  proper when it is zero or positive with an expiry that is not the "never" value 0.
\<close>

definition proper_ttl :: "int \<Rightarrow> int \<Rightarrow> bool" where
  "proper_ttl ttl now2 \<longleftrightarrow> ttl = 0 \<or> ttl > 0 \<and> wrap64 (now2 + ttl) \<noteq> 0"

definition new_item :: "string \<Rightarrow> string \<Rightarrow> int \<Rightarrow> int \<Rightarrow> int \<Rightarrow> store \<Rightarrow> item" where
  "new_item key val ttl now now2 s =
     \<lparr>iValue = val, iType = TypeString, iExpiresAt = (if ttl > 0 then wrap64 (now2 + ttl) else 0),
      iSize = estimateItemSize key val, iFreq = 1, iLastAccess = now, iAccessID = accessCounter s + 1\<rparr>"

definition set_ring :: "string \<Rightarrow> int \<Rightarrow> store \<Rightarrow> fifo" where
  "set_ring key ttl s =
     (let r = (case map_of (sdata s) key of None \<Rightarrow> ring s
               | Some old \<Rightarrow> if iExpiresAt old = 0 then removeFIFOUnlocked key (ring s) else ring s)
      in if ttl = 0 then addFIFOUnlocked key r else removeFIFOUnlocked key r)"

definition set_core :: "string \<Rightarrow> string \<Rightarrow> int \<Rightarrow> int \<Rightarrow> int \<Rightarrow> store \<Rightarrow> store" where
  "set_core key val ttl now now2 s =
     (let it = new_item key val ttl now now2 s
      in pushHeaps key it
        (s\<lparr>accessCounter := accessCounter s + 1, sdata := AList.update key it (sdata s),
           usedMemory := usedMemory s - (case map_of (sdata s) key of None \<Rightarrow> 0 | Some old \<Rightarrow> iSize old) + iSize it,
           ring := set_ring key ttl s\<rparr>))"

lemma setUnlocked_core:
  "setUnlocked key val ttl now now2 ord s = evictIfNeeded ord (set_core key val ttl now now2 s)"
  by (simp add: setUnlocked_def set_core_def nextAccessID_def Let_def new_item_def set_ring_def
      split: option.splits)

lemma set_core_fields [simp]:
  "sdata (set_core key val ttl now now2 s) = AList.update key (new_item key val ttl now now2 s) (sdata s)"
  "maxMemory (set_core key val ttl now now2 s) = maxMemory s"
  "evictionPolicy (set_core key val ttl now now2 s) = evictionPolicy s"
  "evictTTLWhenFull (set_core key val ttl now now2 s) = evictTTLWhenFull s"
  "expiredCount (set_core key val ttl now now2 s) = expiredCount s"
  "accessCounter (set_core key val ttl now now2 s) = accessCounter s + 1"
  "ring (set_core key val ttl now now2 s) = set_ring key ttl s"
  "usedMemory (set_core key val ttl now now2 s) =
     usedMemory s - (case map_of (sdata s) key of None \<Rightarrow> 0 | Some old \<Rightarrow> iSize old) + estimateItemSize key val"
  by (simp_all add: set_core_def Let_def) (simp add: new_item_def)

lemma set_core_data_ok: "data_ok s \<Longrightarrow> data_ok (set_core key val ttl now now2 s)"
  by (auto simp: data_ok_def msum_update) (auto simp: new_item_def)

lemma set_core_ring_ok:
  assumes "ring_ok {} s" "proper_ttl ttl now2"
  shows "ring_ok {} (set_core key val ttl now now2 s)"
proof -
  define r where "r = (case map_of (sdata s) key of None \<Rightarrow> ring s
      | Some old \<Rightarrow> if iExpiresAt old = 0 then removeFIFOUnlocked key (ring s) else ring s)"
  have ok: "fifo_ok (ring s)" "distinct (live (ring s))" "set (live (ring s)) = persistent s"
    using assms(1) by (auto simp: ring_ok_def)
  have absent: "map_of (sdata s) key = None \<or> (\<exists>old. map_of (sdata s) key = Some old \<and> iExpiresAt old \<noteq> 0)
      \<Longrightarrow> persistent s = persistent s - {key}"
    by (auto simp: persistent_def)
  have r: "fifo_ok r \<and> distinct (live r) \<and> set (live r) = persistent s - {key}"
    using ok fq.distinct_remove [OF ok(1,2), of key] fq.ok_remove [OF ok(1), of key] absent
    unfolding r_def by (auto split: option.splits if_splits)
  have p: "persistent (set_core key val ttl now now2 s) =
      persistent s - {key} \<union> (if ttl = 0 then {key} - {[]} else {})"
    using assms(2) by (auto simp: persistent_def new_item_def proper_ttl_def)
  have "set_ring key ttl s = (if ttl = 0 then addFIFOUnlocked key r else removeFIFOUnlocked key r)"
    by (simp add: set_ring_def r_def)
  with r p fq.distinct_add [of r key] fq.distinct_remove [of r key] fq.ok_add [of r key] fq.ok_remove [of r key]
  show ?thesis by (auto simp: ring_ok_def)
qed

lemma set_core_heaps_ok: "heaps_ok {} {} s \<Longrightarrow> heaps_ok {} {} (set_core key val ttl now now2 s)"
  unfolding set_core_def Let_def by (rule push_heaps_ok) (auto simp: new_item_def)

lemma set_core_inv: "store_inv s \<Longrightarrow> proper_ttl ttl now2 \<Longrightarrow> store_inv (set_core key val ttl now now2 s)"
  by (simp add: store_inv_def set_core_data_ok set_core_ring_ok set_core_heaps_ok)

lemma set_inv [inv_keep]:
  "store_inv s \<Longrightarrow> proper_ttl ttl now2 \<Longrightarrow> store_inv (Set key val ttl now now2 ord s)"
  by (simp add: Set_def setUnlocked_core set_core_inv evictIfNeeded_inv)

lemma set_shrinks:
  "store_inv s \<Longrightarrow> proper_ttl ttl now2 \<Longrightarrow>
   shrinks (set_core key val ttl now now2 s) (Set key val ttl now now2 ord s)"
  by (simp add: Set_def setUnlocked_core set_core_inv evictIfNeeded_inv)

section \<open>Get\<close>

lemma getWithNow_split:
  "getWithNow key now sr s =
     (if key \<in> keys (sdata sr) then getUnlockedWithNow key now s else (Inl ErrNotFound, s))"
  by (auto simp: getWithNow_def getUnlockedWithNow_def map_of_key_cases split: option.splits)

definition get_hit :: "string \<Rightarrow> int \<Rightarrow> item \<Rightarrow> store \<Rightarrow> store" where
  "get_hit key now it s =
     (let it' = touch now (accessCounter s + 1) it
      in pushHeaps key it' (s\<lparr>accessCounter := accessCounter s + 1, sdata := AList.update key it' (sdata s)\<rparr>))"

lemma getUnlocked_cases:
  "getUnlockedWithNow key now s =
     (case map_of (sdata s) key of
        None \<Rightarrow> (Inl ErrNotFound, s)
      | Some it \<Rightarrow>
          if expired_at now it
          then (Inl ErrNotFound, (deleteKeyUnlocked key s)\<lparr>expiredCount := expiredCount s + 1\<rparr>)
          else if iType it \<noteq> TypeString then (Inl ErrWrongType, s)
          else (Inr (iValue it), get_hit key now it s))"
  by (simp add: getUnlockedWithNow_def get_hit_def nextAccessID_def Let_def touch_def split: option.splits)

lemma get_hit_fields [simp]:
  "sdata (get_hit key now it s) = AList.update key (touch now (accessCounter s + 1) it) (sdata s)"
  "maxMemory (get_hit key now it s) = maxMemory s" "usedMemory (get_hit key now it s) = usedMemory s"
  "evictionPolicy (get_hit key now it s) = evictionPolicy s" "ring (get_hit key now it s) = ring s"
  "evictTTLWhenFull (get_hit key now it s) = evictTTLWhenFull s"
  "expiredCount (get_hit key now it s) = expiredCount s"
  by (simp_all add: get_hit_def Let_def)

lemma touch_fields [simp]:
  "iValue (touch now i it) = iValue it" "iType (touch now i it) = iType it"
  "iExpiresAt (touch now i it) = iExpiresAt it" "iSize (touch now i it) = iSize it"
  "iLastAccess (touch now i it) = now" "iFreq (touch now i it) = iFreq it + 1" "iAccessID (touch now i it) = i"
  by (simp_all add: touch_def)

lemma get_hit_inv:
  assumes "store_inv s" "map_of (sdata s) key = Some it"
  shows "store_inv (get_hit key now it s)"
proof -
  have "data_ok (get_hit key now it s)"
    using assms by (auto simp: store_inv_def data_ok_def msum_update)
  moreover have "persistent (get_hit key now it s) = persistent s"
    using assms by (auto simp: persistent_def)
  then have "ring_ok {} (get_hit key now it s)"
    using assms by (simp add: store_inv_def ring_ok_def)
  moreover have "heaps_ok {} {} (get_hit key now it s)"
    unfolding get_hit_def Let_def
    by (rule push_heaps_ok [where s = s]) (use assms in \<open>auto simp: store_inv_def\<close>)
  ultimately show ?thesis by (simp add: store_inv_def)
qed

lemma getUnlocked_inv [inv_keep]: "store_inv s \<Longrightarrow> store_inv (snd (getUnlockedWithNow key now s))"
  by (auto simp: getUnlocked_cases delete_inv get_hit_inv split: option.splits)

lemma get_inv [inv_keep]: "store_inv s \<Longrightarrow> store_inv (snd (getWithNow key now sr s))"
  by (simp add: getWithNow_split getUnlocked_inv)

section \<open>Expiry\<close>

lemma sample_loop_facts:
  "store_inv s \<Longrightarrow> sample_loop now ord c x s = (s', x') \<Longrightarrow>
   store_inv s' \<and> shrinks s s' \<and>
   (\<forall>k it. map_of (sdata s) k = Some it \<and> \<not> expired_at now it \<longrightarrow> map_of (sdata s') k = Some it) \<and>
   x \<le> x' \<and> expiredCount s' = expiredCount s + int (x' - x) \<and> x' \<le> x + (20 - c)"
proof (induction now ord c x s arbitrary: s' x' rule: sample_loop.induct)
  case (2 now key ord c x s)
  show ?case
  proof (cases "map_of (sdata s) key")
    case None
    with 2 show ?thesis by simp
  next
    case (Some it)
    consider (full) "c \<ge> 20" | (gone) "\<not> c \<ge> 20" "expired_at now it" | (stay) "\<not> c \<ge> 20" "\<not> expired_at now it"
      by blast
    then show ?thesis
    proof cases
      case full
      with 2 Some show ?thesis by auto
    next
      case gone
      let ?t = "(deleteKeyUnlocked key s)\<lparr>expiredCount := expiredCount s + 1\<rparr>"
      have "sample_loop now ord (c + 1) (x + 1) ?t = (s', x')"
        using "2.prems" Some gone by (simp add: deleteKeyLocked_def)
      then have IH: "store_inv s' \<and> shrinks ?t s' \<and>
          (\<forall>k it. map_of (sdata ?t) k = Some it \<and> \<not> expired_at now it \<longrightarrow> map_of (sdata s') k = Some it) \<and>
          x + 1 \<le> x' \<and> expiredCount s' = expiredCount ?t + int (x' - (x + 1)) \<and> x' \<le> x + 1 + (20 - (c + 1))"
        using "2.IH"(2) [OF Some gone refl, of s' x'] "2.prems"(1)
        by (simp add: deleteKeyLocked_def delete_inv)
      have "shrinks s s'"
        using IH shrinks_trans [of s ?t s'] delete_shrinks [of s key] by simp
      moreover have "map_of (sdata s') k = Some j" if "map_of (sdata s) k = Some j" "\<not> expired_at now j" for k j
        using IH that Some gone(2) by (cases "k = key") auto
      ultimately show ?thesis using IH gone(1) by auto
    next
      case stay
      with "2.IH"(3) [OF Some stay, of s' x'] "2.prems" Some show ?thesis by auto
    qed
  qed
qed simp

lemma sweep_loop_facts:
  "store_inv s \<Longrightarrow> store_inv (sweep_loop now ord s) \<and> shrinks s (sweep_loop now ord s) \<and>
   expiredCount (sweep_loop now ord s) = expiredCount s \<and>
   (\<forall>k it. map_of (sdata s) k = Some it \<longrightarrow>
      (if expired_at now it \<and> k \<in> set ord then map_of (sdata (sweep_loop now ord s)) k = None
       else map_of (sdata (sweep_loop now ord s)) k = Some it))"
proof (induction now ord s rule: sweep_loop.induct)
  case (2 now key ord s)
  show ?case
  proof (cases "map_of (sdata s) key")
    case None
    with 2 show ?thesis by (auto simp: None)
  next
    case (Some it)
    let ?t = "if expired_at now it then deleteKeyUnlocked key s else s"
    have t: "store_inv ?t" "shrinks s ?t" using "2.prems" by (auto simp: delete_inv delete_shrinks)
    have e: "sweep_loop now (key # ord) s = sweep_loop now ord ?t"
      using Some by (simp add: deleteKeyLocked_def)
    note IH = "2.IH"(2) [OF Some, unfolded deleteKeyLocked_def, OF t(1)]
    then have sh: "shrinks ?t (sweep_loop now ord ?t)" by blast
    have nk: "map_of (sdata (sweep_loop now ord ?t)) key = None" if "expired_at now it"
      using shrinks_lookup [OF sh, of key] that by (cases "map_of (sdata (sweep_loop now ord ?t)) key") auto
    have "if expired_at now j \<and> k \<in> set (key # ord) then map_of (sdata (sweep_loop now ord ?t)) k = None
       else map_of (sdata (sweep_loop now ord ?t)) k = Some j" if "map_of (sdata s) k = Some j" for k j
      using IH Some nk that by (cases "k = key") (auto split: if_splits)
    moreover have "expiredCount (sweep_loop now ord ?t) = expiredCount s" using IH by simp
    ultimately show ?thesis
      unfolding e using IH shrinks_trans [OF t(2) sh] by blast
  qed
qed simp

lemma activeExpire_inv [inv_keep]:
  assumes "store_inv s"
  shows "store_inv (activeExpire now ord ord2 s)" "shrinks s (activeExpire now ord ord2 s)"
    "map_of (sdata s) k = Some it \<Longrightarrow> \<not> expired_at now it \<Longrightarrow>
     map_of (sdata (activeExpire now ord ord2 s)) k = Some it"
proof -
  obtain t x where t: "sample_loop now ord 0 0 s = (t, x)" by fastforce
  note f = sample_loop_facts [OF assms t]
  then have g: "store_inv t" "shrinks s t" by auto
  note w = sweep_loop_facts [OF g(1), of now ord2]
  have e: "activeExpire now ord ord2 s =
      (if sdata s = [] then s else if x > 10 then sweep_loop now ord2 t else t)"
    by (simp add: activeExpire_def t)
  show "store_inv (activeExpire now ord ord2 s)" using assms g w by (simp add: e)
  show "shrinks s (activeExpire now ord ord2 s)"
    using g w shrinks_trans [OF g(2)] by (simp add: e)
  show "map_of (sdata s) k = Some it \<Longrightarrow> \<not> expired_at now it \<Longrightarrow>
     map_of (sdata (activeExpire now ord ord2 s)) k = Some it"
    using f w by (auto simp: e)
qed

section \<open>Restoring a snapshot\<close>

definition restored :: "int \<Rightarrow> SnapshotEntry \<Rightarrow> bool" where
  "restored now e \<longleftrightarrow> \<not> (seExpiresAt e > 0 \<and> now > seExpiresAt e)"

definition entry_item :: "int \<Rightarrow> SnapshotEntry \<Rightarrow> int \<Rightarrow> item" where
  "entry_item now e i = \<lparr>iValue = seValue e, iType = seType e, iExpiresAt = seExpiresAt e,
     iSize = estimateItemSize (seKey e) (seValue e), iFreq = 1, iLastAccess = now, iAccessID = i\<rparr>"

definition restore_one :: "int \<Rightarrow> SnapshotEntry \<Rightarrow> store \<Rightarrow> store" where
  "restore_one now e s =
     (let it = entry_item now e (accessCounter s + 1)
      in pushHeaps (seKey e) it
        (s\<lparr>accessCounter := accessCounter s + 1, sdata := AList.update (seKey e) it (sdata s),
           usedMemory := usedMemory s + iSize it,
           ring := (if iExpiresAt it = 0 then addFIFOUnlocked (seKey e) (ring s) else ring s)\<rparr>))"

lemma restore_loop_Cons:
  "restore_loop now (e # es) s = restore_loop now es (if restored now e then restore_one now e s else s)"
  by (simp add: restored_def restore_one_def entry_item_def nextAccessID_def Let_def)

lemma restore_one_sdata [simp]:
  "sdata (restore_one now e s) = AList.update (seKey e) (entry_item now e (accessCounter s + 1)) (sdata s)"
  by (simp add: restore_one_def Let_def)

lemma restore_one_inv:
  assumes inv: "store_inv s" and new: "seKey e \<notin> keys (sdata s)"
  shows "store_inv (restore_one now e s)"
proof -
  have absent: "map_of (sdata s) (seKey e) = None" using new by (simp add: map_of_eq_None_iff)
  have "data_ok (restore_one now e s)"
    using inv absent
    by (auto simp: store_inv_def data_ok_def msum_update restore_one_def Let_def) (auto simp: entry_item_def)
  moreover have "ring_ok {} (restore_one now e s)"
  proof -
    have ok: "fifo_ok (ring s)" "distinct (live (ring s))" "set (live (ring s)) = persistent s"
      using inv by (auto simp: store_inv_def ring_ok_def)
    have "seKey e \<notin> persistent s" using absent by (auto simp: persistent_def)
    moreover have "persistent (restore_one now e s) =
        persistent s \<union> (if seExpiresAt e = 0 then {seKey e} - {[]} else {})"
      using absent by (auto simp: persistent_def entry_item_def)
    ultimately show ?thesis
      using ok fq.distinct_add [OF ok(1,2), of "seKey e"] fq.ok_add [OF ok(1), of "seKey e"]
      by (auto simp: ring_ok_def restore_one_def Let_def entry_item_def)
  qed
  moreover have "heaps_ok {} {} (restore_one now e s)"
    unfolding restore_one_def Let_def
    by (rule push_heaps_ok [where s = s]) (use inv in \<open>auto simp: store_inv_def entry_item_def\<close>)
  ultimately show ?thesis by (simp add: store_inv_def)
qed

lemma restore_loop_inv:
  "store_inv s \<Longrightarrow> distinct (map seKey es) \<Longrightarrow> keys (sdata s) \<inter> seKey ` set es = {} \<Longrightarrow>
   store_inv (restore_loop now es s)"
proof (induction es arbitrary: s)
  case (Cons e es)
  have "store_inv (restore_one now e s)"
    using Cons.prems by (intro restore_one_inv) auto
  moreover have "keys (sdata (restore_one now e s)) \<inter> seKey ` set es = {}"
    using Cons.prems unfolding restore_one_sdata keys_update by simp
  ultimately show ?case
    using Cons.prems by (subst restore_loop_Cons) (simp add: Cons.IH)
qed simp

lemma restore_start_inv: "store_inv s \<Longrightarrow> store_inv (s\<lparr>sdata := [], usedMemory := 0, ring := fifo_reset (ring s)\<rparr>)"
  by (auto simp: store_inv_def data_ok_def ring_ok_def persistent_def fifo_ok_reset live_reset
      heaps_ok_def heap_agrees_def)

lemma restore_inv [inv_keep]:
  "store_inv s \<Longrightarrow> distinct (map seKey es) \<Longrightarrow> store_inv (RestoreSnapshot now es s)"
  unfolding RestoreSnapshot_def by (intro restore_loop_inv restore_start_inv) auto

text \<open>What a reader sees of a key: value, type and expiry, unless it is absent or expired.\<close>

definition visible :: "int \<Rightarrow> store \<Rightarrow> string \<Rightarrow> (string \<times> DataType \<times> int) option" where
  "visible now s k = (case map_of (sdata s) k of None \<Rightarrow> None
     | Some it \<Rightarrow> if expired_at now it then None else Some (iValue it, iType it, iExpiresAt it))"

definition entry_view :: "int \<Rightarrow> SnapshotEntry list \<Rightarrow> string \<Rightarrow> (string \<times> DataType \<times> int) option" where
  "entry_view now es k =
     map_of (map (\<lambda>e. (seKey e, seValue e, seType e, seExpiresAt e)) (filter (restored now) es)) k"

lemma restore_loop_view:
  "distinct (map seKey es) \<Longrightarrow> keys (sdata s) \<inter> seKey ` set es = {} \<Longrightarrow>
   visible now (restore_loop now es s) k
     = (case entry_view now es k of Some v \<Rightarrow> Some v | None \<Rightarrow> visible now s k)"
proof (induction es arbitrary: s)
  case (Cons e es)
  have absent: "entry_view now es (seKey e) = None"
    using Cons.prems by (auto simp: entry_view_def map_of_eq_None_iff)
  have "visible now (restore_loop now es (if restored now e then restore_one now e s else s)) k
      = (case entry_view now es k of Some v \<Rightarrow> Some v
         | None \<Rightarrow> visible now (if restored now e then restore_one now e s else s) k)"
  proof (rule Cons.IH)
    show "distinct (map seKey es)" using Cons.prems by simp
    have "keys (sdata (restore_one now e s)) \<inter> seKey ` set es = {}"
      using Cons.prems unfolding restore_one_sdata keys_update by simp
    with Cons.prems show "keys (sdata (if restored now e then restore_one now e s else s)) \<inter> seKey ` set es = {}"
      by simp
  qed
  moreover have "visible now (restore_one now e s) k =
      (if k = seKey e then Some (seValue e, seType e, seExpiresAt e) else visible now s k)"
    if "restored now e"
    using that by (auto simp: visible_def entry_item_def expired_at_def restored_def)
  ultimately show ?case
    using absent
    by (subst restore_loop_Cons) (auto simp: entry_view_def split: option.splits)
qed (simp add: entry_view_def)

lemma snapshot_keys: "set (map seKey (SnapshotEntries now ord s)) \<subseteq> set ord"
  by (auto simp: SnapshotEntries_def split: option.splits if_splits)

lemma snapshot_Cons:
  "SnapshotEntries now (k # ord) s =
     (case map_of (sdata s) k of None \<Rightarrow> []
      | Some v \<Rightarrow> if expired_at now v then []
          else [\<lparr>seKey = k, seValue = iValue v, seType = iType v, seExpiresAt = iExpiresAt v\<rparr>])
     @ SnapshotEntries now ord s"
  by (simp add: SnapshotEntries_def)

lemma snapshot_distinct: "distinct ord \<Longrightarrow> distinct (map seKey (SnapshotEntries now ord s))"
proof (induction ord)
  case (Cons k ord)
  then have "k \<notin> set (map seKey (SnapshotEntries now ord s))"
    using snapshot_keys [of now ord s] by auto
  with Cons show ?case by (auto simp: snapshot_Cons split: option.splits)
qed (simp add: SnapshotEntries_def)

lemma snapshot_view:
  assumes "now \<le> now'"
  shows "distinct ord \<Longrightarrow> entry_view now' (SnapshotEntries now ord s) k = (if k \<in> set ord then visible now' s k else None)"
proof (induction ord)
  case (Cons j ord)
  then show ?case
    using assms
    by (auto simp: snapshot_Cons entry_view_def visible_def restored_def expired_at_def split: option.splits)
qed (simp add: SnapshotEntries_def entry_view_def)

end
