(* ===== verification/Fas_Store_Props.thy ===== *)
theory Fas_Store_Props
  imports Fas_Store_Ops
begin

text \<open>
  The properties of the store: its reachable states, what a sequence of operations leaves
  visible, the memory limit under each eviction policy, the choice of victims, expiry and
  snapshots.
\<close>

section \<open>Runs\<close>

text \<open>
  One step of the store is one exported operation. \<^verbatim>\<open>Get\<close> may have made its first lookup
  in an earlier state \<open>sr\<close>; a time to live is zero or positive.
\<close>

inductive store_step :: "store \<Rightarrow> store \<Rightarrow> bool" where
  set: "proper_ttl ttl now2 \<Longrightarrow> store_step s (Set key val ttl now now2 ord s)"
| get: "store_step s (snd (getWithNow key now sr s))"
| delete: "store_step s (Delete key s)"
| expire: "store_step s (activeExpire now ord ord2 s)"
| restore: "distinct (map seKey es) \<Longrightarrow> store_step s (RestoreSnapshot now es s)"

inductive store_reach :: "int \<Rightarrow> EvictionPolicy \<Rightarrow> store \<Rightarrow> bool" for m p where
  new: "store_reach m p (New m p)"
| step: "store_reach m p s \<Longrightarrow> store_step s t \<Longrightarrow> store_reach m p t"

inductive_cases store_stepE: "store_step s t"

lemma step_inv: "store_step s t \<Longrightarrow> store_inv s \<Longrightarrow> store_inv t"
  by (erule store_stepE) (auto simp: Delete_def intro: inv_keep)

lemma reach_inv: "store_reach m p s \<Longrightarrow> store_inv s"
  by (induction rule: store_reach.induct) (auto intro: store_inv_New step_inv)

text \<open>A run as data: a list of operations, and the plain map a client believes in.\<close>

datatype store_op =
    OpSet string string int int int "string list"
  | OpGet string int
  | OpDelete string
  | OpExpire int "string list" "string list"

fun run_op :: "store_op \<Rightarrow> store \<Rightarrow> store" where
  "run_op (OpSet key val ttl now now2 ord) s = Set key val ttl now now2 ord s"
| "run_op (OpGet key now) s = snd (Get key now s)"
| "run_op (OpDelete key) s = Delete key s"
| "run_op (OpExpire now ord ord2) s = activeExpire now ord ord2 s"

fun op_ok :: "store_op \<Rightarrow> bool" where
  "op_ok (OpSet key val ttl now now2 ord) = proper_ttl ttl now2"
| "op_ok _ = True"

fun client_op :: "store_op \<Rightarrow> (string \<rightharpoonup> string) \<Rightarrow> (string \<rightharpoonup> string)" where
  "client_op (OpSet key val ttl now now2 ord) m = m(key \<mapsto> val)"
| "client_op (OpDelete key) m = m(key := None)"
| "client_op _ m = m"

definition run_ops :: "store_op list \<Rightarrow> store \<Rightarrow> store" where
  "run_ops ops s = fold run_op ops s"

definition client_map :: "store_op list \<Rightarrow> (string \<rightharpoonup> string)" where
  "client_map ops = fold client_op ops Map.empty"

definition values_of :: "store \<Rightarrow> (string \<rightharpoonup> string)" where
  "values_of s = (\<lambda>k. map_option iValue (map_of (sdata s) k))"

lemma values_shrinks: "shrinks s t \<Longrightarrow> values_of t \<subseteq>\<^sub>m values_of s"
  by (auto simp: map_le_def values_of_def dest: shrinks_lookup)

lemma values_set_core: "values_of (set_core key val ttl now now2 s) = (values_of s)(key \<mapsto> val)"
  by (auto simp: values_of_def new_item_def)

lemma values_delete: "values_of (Delete key s) = (values_of s)(key := None)"
  by (auto simp: values_of_def Delete_def)

lemma values_get: "values_of (snd (Get key now s)) \<subseteq>\<^sub>m values_of s"
  by (auto simp: Get_def getWithNow_split getUnlocked_cases values_of_def map_le_def split: option.splits if_splits)

lemma run_op_inv: "store_inv s \<Longrightarrow> op_ok x \<Longrightarrow> store_inv (run_op x s)"
  by (cases x) (auto simp: Get_def Delete_def intro: inv_keep)

lemma run_op_values:
  assumes "store_inv s" "op_ok x" "values_of s \<subseteq>\<^sub>m m"
  shows "values_of (run_op x s) \<subseteq>\<^sub>m client_op x m"
proof (cases x)
  case (OpSet key val ttl now now2 ord)
  have "values_of (run_op x s) \<subseteq>\<^sub>m (values_of s)(key \<mapsto> val)"
    using values_shrinks [OF set_shrinks [OF assms(1)]] assms(2) OpSet
    by (simp add: values_set_core)
  also have "(values_of s)(key \<mapsto> val) \<subseteq>\<^sub>m m(key \<mapsto> val)" using assms(3) by (rule map_le_upd)
  finally (map_le_trans) show ?thesis using OpSet by simp
next
  case (OpDelete key)
  then show ?thesis using assms(3) by (auto simp: values_delete map_le_def)
next
  case (OpGet key now)
  then show ?thesis using map_le_trans [OF values_get assms(3)] by simp
next
  case (OpExpire now ord ord2)
  then show ?thesis
    using map_le_trans [OF values_shrinks [OF activeExpire_inv(2) [OF assms(1)]] assms(3)] by simp
qed

lemma run_ops_values:
  "store_inv s \<Longrightarrow> list_all op_ok ops \<Longrightarrow> values_of s \<subseteq>\<^sub>m m \<Longrightarrow>
   store_inv (run_ops ops s) \<and> values_of (run_ops ops s) \<subseteq>\<^sub>m fold client_op ops m"
proof (induction ops arbitrary: s m)
  case (Cons x ops)
  then have "store_inv (run_op x s)" "values_of (run_op x s) \<subseteq>\<^sub>m client_op x m"
    by (auto intro: run_op_inv run_op_values)
  with Cons show ?case by (simp add: run_ops_def)
qed (simp add: run_ops_def)

lemma get_value: "fst (Get key now s) = Inr v \<Longrightarrow> values_of s key = Some v"
  by (auto simp: Get_def getWithNow_split getUnlocked_cases values_of_def split: option.splits if_splits)

section \<open>A state to try things on\<close>

text \<open>Two keys of 102 bytes each, accessed at the times 1 and 2, under a limit of 150 bytes.\<close>

definition demo_item :: "string \<Rightarrow> int \<Rightarrow> int \<Rightarrow> item" where
  "demo_item v e n = \<lparr>iValue = v, iType = TypeString, iExpiresAt = e, iSize = 102, iFreq = n,
     iLastAccess = n, iAccessID = n\<rparr>"

definition demo :: "EvictionPolicy \<Rightarrow> store" where
  "demo p = \<lparr>sdata = [(''a'', demo_item ''x'' 0 1), (''b'', demo_item ''y'' 0 2)],
     maxMemory = 150, usedMemory = 204, evictionPolicy = p,
     ring = \<lparr>fifoKeys = [''a'', ''b'', [], []], fifoHead = 0, fifoTail = 2, fifoSize = 2, fifoCap = 4, tombs = 0\<rparr>,
     evictTTLWhenFull = True, expiredCount = 0, accessCounter = 2,
     lruHeap = [lru_entry ''a'' (demo_item ''x'' 0 1), lru_entry ''b'' (demo_item ''y'' 0 2)],
     lfuHeap = [lfu_entry ''a'' (demo_item ''x'' 0 1), lfu_entry ''b'' (demo_item ''y'' 0 2)]\<rparr>"

lemma demo_inv: "store_inv (demo p)"
proof -
  have "data_ok (demo p)"
    by (auto simp: data_ok_def demo_def demo_item_def estimateItemSize_def split: if_splits)
  moreover have "live (ring (demo p)) = [''a'', ''b'']"
    by (simp add: demo_def live_def ring_list_def window_def upt_rec)
  then have "ring_ok {} (demo p)"
    by (auto simp: ring_ok_def persistent_def demo_def demo_item_def fifo_ok_def split: if_splits)
  moreover have "heap_order lru_le (lruHeap (demo p))" "heap_order lfu_le (lfuHeap (demo p))"
    by (auto simp: heap_order_def demo_def lru_le_def lfu_le_def lru_entry_def lfu_entry_def demo_item_def less_Suc_eq)
  then have "heaps_ok {} {} (demo p)"
    by (auto simp: heaps_ok_def heap_agrees_def)
      (auto simp: demo_def lru_entry_def lfu_entry_def demo_item_def split: if_splits)
  ultimately show ?thesis by (simp add: store_inv_def)
qed

section \<open>Invariant and accounting\<close>

text \<open>C1: every state the store can reach through its operations satisfies the invariant:
  memory accounting, agreement of the ring with the keys without a time to live, order and
  freshness of both heaps.\<close>

theorem store_reach_inv: "store_reach m p s \<Longrightarrow> store_inv s"
  by (rule reach_inv)

theorem store_reach_inv_witness:
  "store_inv (Set ''k'' ''v'' 0 1 1 [''k''] (New 250 EvictionAllKeysLRU))"
  by (rule store_reach_inv [where m = 250 and p = EvictionAllKeysLRU])
    (auto intro!: store_reach.step [OF store_reach.new] store_step.set simp: proper_ttl_def)

text \<open>In every reachable state the memory counter is the sum over the stored keys of key
  length, value length and the overhead of 100 bytes; no key is stored twice.\<close>

lemma store_accounting:
  assumes "store_reach m p s"
  shows "distinct (map fst (sdata s)) \<and>
    usedMemory s = sum_list (map (\<lambda>(k, it). int (length k + length (iValue it)) + 100) (sdata s))"
proof -
  have ok: "data_ok s" using reach_inv [OF assms] by (simp add: store_inv_def)
  have "msum iSize (sdata s) = sum_list (map (\<lambda>(k, it). int (length k + length (iValue it)) + 100) (sdata s))"
    unfolding msum_def
    by (rule arg_cong [of _ _ sum_list], rule map_cong)
      (use ok in \<open>auto simp: data_ok_def map_of_eq_Some_iff estimateItemSize_def\<close>)
  with ok show ?thesis by (simp add: data_ok_def)
qed

section \<open>What clients see\<close>

text \<open>C2: whatever a run of operations did, and whatever the policy evicted, a value that
  \<^verbatim>\<open>Get\<close> returns is the value of the last \<^verbatim>\<open>Set\<close> of that key that no
  \<^verbatim>\<open>Delete\<close> undid: the store may forget, it never returns a wrong value.\<close>

theorem get_accurate:
  assumes "list_all op_ok ops" "fst (Get key now (run_ops ops (New m p))) = Inr v"
  shows "client_map ops key = Some v"
proof -
  have "values_of (New m p) \<subseteq>\<^sub>m Map.empty" by (simp add: values_of_def New_def map_le_def)
  then have "values_of (run_ops ops (New m p)) \<subseteq>\<^sub>m client_map ops"
    using run_ops_values [OF store_inv_New assms(1)] by (simp add: client_map_def)
  with get_value [OF assms(2)] show ?thesis by (auto simp: map_le_def dom_def)
qed

theorem get_accurate_witness:
  "client_map [OpSet ''k'' ''v'' 0 1 1 []] ''k'' = Some ''v''"
proof (rule get_accurate [where m = 0 and p = EvictionAllKeysRandom and now = 2])
  show "list_all op_ok [OpSet ''k'' ''v'' 0 1 1 []]" by (simp add: proper_ttl_def)
  show "fst (Get ''k'' 2 (run_ops [OpSet ''k'' ''v'' 0 1 1 []] (New 0 EvictionAllKeysRandom))) = Inr ''v''"
    by (simp add: run_ops_def Set_def setUnlocked_core evictIfNeeded_def Get_def getWithNow_split
        getUnlocked_cases New_def new_item_def expired_at_def)
qed

text \<open>A \<^verbatim>\<open>Set\<close> that needs no eviction is what the next \<^verbatim>\<open>Get\<close> of the key returns
  until it expires, and it leaves every other key as it was.\<close>

lemma set_get:
  assumes "maxMemory s \<le> 0 \<or> usedMemory s - (case map_of (sdata s) key of None \<Rightarrow> 0 | Some it \<Rightarrow> iSize it)
      + estimateItemSize key val \<le> maxMemory s"
    and "ttl > 0 \<longrightarrow> wrap64 (now2 + ttl) \<le> 0 \<or> now' \<le> wrap64 (now2 + ttl)"
  shows "fst (Get key now' (Set key val ttl now now2 ord s)) = Inr val \<and>
    (\<forall>k. k \<noteq> key \<longrightarrow> map_of (sdata (Set key val ttl now now2 ord s)) k = map_of (sdata s) k)"
proof -
  have "Set key val ttl now now2 ord s = set_core key val ttl now now2 s"
    using assms(1) by (simp add: Set_def setUnlocked_core evictIfNeeded_def)
  with assms(2) show ?thesis
    by (auto simp: Get_def getWithNow_split getUnlocked_cases new_item_def expired_at_def)
qed

text \<open>A store without a limit never evicts.\<close>

lemma unlimited_set:
  "maxMemory s \<le> 0 \<Longrightarrow> Set key val ttl now now2 ord s = set_core key val ttl now now2 s"
  by (simp add: Set_def setUnlocked_core evictIfNeeded_def)

fun no_ttl :: "store_op \<Rightarrow> bool" where
  "no_ttl (OpSet key val ttl now now2 ord) = (ttl = 0)"
| "no_ttl _ = True"

definition plain :: "store \<Rightarrow> bool" where
  "plain s \<longleftrightarrow> maxMemory s \<le> 0 \<and> (\<forall>k it. map_of (sdata s) k = Some it \<longrightarrow> iExpiresAt it = 0 \<and> iType it = TypeString)"

lemma plain_op:
  assumes "plain s" "no_ttl x" "store_inv s"
  shows "plain (run_op x s) \<and> values_of (run_op x s) = client_op x (values_of s)"
proof (cases x)
  case (OpSet key val ttl now now2 ord)
  with assms show ?thesis
    by (auto simp: plain_def unlimited_set values_set_core new_item_def)
next
  case (OpGet key now)
  with assms show ?thesis
    by (auto simp: plain_def Get_def getWithNow_split getUnlocked_cases values_of_def expired_at_def
        split: option.splits)
next
  case (OpDelete key)
  with assms show ?thesis by (simp add: values_delete) (simp add: plain_def Delete_def)
next
  case (OpExpire now ord ord2)
  have sh: "shrinks s (activeExpire now ord ord2 s)" by (rule activeExpire_inv(2) [OF assms(3)])
  have eq: "map_of (sdata (activeExpire now ord ord2 s)) k = map_of (sdata s) k" for k
  proof (cases "map_of (sdata s) k")
    case None
    then show ?thesis using shrinks_lookup [OF sh, of k] by (metis option.exhaust option.distinct(1))
  next
    case (Some it)
    moreover have "\<not> expired_at now it" using assms(1) Some by (simp add: plain_def expired_at_def)
    ultimately show ?thesis using activeExpire_inv(3) [OF assms(3)] by simp
  qed
  have "maxMemory (activeExpire now ord ord2 s) = maxMemory s" using sh by (simp add: shrinks_def)
  with OpExpire assms(1) eq show ?thesis by (auto simp: plain_def values_of_def)
qed

lemma plain_ops:
  "plain s \<Longrightarrow> list_all no_ttl ops \<Longrightarrow> store_inv s \<Longrightarrow>
   plain (run_ops ops s) \<and> values_of (run_ops ops s) = fold client_op ops (values_of s)"
proof (induction ops arbitrary: s)
  case (Cons x ops)
  have "op_ok x" using Cons.prems by (cases x) (auto simp: proper_ttl_def)
  with Cons.prems have "store_inv (run_op x s)" "plain (run_op x s)"
    "values_of (run_op x s) = client_op x (values_of s)"
    by (auto intro: run_op_inv dest: plain_op)
  with Cons show ?case by (simp add: run_ops_def)
qed (simp add: run_ops_def)

lemma plain_get:
  "plain s \<Longrightarrow> fst (Get key now s) = (case values_of s key of None \<Rightarrow> Inl ErrNotFound | Some v \<Rightarrow> Inr v)"
  by (auto simp: plain_def Get_def getWithNow_split getUnlocked_cases values_of_def expired_at_def map_of_key_cases
      split: option.splits)

text \<open>C3: without a memory limit and without times to live the store is a map: after any run
  of operations \<^verbatim>\<open>Get\<close> answers exactly what the client's own map holds.\<close>

theorem unlimited_store_is_map:
  assumes "list_all no_ttl ops" "m \<le> 0"
  shows "fst (Get key now (run_ops ops (New m p))) =
    (case client_map ops key of None \<Rightarrow> Inl ErrNotFound | Some v \<Rightarrow> Inr v)"
proof -
  have "plain (New m p)" "values_of (New m p) = Map.empty"
    using assms(2) by (auto simp: plain_def New_def values_of_def)
  with plain_ops [OF _ assms(1) store_inv_New, of m p] show ?thesis
    by (simp add: client_map_def plain_get)
qed

theorem unlimited_store_is_map_witness:
  "fst (Get ''a'' 5 (run_ops [OpSet ''a'' ''1'' 0 1 1 [], OpSet ''a'' ''2'' 0 2 2 [], OpGet ''a'' 3, OpDelete ''b'']
     (New 0 EvictionNoEviction))) = Inr ''2''"
  using unlimited_store_is_map [of "[OpSet ''a'' ''1'' 0 1 1 [], OpSet ''a'' ''2'' 0 2 2 [], OpGet ''a'' 3, OpDelete ''b'']"
      0 "''a''" 5 EvictionNoEviction]
  by (simp add: client_map_def)

section \<open>The memory limit\<close>

text \<open>C13: after a \<^verbatim>\<open>Set\<close> the memory is within the limit, or every key left is one the
  policy does not evict: under the FIFO policy only the empty key without expiry (or a key
  whose expiry wrapped to a negative time), under volatile-random keys without a time to live, under LRU and LFU anything once the
  empty key is stored, and never anything under allkeys-random.\<close>

theorem set_memory_limit:
  assumes "store_reach m p s" "0 < maxMemory s" "proper_ttl ttl now2" "insert key (keys (sdata s)) \<subseteq> set ord"
    and t: "t = Set key val ttl now now2 ord s"
  shows "usedMemory t \<le> maxMemory t \<or>
    (\<forall>k it. map_of (sdata t) k = Some it \<longrightarrow> spared (set_core key val ttl now now2 s) k it)"
proof -
  have "evicted_to (spared (set_core key val ttl now now2 s)) (set_core key val ttl now now2 s) t"
    unfolding t Set_def setUnlocked_core
    by (rule evictIfNeeded_to) (use assms set_core_inv [OF reach_inv] in \<open>auto simp: dom_update\<close>)
  then show ?thesis by (simp add: evicted_to_def)
qed

theorem set_memory_limit_witness:
  "usedMemory (Set ''k'' ''v'' 0 1 1 [''k''] (New 50 EvictionAllKeysRandom)) \<le>
   maxMemory (Set ''k'' ''v'' 0 1 1 [''k''] (New 50 EvictionAllKeysRandom))"
proof -
  let ?t = "Set ''k'' ''v'' 0 1 1 [''k''] (New 50 EvictionAllKeysRandom)"
  have "usedMemory ?t \<le> maxMemory ?t \<or> (\<forall>k it. map_of (sdata ?t) k = Some it \<longrightarrow>
      spared (set_core ''k'' ''v'' 0 1 1 (New 50 EvictionAllKeysRandom)) k it)"
    by (rule set_memory_limit [OF store_reach.new]) (auto simp: New_def proper_ttl_def)
  moreover have "sdata ?t = []"
    by (simp add: Set_def setUnlocked_core evictIfNeeded_def New_def estimateItemSize_def deleteKeyLocked_def)
  then have "usedMemory ?t = 0 \<and> maxMemory ?t = 50"
    using set_inv [OF store_inv_New, of 0 1 "''k''" "''v''" 1 "[''k'']" 50 EvictionAllKeysRandom]
      set_shrinks [OF store_inv_New, of 0 1 "''k''" "''v''" 1 50 EvictionAllKeysRandom "[''k'']"]
    by (auto simp: store_inv_def used_empty proper_ttl_def shrinks_def New_def)
  ultimately show ?thesis by simp
qed

text \<open>C14: under LRU and LFU, as long as no client has stored the empty key, a \<^verbatim>\<open>Set\<close>
  always ends within the memory limit.\<close>

theorem set_limit_lru_lfu:
  assumes "store_reach m p s" "0 < maxMemory s" "proper_ttl ttl now2"
    and "evictionPolicy s = EvictionAllKeysLRU \<or> evictionPolicy s = EvictionAllKeysLFU"
    and "key \<noteq> []" "[] \<notin> keys (sdata s)"
  shows "usedMemory (Set key val ttl now now2 ord s) \<le> maxMemory s"
proof -
  let ?c = "set_core key val ttl now now2 s"
  have inv: "store_inv ?c" using assms by (intro set_core_inv reach_inv)
  have ne: "[] \<notin> keys (sdata ?c)" using assms(5,6) unfolding set_core_fields keys_update by simp
  have "evicted_to (\<lambda>k it. False) ?c (evictIfNeeded ord ?c)"
    using assms(2,4) inv ne lrue.evict_to [OF inv] lfue.evict_to [OF inv]
    by (auto simp: evictIfNeeded_def evicted_to_def)
  with evicted_to_empty [OF this] assms(2) show ?thesis
    by (auto simp: Set_def setUnlocked_core evicted_to_def shrinks_def)
qed

theorem set_limit_lru_lfu_witness:
  "usedMemory (Set ''k'' ''v'' 0 1 1 [] (New 50 EvictionAllKeysLRU)) \<le> 50"
  using set_limit_lru_lfu [OF store_reach.new, of 50 EvictionAllKeysLRU 0 1 "''k''" "''v''" 1 "[]"]
  by (simp add: New_def proper_ttl_def)

section \<open>The choice of victims\<close>

text \<open>
  C15: LRU eviction removes the least recently used keys: no key it evicts was accessed
  later than a key it leaves, and it leaves items unchanged. This holds of the keys it leaves other than the
  empty key: that one, once stored, is taken off the heap as if nothing had been found, so it stays
  while keys that were used after it are evicted.
\<close>
theorem lru_evicts_oldest:
  assumes "store_inv s" "map_of (sdata s) k = Some it" "map_of (sdata (evictLRU s)) k = None"
    and "map_of (sdata (evictLRU s)) k' = Some it'" "k' \<noteq> []"
  shows "iLastAccess it \<le> iLastAccess it' \<and> map_of (sdata s) k' = Some it'"
  using lrue.evict_oldest [OF assms] shrinks_lookup [OF _ assms(4)] lrue.evict_to [OF assms(1)]
  by (auto simp: lru_le_def lru_entry_def evicted_to_def)

theorem lru_evicts_oldest_witness:
  "iLastAccess (demo_item ''x'' 0 1) \<le> iLastAccess (demo_item ''y'' 0 2) \<and>
   map_of (sdata (demo EvictionAllKeysLRU)) ''b'' = Some (demo_item ''y'' 0 2)"
  by (rule lru_evicts_oldest [OF demo_inv, where k = "''a''" and k' = "''b''"]) code_simp+

text \<open>LFU eviction removes the least frequently used keys, the least recently used among
  equally frequent ones: no key it evicts has a higher access count than a key it leaves, or
  the same count and a later access.\<close>

lemma lfu_evicts_rarest:
  assumes "store_inv s" "map_of (sdata s) k = Some it" "map_of (sdata (evictLFU s)) k = None"
    and "map_of (sdata (evictLFU s)) k' = Some it'" "k' \<noteq> []"
  shows "iFreq it < iFreq it' \<or> iFreq it = iFreq it' \<and> iLastAccess it \<le> iLastAccess it'"
  using lfue.evict_oldest [OF assms] by (auto simp: lfu_le_def lfu_entry_def)

text \<open>C16: the FIFO loop of the default policy evicts keys in insertion order: what it deletes is
  a prefix of the queue of keys without a time to live, and the rest stays queued in order.\<close>

theorem fifo_evicts_in_order:
  assumes "store_inv s"
  shows "\<exists>n. live (ring (evict_fifo s)) = drop n (live (ring s)) \<and>
    keys (sdata (evict_fifo s)) = keys (sdata s) - set (take n (live (ring s)))"
  using assms by (rule evict_fifo_oldest)

theorem fifo_evicts_in_order_witness:
  "\<exists>n. live (ring (evict_fifo (demo EvictionNoEviction))) = drop n [''a'', ''b''] \<and>
    keys (sdata (evict_fifo (demo EvictionNoEviction))) = {''a'', ''b''} - set (take n [''a'', ''b''])"
proof -
  have "live (ring (demo EvictionNoEviction)) = [''a'', ''b'']"
    by (simp add: demo_def live_def ring_list_def window_def upt_rec)
  moreover have "keys (sdata (demo EvictionNoEviction)) = {''a'', ''b''}" by (simp add: demo_def)
  ultimately show ?thesis using fifo_evicts_in_order [OF demo_inv, of EvictionNoEviction] by simp
qed

lemma evictRandom_volatile:
  "map_of (sdata s) k = Some it \<Longrightarrow> iExpiresAt it = 0 \<Longrightarrow> map_of (sdata (evictRandom True ord s)) k = Some it"
proof (induction ord arbitrary: s)
  case (Cons key ord)
  show ?case
  proof (cases "map_of (sdata s) key")
    case (Some x)
    then have "iExpiresAt x \<noteq> 0 \<Longrightarrow> map_of (sdata (deleteKeyUnlocked key s)) k = Some it"
      using Cons.prems by auto
    with Some Cons show ?thesis by (simp add: deleteKeyLocked_def)
  qed (use Cons in simp)
qed simp

text \<open>Under volatile-random a \<^verbatim>\<open>Set\<close> never evicts another key that has no time to
  live.\<close>

lemma volatile_random_spares:
  assumes "evictionPolicy s = EvictionVolatileRandom" "k \<noteq> key" "map_of (sdata s) k = Some it" "iExpiresAt it = 0"
  shows "map_of (sdata (Set key val ttl now now2 ord s)) k = Some it"
  using assms
  by (auto simp: Set_def setUnlocked_core evictIfNeeded_def intro: evictRandom_volatile)

section \<open>Get and expiry\<close>

lemma Get_unlocked: "Get key now s = getUnlockedWithNow key now s"
proof (cases "map_of (sdata s) key")
  case None
  then show ?thesis by (simp add: Get_def getWithNow_split getUnlocked_cases)
next
  case (Some it)
  then show ?thesis by (simp add: Get_def getWithNow_split map_of_key_cases)
qed

text \<open>The answers of \<^verbatim>\<open>Get\<close>: a value exactly for a string item that has not expired,
  \<^verbatim>\<open>ErrWrongType\<close> exactly for an unexpired item of another type, \<^verbatim>\<open>ErrNotFound\<close>
  otherwise; and reading is invisible: at any later time every key shows the same value, type
  and expiry as before the call.\<close>

lemma get_answers:
  assumes "now \<le> now'"
  shows "fst (Get key now s) = (case visible now s key of
      None \<Rightarrow> Inl ErrNotFound
    | Some (v, t, e) \<Rightarrow> if t = TypeString then Inr v else Inl ErrWrongType) \<and>
    visible now' (snd (Get key now s)) k = visible now' s k"
proof (cases "map_of (sdata s) key")
  case None
  then show ?thesis by (simp add: Get_unlocked getUnlocked_cases visible_def)
next
  case (Some it)
  with assms show ?thesis
    by (auto simp: Get_unlocked getUnlocked_cases visible_def expired_at_def)
qed

text \<open>The two lock phases of \<^verbatim>\<open>getWithNow\<close> are linearizable: whatever other
  goroutines did to the store between the phases, the call behaves as an atomic \<^verbatim>\<open>Get\<close> at
  the second phase, or as an atomic \<^verbatim>\<open>Get\<close> at the first phase that found no key and
  changed nothing.\<close>

lemma get_two_phase:
  "getWithNow key now sr s = Get key now s \<or>
   getWithNow key now sr s = (Inl ErrNotFound, s) \<and> Get key now sr = (Inl ErrNotFound, sr)"
proof (cases "map_of (sdata sr) key")
  case None
  then have "key \<notin> keys (sdata sr)" by (simp add: map_of_eq_None_iff)
  with None show ?thesis by (simp add: Get_unlocked getUnlocked_cases getWithNow_split)
next
  case (Some it)
  then show ?thesis by (simp add: Get_unlocked getWithNow_split map_of_key_cases)
qed

text \<open>The lock-free variants used by the single-threaded mode answer and update exactly as
  the locking ones.\<close>

lemma unsafe_variants_agree:
  "UnsafeGet key now s = Get key now s \<and>
   UnsafeSet key val ttl now now2 ord s = Set key val ttl now now2 ord s"
  by (simp add: UnsafeGet_def Get_unlocked UnsafeSet_def Set_def)

text \<open>C26: active expiry deletes expired keys only, keeps every other item unchanged and keeps
  the invariant; if more than ten of the at most twenty sampled keys were expired, the extra
  pass leaves no expired key behind. The expired counter grows by the sampled keys alone:
  what the extra pass deletes is not counted.\<close>

theorem activeExpire_spec:
  assumes "store_inv s" "keys (sdata s) \<subseteq> set ord2"
  shows "store_inv (activeExpire now ord ord2 s) \<and>
    (\<forall>k it. map_of (sdata s) k = Some it \<and> \<not> expired_at now it \<longrightarrow>
       map_of (sdata (activeExpire now ord ord2 s)) k = Some it) \<and>
    (\<exists>n \<le> 20. expiredCount (activeExpire now ord ord2 s) = expiredCount s + int n \<and>
       (n > 10 \<longrightarrow> (\<forall>k it. map_of (sdata (activeExpire now ord ord2 s)) k = Some it \<longrightarrow> \<not> expired_at now it)))"
proof -
  obtain t x where t: "sample_loop now ord 0 0 s = (t, x)" by fastforce
  note f = sample_loop_facts [OF assms(1) t]
  then have g: "store_inv t" "shrinks s t" by auto
  note w = sweep_loop_facts [OF g(1), of now ord2]
  have e: "activeExpire now ord ord2 s =
      (if sdata s = [] then s else if x > 10 then sweep_loop now ord2 t else t)"
    by (simp add: activeExpire_def t)
  have clean: "\<not> expired_at now it" if "map_of (sdata (sweep_loop now ord2 t)) k = Some it" for k it
  proof -
    have sh: "shrinks t (sweep_loop now ord2 t)" using w by blast
    have kt: "map_of (sdata t) k = Some it" by (rule shrinks_lookup [OF sh that])
    have "k \<in> set ord2" by (rule subsetD [OF assms(2) map_of_keyD [OF shrinks_lookup [OF g(2) kt]]])
    moreover have "if expired_at now it \<and> k \<in> set ord2 then map_of (sdata (sweep_loop now ord2 t)) k = None
        else map_of (sdata (sweep_loop now ord2 t)) k = Some it"
      using w kt by blast
    ultimately show ?thesis using that by (cases "expired_at now it") simp_all
  qed
  have "\<exists>n \<le> 20. expiredCount (activeExpire now ord ord2 s) = expiredCount s + int n \<and>
       (n > 10 \<longrightarrow> (\<forall>k it. map_of (sdata (activeExpire now ord ord2 s)) k = Some it \<longrightarrow> \<not> expired_at now it))"
  proof (cases "sdata s = []")
    case True
    then show ?thesis by (intro exI [of _ 0]) (simp add: e)
  next
    case False
    have "expiredCount (activeExpire now ord ord2 s) = expiredCount s + int x" "x \<le> 20"
      using False f w by (simp_all add: e)
    moreover have "\<not> expired_at now it" if "x > 10" "map_of (sdata (activeExpire now ord ord2 s)) k = Some it" for k it
      using that clean False by (simp add: e)
    ultimately show ?thesis by blast
  qed
  then show ?thesis using activeExpire_inv [OF assms(1)] by blast
qed

theorem activeExpire_spec_witness:
  "store_inv (activeExpire 9 [''a'', ''b''] [''a'', ''b''] (demo EvictionNoEviction)) \<and>
   map_of (sdata (activeExpire 9 [''a'', ''b''] [''a'', ''b''] (demo EvictionNoEviction))) ''a'' =
     Some (demo_item ''x'' 0 1)"
  using activeExpire_spec [OF demo_inv, of EvictionNoEviction "[''a'', ''b'']" 9 "[''a'', ''b'']"]
  by (simp add: demo_def demo_item_def expired_at_def)

section \<open>Snapshots\<close>

text \<open>Restoring a snapshot brings back what was visible when it was taken: for every key the
  same value, type and expiry, except keys that have expired by the time of the restore.\<close>

lemma snapshot_roundtrip:
  assumes "distinct ord" "keys (sdata s) \<subseteq> set ord" "now \<le> now'"
  shows "visible now' (RestoreSnapshot now' (SnapshotEntries now ord s) s0) k = visible now' s k"
proof -
  have "visible now' (RestoreSnapshot now' (SnapshotEntries now ord s) s0) k =
      (case entry_view now' (SnapshotEntries now ord s) k of Some v \<Rightarrow> Some v | None \<Rightarrow> None)"
    unfolding RestoreSnapshot_def
    by (subst restore_loop_view) (auto simp: snapshot_distinct assms(1) visible_def split: option.splits)
  also have "\<dots> = visible now' s k"
    using assms(2) map_of_keyD [of "sdata s" k]
    by (auto simp: snapshot_view [OF assms(3,1)] visible_def split: option.splits)
  finally show ?thesis .
qed

section \<open>Where the code departs from its intent\<close>

text \<open>The access heaps only grow outside LRU and LFU eviction: every \<^verbatim>\<open>Get\<close> that hits
  adds an entry to both heaps, under every policy, and nothing bounds them by the number of
  keys.\<close>

lemma get_grows_heaps:
  assumes "fst (Get key now s) = Inr v"
  shows "length (lruHeap (snd (Get key now s))) = Suc (length (lruHeap s)) \<and>
    length (lfuHeap (snd (Get key now s))) = Suc (length (lfuHeap s)) \<and>
    map fst (sdata (snd (Get key now s))) = map fst (sdata s)"
proof -
  obtain it where it: "map_of (sdata s) key = Some it" "Get key now s = (Inr v, get_hit key now it s)"
    using assms by (auto simp: Get_unlocked getUnlocked_cases split: option.splits if_splits)
  have "length (lru_push h e) = Suc (length h)" for h e
    using arg_cong [OF lru_push_laws(1), of size h e] by simp
  moreover have "length (lfu_push h e) = Suc (length h)" for h e
    using arg_cong [OF lfu_push_laws(1), of size h e] by simp
  moreover have "map fst (AList.update key j d) = map fst d" if "key \<in> keys d" for j and d :: "item gomap"
    using that by (induction d) auto
  ultimately show ?thesis
    using it map_of_keyD [OF it(1)] by (simp add: get_hit_def Let_def pushHeaps_def)
qed

end
