(* ===== verification/Fas_Server.thy ===== *)
theory Fas_Server
  imports Fas_Config Fas_PubSub Fas_Store_Props
begin

text \<open>
  The server (\<^verbatim>\<open>pkg/server/server.go\<close>, \<^verbatim>\<open>migrate.go\<close>): command execution with slot
  redirection, the replies, the turn of a client connection with its authentication gate,
  replication to and from other servers, snapshots and the restore at start-up.

  What a command reads from outside is a record \<open>env\<close>: the clock, the order in which maps are
  visited, faults of the log device, the result of saving a snapshot and the answers of other
  servers. A command runs as one step on the server; the store and the hub prove separately that
  their operations are safe under interleaving.
\<close>

declare map_of_eq_Some_iff [simp del] Some_eq_map_of_iff [simp del]

section \<open>State\<close>

record server =
  svConfig :: config
  svStore :: store
  svPubsub :: pubsub
  svAof :: "aof option"
  svSnapshot :: "SnapshotEntry list option"
  bgRunning :: bool
  clients :: int
  replicas :: "(nat \<times> command list) list"
  replicaSeq :: nat
  replicaMode :: bool
  masterAddr :: string
  leaderAddr :: string
  selfAddr :: string
  slotCount :: int
  cluster :: ClusterState

record env =
  eNow :: int
  eNow2 :: int
  eOrd :: "string list"
  eFault :: "nat option"
  eSyncOk :: bool
  eSaveError :: "string option"
  eExchange :: "string \<Rightarrow> bytes \<Rightarrow> string + string"

definition addr_of :: "config \<Rightarrow> string" where
  "addr_of c = Host c @ '':'' @ dec_int (Port c)"

text \<open>The error of the validation is dropped, the defaults stay.\<close>

definition NewServer :: "config \<Rightarrow> server" where
  "NewServer config0 =
     (let config = snd (ValidateAndFill config0) in
      \<lparr>svConfig = config, svStore = New (MaxMemory config) (Eviction config), svPubsub = New_pubsub,
       svAof = None, svSnapshot = None, bgRunning = False, clients = 0, replicas = [], replicaSeq = 0,
       replicaMode = (ReplicaOf config \<noteq> []), masterAddr = ReplicaOf config,
       leaderAddr = addr_of config, selfAddr = addr_of config, slotCount = Slots config,
       cluster = NewClusterState (Slots config) (addr_of config)\<rparr>)"

definition isLeader :: "server \<Rightarrow> bool" where
  "isLeader s \<longleftrightarrow> leaderAddr s = selfAddr s"

section \<open>Replicas, snapshots, migration\<close>

definition replica_cap :: nat where "replica_cap = 1024"

definition offer :: "command \<Rightarrow> command list \<Rightarrow> command list" where
  "offer cmd ch = (if length ch < replica_cap then ch @ [cmd] else ch)"

definition broadcastToReplicas :: "command \<Rightarrow> server \<Rightarrow> server" where
  "broadcastToReplicas cmd s =
     (if cName cmd \<noteq> ''SET'' \<and> cName cmd \<noteq> ''PUBLISH'' then s
      else s\<lparr>replicas := map (\<lambda>(rid, ch). (rid, offer cmd ch)) (replicas s)\<rparr>)"

definition saveSnapshot :: "env \<Rightarrow> server \<Rightarrow> string option \<times> server" where
  "saveSnapshot E s =
     (if RDBPath (svConfig s) = [] then (Some ''snapshot path not configured'', s)
      else case eSaveError E of
        Some e \<Rightarrow> (Some e, s)
      | None \<Rightarrow> (None, s\<lparr>svSnapshot := Some (SnapshotEntries (eNow E) (eOrd E) (svStore s))\<rparr>))"

definition startBGSAVE :: "server \<Rightarrow> bool \<times> server" where
  "startBGSAVE s = (if bgRunning s then (False, s) else (True, s\<lparr>bgRunning := True\<rparr>))"

text \<open>The goroutine of \<^verbatim>\<open>startBGSAVE\<close>, a later step.\<close>

definition finishBGSAVE :: "env \<Rightarrow> server \<Rightarrow> server" where
  "finishBGSAVE E s = (snd (saveSnapshot E s))\<lparr>bgRunning := False\<rparr>"

definition store_error_text :: "store_error \<Rightarrow> string" where
  "store_error_text e =
     (case e of
        ErrWrongType \<Rightarrow> ''WRONGTYPE Operation against a key holding the wrong kind of value''
      | ErrNotFound \<Rightarrow> ''key not found'')"

definition migrateKey :: "env \<Rightarrow> string \<Rightarrow> string \<Rightarrow> server \<Rightarrow> string option \<times> server" where
  "migrateKey E key target s =
     (case Get key (eNow E) (svStore s) of
        (Inl e, st) \<Rightarrow> (Some (store_error_text e), s\<lparr>svStore := st\<rparr>)
      | (Inr val, st) \<Rightarrow>
          (case eExchange E target (WriteCommand [''SET'', key, val]) of
             Inl err \<Rightarrow> (Some err, s\<lparr>svStore := st\<rparr>)
           | Inr line \<Rightarrow>
               if line \<noteq> [] \<and> hd line = CHR ''-'' then (Some (''target error: '' @ line), s\<lparr>svStore := st\<rparr>)
               else (None, s\<lparr>svStore := Delete key st\<rparr>)))"

section \<open>Commands\<close>

definition moved :: "int \<Rightarrow> server \<Rightarrow> string option" where
  "moved slot s =
     (let target = Lookup (cluster s) slot in
      if target \<noteq> [] \<and> target \<noteq> selfAddr s then Some (''MOVED '' @ dec_int slot @ '' '' @ target) else None)"

definition arg_slot :: "command \<Rightarrow> server \<Rightarrow> int outcome" where
  "arg_slot cmd s = (case cArgs cmd of [] \<Rightarrow> Ret 0 | k # _ \<Rightarrow> keySlot k (slotCount s))"

text \<open>The two redirections at the head of \<^verbatim>\<open>executeCommand\<close>.\<close>

definition redirect :: "command \<Rightarrow> bool \<Rightarrow> server \<Rightarrow> string option outcome" where
  "redirect cmd replay s =
     (case (if \<not> isLeader s \<and> \<not> replay
            then (case arg_slot cmd s of Panic m \<Rightarrow> Panic m | Ret slot \<Rightarrow> Ret (moved slot s))
            else Ret None) of
        Panic m \<Rightarrow> Panic m
      | Ret (Some r) \<Rightarrow> Ret (Some r)
      | Ret None \<Rightarrow>
          if cArgs cmd \<noteq> []
          then (case keySlot (hd (cArgs cmd)) (slotCount s) of Panic m \<Rightarrow> Panic m | Ret slot \<Rightarrow> Ret (moved slot s))
          else Ret None)"

definition clusterInfo :: "server \<Rightarrow> string" where
  "clusterInfo s = ''cluster_state:ok'' @ [LF] @ ''cluster_slots_assigned:'' @ dec_int (slotCount s) @ [LF] @
     ''cluster_slots_ok:'' @ dec_int (slotCount s) @ [LF] @ ''leader:'' @ leaderAddr s @ [LF]"

definition clusterNodes :: "server \<Rightarrow> string" where
  "clusterNodes s = leaderAddr s @ '' master - 0 0 connected'' @ [LF]"

definition clusterSlots :: "server \<Rightarrow> string" where
  "clusterSlots s = SlotsInfo (cluster s)"

definition info :: "server \<Rightarrow> string" where
  "info s = (let st = Stats (svStore s) in
     ''keys:'' @ dec_nat (stKeys st) @ [LF] @ ''keys_with_ttl:'' @ dec_nat (stTTLKeys st) @ [LF] @
     ''expired:'' @ dec_int (stExpired st) @ [LF] @ ''memory_used:'' @ dec_int (stMemoryUsed st) @ [LF] @
     ''max_memory:'' @ dec_int (stMaxMemory st) @ [LF] @ ''leader:'' @ leaderAddr s @ [LF])"

definition log_command :: "env \<Rightarrow> command \<Rightarrow> server \<Rightarrow> server" where
  "log_command E cmd s =
     (case svAof s of
        None \<Rightarrow> s
      | Some a \<Rightarrow> s\<lparr>svAof := Some (snd (aof_Write (eFault E) (eSyncOk E) cmd a))\<rparr>)"

definition exec_set :: "env \<Rightarrow> command \<Rightarrow> bool \<Rightarrow> server \<Rightarrow> string \<times> server" where
  "exec_set E cmd replay s =
     (case cArgs cmd of
        [key, val] \<Rightarrow>
          if replicaMode s \<and> \<not> replay then (''ERR READONLY replica'', s)
          else let s1 = s\<lparr>svStore := Set key val 0 (eNow E) (eNow2 E) (eOrd E) (svStore s)\<rparr>
               in (''OK'', if replay then s1 else broadcastToReplicas cmd (log_command E cmd s1))
      | _ \<Rightarrow> (''ERR wrong number of arguments for 'set' command'', s))"

definition exec_get :: "env \<Rightarrow> command \<Rightarrow> server \<Rightarrow> string \<times> server" where
  "exec_get E cmd s =
     (case cArgs cmd of
        [key] \<Rightarrow>
          (case Get key (eNow E) (svStore s) of
             (Inl ErrNotFound, st) \<Rightarrow> (''(nil)'', s\<lparr>svStore := st\<rparr>)
           | (Inl e, st) \<Rightarrow> (''ERR '' @ store_error_text e, s\<lparr>svStore := st\<rparr>)
           | (Inr val, st) \<Rightarrow> (val, s\<lparr>svStore := st\<rparr>))
      | _ \<Rightarrow> (''ERR wrong number of arguments for 'get' command'', s))"

definition exec_publish :: "command \<Rightarrow> bool \<Rightarrow> server \<Rightarrow> (string \<times> server) outcome" where
  "exec_publish cmd replay s =
     (case cArgs cmd of
        [channel, msg] \<Rightarrow>
          if replicaMode s \<and> \<not> replay then Ret (''ERR READONLY replica'', s)
          else (case Publish (svPubsub s) channel msg of
             Panic m \<Rightarrow> Panic m
           | Ret (ps, n) \<Rightarrow>
               let s1 = s\<lparr>svPubsub := ps\<rparr>
               in Ret (''(integer) '' @ dec_nat n, if replay then s1 else broadcastToReplicas cmd s1))
      | _ \<Rightarrow> Ret (''ERR wrong number of arguments for 'publish' command'', s))"

definition exec_cluster :: "golib \<Rightarrow> command \<Rightarrow> server \<Rightarrow> string" where
  "exec_cluster L cmd s =
     (case cArgs cmd of
        [] \<Rightarrow> ''ERR wrong number of arguments for 'cluster' command''
      | sub # _ \<Rightarrow>
          let u = ToUpper L sub in
          if u = ''INFO'' then clusterInfo s
          else if u = ''NODES'' then clusterNodes s
          else if u = ''SLOTS'' then clusterSlots s
          else ''ERR unknown subcommand '' @ [CHR 0x27] @ sub @ [CHR 0x27])"

definition exec_save :: "env \<Rightarrow> server \<Rightarrow> string \<times> server" where
  "exec_save E s =
     (if RDBPath (svConfig s) = [] then (''ERR snapshot path not configured'', s)
      else case saveSnapshot E s of
        (Some e, s') \<Rightarrow> (''ERR '' @ e, s')
      | (None, s') \<Rightarrow> (''OK'', s'))"

definition exec_bgsave :: "server \<Rightarrow> string \<times> server" where
  "exec_bgsave s =
     (if RDBPath (svConfig s) = [] then (''ERR snapshot path not configured'', s)
      else case startBGSAVE s of
        (True, s') \<Rightarrow> (''Background saving started'', s')
      | (False, s') \<Rightarrow> (''ERR BGSAVE already in progress'', s'))"

definition exec_migrate :: "env \<Rightarrow> command \<Rightarrow> server \<Rightarrow> string \<times> server" where
  "exec_migrate E cmd s =
     (case cArgs cmd of
        key # target # _ \<Rightarrow>
          (case migrateKey E key target s of
             (Some e, s') \<Rightarrow> (''ERR '' @ e, s')
           | (None, s') \<Rightarrow> (''OK'', s'))
      | _ \<Rightarrow> (''ERR wrong number of arguments for 'migrate' command'', s))"

definition dispatch :: "golib \<Rightarrow> env \<Rightarrow> command \<Rightarrow> bool \<Rightarrow> server \<Rightarrow> (string \<times> server) outcome" where
  "dispatch L E cmd replay s =
     (let n = cName cmd in
      if n = ''SET'' then Ret (exec_set E cmd replay s)
      else if n = ''GET'' then Ret (exec_get E cmd s)
      else if n = ''PUBLISH'' then exec_publish cmd replay s
      else if n = ''PING'' then Ret (''PONG'', s)
      else if n = ''INFO'' then Ret (info s, s)
      else if n = ''CLUSTER'' then Ret (exec_cluster L cmd s, s)
      else if n = ''SAVE'' then Ret (exec_save E s)
      else if n = ''BGSAVE'' then Ret (exec_bgsave s)
      else if n = ''MIGRATE'' then Ret (exec_migrate E cmd s)
      else Ret (''ERR unknown command '' @ [CHR 0x27] @ n @ [CHR 0x27], s))"

definition executeCommand :: "golib \<Rightarrow> env \<Rightarrow> command \<Rightarrow> bool \<Rightarrow> server \<Rightarrow> (string \<times> server) outcome" where
  "executeCommand L E cmd replay s =
     (case redirect cmd replay s of
        Panic m \<Rightarrow> Panic m
      | Ret (Some r) \<Rightarrow> Ret (r, s)
      | Ret None \<Rightarrow> dispatch L E cmd replay s)"

section \<open>Client connections\<close>

text \<open>How \<^verbatim>\<open>handleConnection\<close> turns the string of a response into a reply on the wire.\<close>

definition reply_bytes :: "golib \<Rightarrow> string \<Rightarrow> bytes" where
  "reply_bytes L response =
     (if HasPrefix response ''ERR '' then WriteError (Errorf0 L (TrimPrefix response ''ERR ''))
      else if HasPrefix response ''(integer) ''
        then WriteInteger (scan_or_zero (TrimPrefix response ''(integer) ''))
      else if response = ''(nil)'' then WriteNull
      else if response = ''OK'' then WriteString response
      else WriteBulkString response)"

text \<open>
  The peer of a connection, as the allow list sees it: not a TCP address, an address that does not
  parse, or an address. The test \<^verbatim>\<open>netip.Prefix.Contains\<close> is an argument.
\<close>

datatype peer = NotTCP | BadIP | PeerIP string

definition isAllowed :: "(string \<Rightarrow> string \<Rightarrow> bool) \<Rightarrow> string \<Rightarrow> server \<Rightarrow> bool" where
  "isAllowed contains ip s \<longleftrightarrow>
     AllowedCIDR (svConfig s) = [] \<or> list_ex (\<lambda>p. contains p ip) (AllowedCIDR (svConfig s))"

definition peer_rejected :: "(string \<Rightarrow> string \<Rightarrow> bool) \<Rightarrow> peer \<Rightarrow> server \<Rightarrow> bool" where
  "peer_rejected contains peer s \<longleftrightarrow>
     AllowedCIDR (svConfig s) \<noteq> [] \<and>
     (case peer of NotTCP \<Rightarrow> False | BadIP \<Rightarrow> True | PeerIP ip \<Rightarrow> \<not> isAllowed contains ip s)"

text \<open>
  What one command does to a connection: go on with the loop, close, hand over to the replication
  stream, or become a subscription of a channel.
\<close>

datatype turn = Continue bool bytes | Closed bytes | Replicate | Subscription string

definition handle_command ::
  "golib \<Rightarrow> env \<Rightarrow> (string \<Rightarrow> string \<Rightarrow> bool) \<Rightarrow> peer \<Rightarrow> bool \<Rightarrow> command \<Rightarrow> server \<Rightarrow> (turn \<times> server) outcome"
where
  "handle_command L E contains peer authed cmd s =
     (if peer_rejected contains peer s then Ret (Closed (WriteError ''ERR connection not allowed''), s)
      else if \<not> authed \<and> ToUpper L (cName cmd) \<noteq> ''AUTH''
        then Ret (Continue authed (WriteError ''NOAUTH Authentication required''), s)
      else if ToUpper L (cName cmd) = ''AUTH'' then
        (if length (cArgs cmd) \<noteq> 1
           then Ret (Continue authed (WriteError ''ERR wrong number of arguments for 'auth' command''), s)
         else if hd (cArgs cmd) = Password (svConfig s) then Ret (Continue True (WriteString ''OK''), s)
         else Ret (Continue authed (WriteError ''ERR invalid password''), s))
      else if ToUpper L (cName cmd) = ''REPL'' then Ret (Replicate, s)
      else if ToUpper L (cName cmd) = ''SUBSCRIBE'' then
        (case cArgs cmd of
           [] \<Rightarrow> Ret (Continue authed (WriteError ''wrong number of arguments for 'subscribe' command''), s)
         | ch # _ \<Rightarrow> Ret (Subscription ch, s))
      else (case executeCommand L E cmd False s of
         Panic m \<Rightarrow> Panic m
       | Ret (response, s') \<Rightarrow> Ret (Continue authed (reply_bytes L response), s')))"

definition perr_text :: "(scan_error \<Rightarrow> string) \<Rightarrow> perr \<Rightarrow> string" where
  "perr_text st e =
     (case e of
        ErrEOF \<Rightarrow> ''EOF''
      | ErrUnexpectedEOF \<Rightarrow> ''unexpected EOF''
      | InvalidArrayLength x \<Rightarrow> ''invalid array length: '' @ st x
      | InvalidArrayStart x \<Rightarrow> ''invalid array start: '' @ st x
      | TooManyArguments \<Rightarrow> ''too many arguments''
      | InvalidBulkLength x \<Rightarrow> ''invalid bulk string length: '' @ st x
      | BulkTooLarge \<Rightarrow> ''bulk string too large''
      | InvalidBulkTermination \<Rightarrow> ''invalid bulk string termination''
      | InlineTooLong \<Rightarrow> ''inline command too long'')"

text \<open>
  The loop of \<^verbatim>\<open>handleConnection\<close> for a client that is alone with the server: the bytes it
  sends, one \<open>env\<close> per command executed, the bytes it is sent, and how the connection ended
  (\<open>None\<close> for the end of its input). The text of a scan error is an argument.
\<close>

record conn =
  cnIn :: bytes
  cnAuthed :: bool
  cnOut :: bytes

function conn_loop ::
  "golib \<Rightarrow> (scan_error \<Rightarrow> string) \<Rightarrow> (nat \<Rightarrow> env) \<Rightarrow> (string \<Rightarrow> string \<Rightarrow> bool) \<Rightarrow> peer \<Rightarrow> nat \<Rightarrow> conn \<Rightarrow> server \<Rightarrow>
     (turn option \<times> conn \<times> server) outcome"
where
  "conn_loop L st Es contains peer i c s =
     (case ParseCommand L (cnIn c) of
        Panic m \<Rightarrow> Panic m
      | Ret (Inl e) \<Rightarrow>
          Ret (None, (if e = ErrEOF then c else c\<lparr>cnOut := cnOut c @ WriteError (perr_text st e)\<rparr>), s)
      | Ret (Inr (None, r)) \<Rightarrow> conn_loop L st Es contains peer i (c\<lparr>cnIn := r\<rparr>) s
      | Ret (Inr (Some cmd, r)) \<Rightarrow>
          (case handle_command L (Es i) contains peer (cnAuthed c) cmd s of
             Panic m \<Rightarrow> Panic m
           | Ret (Continue authed out, s') \<Rightarrow>
               conn_loop L st Es contains peer (i + 1)
                 (c\<lparr>cnIn := r, cnAuthed := authed, cnOut := cnOut c @ out\<rparr>) s'
           | Ret (Closed out, s') \<Rightarrow> Ret (Some (Closed out), c\<lparr>cnIn := r, cnOut := cnOut c @ out\<rparr>, s')
           | Ret (t, s') \<Rightarrow> Ret (Some t, c\<lparr>cnIn := r\<rparr>, s')))"
  by pat_completeness auto
termination
  by (relation "measure (\<lambda>(L, st, Es, contains, peer, i, c, s). length (cnIn c))")
    (auto dest: ParseCommand_shorter)

declare conn_loop.simps [simp del]

definition handleConnection ::
  "golib \<Rightarrow> (scan_error \<Rightarrow> string) \<Rightarrow> (nat \<Rightarrow> env) \<Rightarrow> (string \<Rightarrow> string \<Rightarrow> bool) \<Rightarrow> peer \<Rightarrow> bytes \<Rightarrow> server \<Rightarrow>
     (turn option \<times> conn \<times> server) outcome"
where
  "handleConnection L st Es contains peer input s =
     (if AuthEnabled (svConfig s) \<and> Password (svConfig s) = []
      then Ret (None, \<lparr>cnIn = input, cnAuthed = False,
                       cnOut = WriteError ''ERR auth enabled but password not set''\<rparr>, s)
      else conn_loop L st Es contains peer 0
             \<lparr>cnIn = input, cnAuthed = \<not> AuthEnabled (svConfig s), cnOut = []\<rparr> s)"

section \<open>Subscriptions and replication streams\<close>

definition subscribe_open :: "string \<Rightarrow> server \<Rightarrow> nat \<times> bytes \<times> server" where
  "subscribe_open channel s =
     (let (ps, ch) = Subscribe (svPubsub s) channel
      in (ch, WriteCommand [''subscribe'', channel, ''1''], s\<lparr>svPubsub := ps\<rparr>))"

definition subscribe_forward :: "string \<Rightarrow> nat \<Rightarrow> server \<Rightarrow> (bytes \<times> server) option" where
  "subscribe_forward channel ch s =
     (case receive (svPubsub s) ch of
        Some (ps, Some msg) \<Rightarrow> Some (WriteCommand [''message'', channel, msg], s\<lparr>svPubsub := ps\<rparr>)
      | _ \<Rightarrow> None)"

definition subscribe_close :: "string \<Rightarrow> nat \<Rightarrow> server \<Rightarrow> server outcome" where
  "subscribe_close channel ch s =
     (case Unsubscribe (svPubsub s) channel ch of
        Panic m \<Rightarrow> Panic m | Ret ps \<Rightarrow> Ret (s\<lparr>svPubsub := ps\<rparr>))"

text \<open>\<^verbatim>\<open>handleReplicaConnection\<close> in the order of its effects: snapshot, registration, stream, removal.\<close>

definition replica_snapshot :: "env \<Rightarrow> server \<Rightarrow> bytes" where
  "replica_snapshot E s =
     concat (map (\<lambda>e. WriteCommand [''SET'', seKey e, seValue e]) (SnapshotEntries (eNow E) (eOrd E) (svStore s)))"

definition replica_register :: "server \<Rightarrow> nat \<times> server" where
  "replica_register s =
     (let rid = replicaSeq s + 1 in (rid, s\<lparr>replicaSeq := rid, replicas := AList.update rid [] (replicas s)\<rparr>))"

definition replica_stream :: "nat \<Rightarrow> server \<Rightarrow> (bytes \<times> server) option" where
  "replica_stream rid s =
     (case map_of (replicas s) rid of
        Some (cmd # ch) \<Rightarrow> Some (encode_cmd cmd, s\<lparr>replicas := AList.update rid ch (replicas s)\<rparr>)
      | _ \<Rightarrow> None)"

definition replica_remove :: "nat \<Rightarrow> server \<Rightarrow> server" where
  "replica_remove rid s = s\<lparr>replicas := AList.delete rid (replicas s)\<rparr>"

text \<open>Commands applied in replay mode, from the log or from the master; the responses are dropped.\<close>

fun apply_all :: "golib \<Rightarrow> (nat \<Rightarrow> env) \<Rightarrow> nat \<Rightarrow> command list \<Rightarrow> server \<Rightarrow> server outcome" where
  "apply_all L Es i [] s = Ret s"
| "apply_all L Es i (cmd # cmds) s =
     (case executeCommand L (Es i) cmd True s of
        Panic m \<Rightarrow> Panic m
      | Ret (_, s') \<Rightarrow> apply_all L Es (i + 1) cmds s')"

text \<open>One connection of \<^verbatim>\<open>startReplicaClient\<close>: what it sends, and applying what it receives.\<close>

definition replica_hello :: "server \<Rightarrow> bytes" where
  "replica_hello s =
     (if ReplicaPass (svConfig s) \<noteq> [] then WriteCommand [''AUTH'', ReplicaPass (svConfig s)] else []) @
     WriteCommand [''REPL'']"

definition replica_session :: "golib \<Rightarrow> (nat \<Rightarrow> env) \<Rightarrow> bytes \<Rightarrow> server \<Rightarrow> server outcome" where
  "replica_session L Es stream s =
     (case ReadCommands L stream of
        Panic m \<Rightarrow> Panic m
      | Ret (cmds, _) \<Rightarrow> apply_all L Es 0 cmds (s\<lparr>leaderAddr := masterAddr s\<rparr>))"

text \<open>A tick of \<^verbatim>\<open>startLeaderHeartbeat\<close>: a replica that cannot reach its master elects itself.\<close>

definition heartbeat :: "bool \<Rightarrow> server \<Rightarrow> server" where
  "heartbeat reachable s =
     (if replicaMode s \<and> \<not> reachable then s\<lparr>leaderAddr := addr_of (svConfig s), replicaMode := False\<rparr> else s)"

section \<open>Start-up\<close>

datatype restore_error = SnapshotLoad string | AofOpen string | AofRestore perr

text \<open>
  \<^verbatim>\<open>initAOF\<close>: the log is opened, read and applied; a log that cannot be read to its end is closed
  again, and the error of closing it is dropped. The log is given by the outcome of opening it, an
  error or its contents, and whether closing it succeeds. The handle is the one the server keeps.
\<close>

type_synonym log_dev = "(string + bytes) \<times> bool"

definition initAOF ::
  "golib \<Rightarrow> (nat \<Rightarrow> env) \<Rightarrow> log_dev \<Rightarrow> server \<Rightarrow> ((restore_error + aof_handle) \<times> server) outcome"
where
  "initAOF L Es log s =
     (case aof_open (fst log) (cfgFsync (svConfig s)) of
        Inl e \<Rightarrow> Ret (Inl (AofOpen e), s)
      | Inr h \<Rightarrow>
          (case ReadCommands L (afile (ahAof h)) of
             Panic m \<Rightarrow> Panic m
           | Ret (cmds, err) \<Rightarrow>
               (case apply_all L Es 0 cmds s of
                  Panic m \<Rightarrow> Panic m
                | Ret s1 \<Rightarrow>
                    (case err of
                       None \<Rightarrow> Ret (Inr h, s1)
                     | Some e \<Rightarrow>
                         (case aof_Close (snd log) h of
                            Panic m \<Rightarrow> Panic m
                          | Ret _ \<Rightarrow> Ret (Inl (AofRestore e), s1))))))"

text \<open>
  \<^verbatim>\<open>restoreData\<close>: the snapshot file is absent (\<open>None\<close>), unreadable or its entries.
\<close>

definition restoreData ::
  "golib \<Rightarrow> (nat \<Rightarrow> env) \<Rightarrow> int \<Rightarrow> (string + SnapshotEntry list) option \<Rightarrow> log_dev \<Rightarrow> server \<Rightarrow>
     (restore_error option \<times> server) outcome"
where
  "restoreData L Es now snapshot log s =
     (case (if RDBPath (svConfig s) \<noteq> [] then snapshot else None) of
        Some (Inl e) \<Rightarrow> Ret (Some (SnapshotLoad e), s)
      | snap \<Rightarrow>
          (let s1 = (case snap of Some (Inr entries) \<Rightarrow> s\<lparr>svStore := RestoreSnapshot now entries (svStore s)\<rparr> | _ \<Rightarrow> s)
           in if AOFPath (svConfig s) = [] then Ret (None, s1)
              else (case initAOF L Es log s1 of
                 Panic m \<Rightarrow> Panic m
               | Ret (Inl e, s2) \<Rightarrow> Ret (Some e, s2)
               | Ret (Inr h, s2) \<Rightarrow> Ret (None, s2\<lparr>svAof := Some (ahAof h)\<rparr>))))"

text \<open>A log that opens: closing the handle cannot panic, as nothing else has closed it.\<close>

lemma initAOF_opens:
  "initAOF L Es (Inr contents, ok) s =
     (case ReadCommands L contents of
        Panic m \<Rightarrow> Panic m
      | Ret (cmds, err) \<Rightarrow>
          map_outcome (\<lambda>s1. (case err of
              None \<Rightarrow> Inr \<lparr>ahAof = NewAOF contents (cfgFsync (svConfig s)), ahOpen = True, ahDone = False\<rparr>
            | Some e \<Rightarrow> Inl (AofRestore e), s1)) (apply_all L Es 0 cmds s))"
proof -
  let ?h = "\<lparr>ahAof = NewAOF contents (cfgFsync (svConfig s)), ahOpen = True, ahDone = False\<rparr>"
  have "\<nexists>m. aof_Close ok ?h = Panic m"
    by (simp add: aof_Close_panics)
  then obtain x where "aof_Close ok ?h = Ret x"
    by (cases "aof_Close ok ?h") auto
  moreover have "aof_open (Inr contents) (cfgFsync (svConfig s)) = Inr ?h" "afile (ahAof ?h) = contents"
    by (simp_all add: aof_open_def NewAOF_def)
  ultimately show ?thesis
    by (simp add: initAOF_def split: outcome.split option.split prod.split)
qed

text \<open>The counter of clients: the accept loop of \<^verbatim>\<open>Start\<close> and the end of a connection.\<close>

definition accept_client :: "server \<Rightarrow> bool \<times> server" where
  "accept_client s =
     (if MaxClients (svConfig s) > 0
      then (if clients s \<ge> MaxClients (svConfig s) then (False, s) else (True, s\<lparr>clients := clients s + 1\<rparr>))
      else (True, s))"

definition close_client :: "server \<Rightarrow> server" where
  "close_client s = (if MaxClients (svConfig s) > 0 then s\<lparr>clients := clients s - 1\<rparr> else s)"

definition set_static_slots :: "server \<Rightarrow> server" where
  "set_static_slots s =
     (if StaticSlots (svConfig s) \<noteq> [] then s\<lparr>cluster := SetRanges (cluster s) (StaticSlots (svConfig s))\<rparr> else s)"

end
