(* ===== verification/Fas_Server_Props.thy ===== *)
theory Fas_Server_Props
  imports Fas_Server
begin

text \<open>
  What the server promises: the authentication gate, redirection and read-only replicas, that the log
  and the replication stream carry the whole contents of the store, and which replies are faithful.
\<close>

declare map_of_eq_Some_iff [simp del] Some_eq_map_of_iff [simp del]

section \<open>Frames\<close>

definition same_role :: "server \<Rightarrow> server \<Rightarrow> bool" where
  "same_role s t \<longleftrightarrow>
     svConfig t = svConfig s \<and> cluster t = cluster s \<and> slotCount t = slotCount s \<and> selfAddr t = selfAddr s \<and>
     leaderAddr t = leaderAddr s \<and> replicaMode t = replicaMode s \<and> masterAddr t = masterAddr s"

lemma same_role_refl [simp]: "same_role s s"
  by (simp add: same_role_def)

lemma same_role_trans: "same_role s t \<Longrightarrow> same_role t u \<Longrightarrow> same_role s u"
  by (simp add: same_role_def)

lemma broadcast_frame [frame, simp]:
  "same_role s (broadcastToReplicas cmd s)" "svStore (broadcastToReplicas cmd s) = svStore s"
  "svAof (broadcastToReplicas cmd s) = svAof s" "svPubsub (broadcastToReplicas cmd s) = svPubsub s"
  by (simp_all add: broadcastToReplicas_def same_role_def)

lemma log_frame [frame, simp]:
  "same_role s (log_command E cmd s)" "svStore (log_command E cmd s) = svStore s"
  "svAof (log_command E cmd s) = map_option (\<lambda>a. snd (aof_Write (eFault E) (eSyncOk E) cmd a)) (svAof s)"
  "replicas (log_command E cmd s) = replicas s"
  by (simp_all add: log_command_def same_role_def split: option.splits)

lemma save_frame [frame]:
  "same_role s (snd (saveSnapshot E s))" "svStore (snd (saveSnapshot E s)) = svStore s"
  "svAof (snd (saveSnapshot E s)) = svAof s"
  by (simp_all add: saveSnapshot_def same_role_def split: option.splits)

definition is_set :: "command \<Rightarrow> bool" where
  "is_set cmd \<longleftrightarrow> cName cmd = ''SET'' \<and> length (cArgs cmd) = 2"

definition set_map :: "command \<Rightarrow> (string \<rightharpoonup> string) \<Rightarrow> (string \<rightharpoonup> string)" where
  "set_map cmd m = (case cArgs cmd of [k, v] \<Rightarrow> m(k \<mapsto> v) | _ \<Rightarrow> m)"

lemma is_set_args: "is_set cmd \<Longrightarrow> \<exists>k v. cArgs cmd = [k, v]"
  by (auto simp: is_set_def length_Suc_conv numeral_2_eq_2)

text \<open>A store without limit and times to live: what the two store commands do to its contents.\<close>

definition plain_ok :: "store \<Rightarrow> bool" where
  "plain_ok st \<longleftrightarrow> plain st \<and> store_inv st"

lemma plain_set:
  assumes "plain_ok st"
  shows "plain_ok (Set k v 0 now now2 ord st)" "values_of (Set k v 0 now now2 ord st) = (values_of st)(k \<mapsto> v)"
  using plain_op [of st "OpSet k v 0 now now2 ord"] assms by (auto simp: plain_ok_def proper_ttl_def intro: set_inv)

lemma plain_get_state:
  assumes "plain_ok st"
  shows "plain_ok (snd (Get k now st))" "values_of (snd (Get k now st)) = values_of st"
  using plain_op [of st "OpGet k now"] assms get_inv [of st k now st] by (auto simp: plain_ok_def Get_def)

lemma plain_New: "m \<le> 0 \<Longrightarrow> plain_ok (New m p) \<and> values_of (New m p) = Map.empty"
  by (auto simp: plain_ok_def plain_def New_def values_of_def store_inv_New [unfolded New_def])

text \<open>What a dispatched command, other than a migration, may do to store, log and role.\<close>

definition tame :: "env \<Rightarrow> command \<Rightarrow> bool \<Rightarrow> server \<Rightarrow> server \<Rightarrow> bool" where
  "tame E cmd replay s t \<longleftrightarrow>
     same_role s t \<and>
     (plain_ok (svStore s) \<longrightarrow> plain_ok (svStore t) \<and>
        values_of (svStore t) = (if is_set cmd then set_map cmd (values_of (svStore s)) else values_of (svStore s))) \<and>
     svAof t = (if is_set cmd \<and> \<not> replay
                then map_option (\<lambda>a. snd (aof_Write (eFault E) (eSyncOk E) cmd a)) (svAof s) else svAof s)"

lemma tame_refl: "\<not> is_set cmd \<Longrightarrow> tame E cmd replay s s"
  by (simp add: tame_def)

lemma tame_set:
  assumes "cName cmd = ''SET''" "replay \<or> \<not> replicaMode s"
  shows "tame E cmd replay s (snd (exec_set E cmd replay s))"
proof (cases "\<exists>k v. cArgs cmd = [k, v]")
  case True
  then obtain k v where kv: "cArgs cmd = [k, v]"
    by blast
  let ?s1 = "s\<lparr>svStore := Set k v 0 (eNow E) (eNow2 E) (eOrd E) (svStore s)\<rparr>"
  have role: "same_role s ?s1"
    by (simp add: same_role_def)
  have "same_role s (broadcastToReplicas cmd (log_command E cmd ?s1))"
    using role log_frame(1) [of ?s1 E cmd] broadcast_frame(1) [of "log_command E cmd ?s1" cmd]
    by (meson same_role_trans)
  then show ?thesis
    using assms kv role plain_set [of "svStore s" k v]
    by (auto simp: exec_set_def Let_def tame_def is_set_def set_map_def)
next
  case False
  then have "\<not> is_set cmd"
    using is_set_args by blast
  then show ?thesis
    using False by (auto simp: exec_set_def tame_refl split: list.splits)
qed

lemma tame_get:
  assumes "cName cmd = ''GET''"
  shows "tame E cmd replay s (snd (exec_get E cmd s))"
proof -
  have "\<not> is_set cmd"
    using assms by (simp add: is_set_def)
  moreover have "snd (exec_get E cmd s) = s \<or> (\<exists>k. snd (exec_get E cmd s) = s\<lparr>svStore := snd (Get k (eNow E) (svStore s))\<rparr>)"
    by (auto simp: exec_get_def split: list.splits prod.splits sum.splits store_error.splits) (metis snd_conv)+
  ultimately show ?thesis
    using plain_get_state [of "svStore s"] by (auto simp: tame_def same_role_def)
qed

lemma tame_other:
  assumes "\<not> is_set cmd"
  shows "exec_publish cmd replay s = Ret (r, t) \<Longrightarrow> tame E cmd replay s t"
    "tame E cmd replay s (snd (exec_save E s))" "tame E cmd replay s (snd (exec_bgsave s))"
proof -
  show "exec_publish cmd replay s = Ret (r, t) \<Longrightarrow> tame E cmd replay s t"
    using assms broadcast_frame
    by (auto simp: exec_publish_def tame_def Let_def same_role_def broadcastToReplicas_def
        split: list.splits if_splits outcome.splits)
  have "snd (exec_save E s) = s \<or> snd (exec_save E s) = snd (saveSnapshot E s)"
    by (auto simp: exec_save_def split: prod.splits option.splits)
  then show "tame E cmd replay s (snd (exec_save E s))"
    using assms save_frame by (auto simp: tame_def)
  show "tame E cmd replay s (snd (exec_bgsave s))"
    using assms by (auto simp: exec_bgsave_def startBGSAVE_def tame_def same_role_def)
qed

lemma dispatch_tame:
  assumes "dispatch L E cmd replay s = Ret (r, t)" "cName cmd \<noteq> ''MIGRATE''" "replay \<or> \<not> replicaMode s"
  shows "tame E cmd replay s t"
proof (cases "cName cmd = ''SET''")
  case True
  then show ?thesis
    using assms(1) tame_set [OF True assms(3), of E] by (simp add: dispatch_def)
next
  case False
  then have n: "\<not> is_set cmd"
    by (simp add: is_set_def)
  show ?thesis
  proof (cases "cName cmd = ''GET''")
    case True
    then show ?thesis
      using assms(1) tame_get [OF True, of E replay s] by (simp add: dispatch_def)
  next
    case g: False
    have "tame E cmd replay s (snd (exec_save E s))" "tame E cmd replay s (snd (exec_bgsave s))" "tame E cmd replay s s"
      using n by (simp_all add: tame_other tame_refl)
    then show ?thesis
      using assms(1,2) False g tame_other(1) [OF n]
      by (auto simp: dispatch_def Let_def split: if_splits)
  qed
qed

lemma dispatch_returns:
  assumes "ps_inv (svPubsub s)"
  shows "\<exists>r t. dispatch L E cmd replay s = Ret (r, t) \<and> ps_inv (svPubsub t)"
proof -
  have pub: "\<exists>r t. exec_publish cmd replay s = Ret (r, t) \<and> ps_inv (svPubsub t)"
  proof (cases "\<exists>ch m. cArgs cmd = [ch, m]")
    case True
    then obtain ch m where "cArgs cmd = [ch, m]"
      by blast
    moreover obtain ps n where "Publish (svPubsub s) ch m = Ret (ps, n)" "ps_inv ps"
      using Publish_spec [OF assms] by blast
    ultimately show ?thesis
      using assms by (auto simp: exec_publish_def Let_def)
  qed (use assms in \<open>auto simp: exec_publish_def split: list.splits\<close>)
  have "svPubsub (snd (exec_set E cmd replay s)) = svPubsub s"
    by (auto simp: exec_set_def Let_def log_command_def split: list.splits option.splits)
  moreover have "svPubsub (snd (exec_get E cmd s)) = svPubsub s"
    by (auto simp: exec_get_def split: list.splits prod.splits sum.splits store_error.splits)
  moreover have "svPubsub (snd (exec_save E s)) = svPubsub s" "svPubsub (snd (exec_bgsave s)) = svPubsub s"
    by (auto simp: exec_save_def saveSnapshot_def exec_bgsave_def startBGSAVE_def split: option.splits)
  moreover have "svPubsub (snd (exec_migrate E cmd s)) = svPubsub s"
    by (auto simp: exec_migrate_def migrateKey_def split: list.splits prod.splits sum.splits option.splits if_splits)
  ultimately show ?thesis
    using pub assms by (auto simp: dispatch_def Let_def) (metis prod.collapse)+
qed

section \<open>Slot ownership\<close>

definition owner :: "server \<Rightarrow> bool" where
  "owner s \<longleftrightarrow> (\<forall>k. \<exists>i. keySlot k (slotCount s) = Ret i) \<and> (\<forall>i. moved i s = None)"

lemma owner_redirect: "owner s \<Longrightarrow> redirect cmd replay s = Ret None"
proof -
  assume o: "owner s"
  have "\<exists>i. arg_slot cmd s = Ret i"
    using o by (auto simp: owner_def arg_slot_def split: list.splits)
  then show ?thesis
    using o by (auto simp: redirect_def owner_def split: outcome.splits) (metis outcome.distinct(1))+
qed

lemma owner_role: "same_role s t \<Longrightarrow> owner s \<Longrightarrow> owner t"
  by (simp add: owner_def same_role_def moved_def Let_def)

lemma owner_execute: "owner s \<Longrightarrow> executeCommand L E cmd replay s = dispatch L E cmd replay s"
  by (simp add: executeCommand_def owner_redirect)

lemma keySlot_returns: "0 < n \<Longrightarrow> n < 65536 \<Longrightarrow> \<exists>i. keySlot k n = Ret i"
proof -
  assume "0 < n" "n < 65536"
  then have "(word_of_int n :: 16 word) \<noteq> 0"
    by (simp add: word_of_int_eq_0_iff zdvd_not_zless)
  then show ?thesis
    by (simp add: keySlot_def Let_def)
qed

lemma NewServer_fields:
  "svConfig (NewServer c) = fill_defaults c" "svStore (NewServer c) = New (MaxMemory (fill_defaults c)) (Eviction (fill_defaults c))"
  "svPubsub (NewServer c) = New_pubsub" "svAof (NewServer c) = None"
  "replicaMode (NewServer c) \<longleftrightarrow> ReplicaOf c \<noteq> []" "slotCount (NewServer c) = Slots (fill_defaults c)"
  by (simp_all add: NewServer_def ValidateAndFill_def fill_defaults_def Let_def)

lemma NewServer_owner:
  assumes "0 \<le> Slots c" "Slots c < 65536"
  shows "owner (NewServer c)"
proof -
  have "0 < Slots (fill_defaults c)" "Slots (fill_defaults c) < 65536"
    using assms by (auto simp: fill_defaults_def Let_def)
  then show ?thesis
    using keySlot_returns
    by (auto simp: owner_def NewServer_fields)
      (simp add: moved_def NewServer_def Lookup_def NewClusterState_def Let_def)
qed

section \<open>Running and replaying\<close>

fun serve_all :: "golib \<Rightarrow> (nat \<Rightarrow> env) \<Rightarrow> nat \<Rightarrow> command list \<Rightarrow> server \<Rightarrow> server outcome" where
  "serve_all L Es i [] s = Ret s"
| "serve_all L Es i (cmd # cmds) s =
     (case executeCommand L (Es i) cmd False s of
        Panic m \<Rightarrow> Panic m
      | Ret (_, s') \<Rightarrow> serve_all L Es (i + 1) cmds s')"

definition running :: "aof \<Rightarrow> server \<Rightarrow> bool" where
  "running a s \<longleftrightarrow> owner s \<and> \<not> replicaMode s \<and> ps_inv (svPubsub s) \<and> plain_ok (svStore s) \<and>
     svAof s = Some a \<and> \<not> abroken a"

lemma serve_all_log:
  assumes "running a s" "\<And>i. eFault (Es i) = None" "\<And>cmd. cmd \<in> set cmds \<Longrightarrow> cName cmd \<noteq> ''MIGRATE''"
  shows "\<exists>t b. serve_all L Es i cmds s = Ret t \<and> running b t \<and>
           values_of (svStore t) = fold set_map (filter is_set cmds) (values_of (svStore s)) \<and>
           afile b = afile a @ log_of (filter is_set cmds)"
  using assms(1,3)
proof (induction cmds arbitrary: i a s)
  case Nil
  then show ?case
    by (auto simp: log_of_def)
next
  case (Cons cmd cmds)
  note r = Cons.prems(1) [unfolded running_def]
  obtain x s1 where s1: "dispatch L (Es i) cmd False s = Ret (x, s1)" "ps_inv (svPubsub s1)"
    using dispatch_returns r by blast
  have tame: "tame (Es i) cmd False s s1"
    using dispatch_tame [OF s1(1)] Cons.prems r by simp
  define b where "b = (if is_set cmd then snd (aof_Write None (eSyncOk (Es i)) cmd a) else a)"
  have "\<not> abroken b \<and> afile b = afile a @ log_of (filter is_set [cmd])"
    using r by (cases rule: aof_Write_cases [of a None "eSyncOk (Es i)" cmd]) (auto simp: b_def log_of_def)
  moreover have "svAof s1 = Some b"
    using tame r assms(2) by (auto simp: tame_def b_def)
  ultimately have b: "svAof s1 = Some b" "\<not> abroken b" "afile b = afile a @ log_of (filter is_set [cmd])"
    by auto
  have "running b s1"
    using tame r s1(2) b owner_role [of s s1] by (auto simp: running_def tame_def same_role_def)
  moreover have "values_of (svStore s1) = fold set_map (filter is_set [cmd]) (values_of (svStore s))"
    using tame r by (simp add: tame_def)
  ultimately show ?case
    using Cons.IH [of b s1 "i + 1"] Cons.prems(2) s1(1) r b(3)
    by (auto simp: owner_execute log_of_def)
qed

lemma apply_all_sets:
  assumes "owner s" "plain_ok (svStore s)" "ps_inv (svPubsub s)" "\<And>cmd. cmd \<in> set cmds \<Longrightarrow> is_set cmd"
  shows "\<exists>t. apply_all L Es i cmds s = Ret t \<and> same_role s t \<and>
           values_of (svStore t) = fold set_map cmds (values_of (svStore s)) \<and> plain_ok (svStore t)"
  using assms
proof (induction cmds arbitrary: i s)
  case (Cons cmd cmds)
  have set: "is_set cmd" "cName cmd \<noteq> ''MIGRATE''"
    using Cons.prems(4) [of cmd] by (auto simp: is_set_def)
  obtain x s1 where s1: "dispatch L (Es i) cmd True s = Ret (x, s1)" "ps_inv (svPubsub s1)"
    using dispatch_returns Cons.prems(3) by blast
  have tame: "tame (Es i) cmd True s s1"
    using dispatch_tame [OF s1(1) set(2)] by simp
  then have s1': "owner s1" "plain_ok (svStore s1)" "values_of (svStore s1) = set_map cmd (values_of (svStore s))" "same_role s s1"
    using Cons.prems set owner_role [of s s1] by (auto simp: tame_def)
  obtain t where "apply_all L Es (i + 1) cmds s1 = Ret t" "same_role s1 t" "plain_ok (svStore t)"
      "values_of (svStore t) = fold set_map cmds (values_of (svStore s1))"
    using Cons.IH [OF s1'(1,2) s1(2), of "i + 1"] Cons.prems(4) by auto
  then show ?case
    using s1 s1' Cons.prems(1) same_role_trans [of s s1 t] by (simp add: owner_execute)
qed simp

section \<open>The gate\<close>

lemma gate:
  assumes "cArgs cmd \<noteq> [Password (svConfig s)]"
  shows "\<exists>out. handle_command L E contains peer False cmd s = Ret (Continue False out, s) \<or>
               handle_command L E contains peer False cmd s = Ret (Closed out, s)"
proof (cases "length (cArgs cmd) = 1")
  case True
  then have "hd (cArgs cmd) \<noteq> Password (svConfig s)"
    using assms by (cases "cArgs cmd") auto
  then show ?thesis
    by (auto simp: handle_command_def)
qed (auto simp: handle_command_def)

text \<open>
  The commands in the bytes a client sends, up to the first error, panic or the end. A connection that is not
  authenticated does not stop at any of them.
\<close>

function sent_cmds :: "golib \<Rightarrow> bytes \<Rightarrow> command list" where
  "sent_cmds L s =
     (case ParseCommand L s of
        Ret (Inr (c, r)) \<Rightarrow> (case c of None \<Rightarrow> [] | Some cmd \<Rightarrow> [cmd]) @ sent_cmds L r
      | _ \<Rightarrow> [])"
  by pat_completeness auto
termination
  by (relation "measure (\<lambda>(L, s). length s)") (auto dest: ParseCommand_shorter)

declare sent_cmds.simps [simp del]

definition stays_out :: "server \<Rightarrow> (turn option \<times> conn \<times> server) outcome \<Rightarrow> bool" where
  "stays_out s x \<longleftrightarrow>
     (\<exists>t c. x = Ret (t, c, s) \<and> \<not> cnAuthed c \<and> (t = None \<or> (\<exists>out. t = Some (Closed out))))"

lemma conn_loop_gate:
  assumes "\<not> cnAuthed c" "\<forall>cmd \<in> set (sent_cmds L (cnIn c)). cArgs cmd \<noteq> [Password (svConfig s)]"
  shows "stays_out s (conn_loop L st Es contains peer i c s) \<or>
    (\<exists>m. conn_loop L st Es contains peer i c s = Panic m) \<and> CHR ''-'' \<in> set (cnIn c)"
  using assms
proof (induction "length (cnIn c)" arbitrary: c i rule: less_induct)
  case less
  note loop = conn_loop.simps [of L st Es contains peer i c s]
  note sent = less.prems(2) [unfolded sent_cmds.simps [of L "cnIn c"]]
  consider m where "ParseCommand L (cnIn c) = Panic m" | e where "ParseCommand L (cnIn c) = Ret (Inl e)"
    | co r where "ParseCommand L (cnIn c) = Ret (Inr (co, r))"
    by (metis outcome.exhaust old.sum.exhaust surj_pair)
  then show ?case
  proof cases
    case (1 m)
    then show ?thesis
      using ParseCommand_no_panic [of "cnIn c" L] by (auto simp: loop)
  next
    case (2 e)
    then show ?thesis
      using less.prems(1) by (simp add: loop stays_out_def)
  next
    case (3 co r)
    note short = ParseCommand_shorter [OF 3]
    have r: "set r \<subseteq> set (cnIn c)" "\<forall>cmd \<in> set (sent_cmds L r). cArgs cmd \<noteq> [Password (svConfig s)]"
      using ParseCommand_set [OF 3] sent 3 by simp_all
    show ?thesis
    proof (cases co)
      case None
      then show ?thesis
        using less.hyps [of "c\<lparr>cnIn := r\<rparr>" i] short r less.prems 3 by (auto simp: loop)
    next
      case (Some cmd)
      then have "cArgs cmd \<noteq> [Password (svConfig s)]"
        using sent 3 by simp
      from gate [OF this, of L "Es i" contains peer] obtain out where
        "handle_command L (Es i) contains peer False cmd s = Ret (Continue False out, s) \<or>
         handle_command L (Es i) contains peer False cmd s = Ret (Closed out, s)"
        by blast
      then show ?thesis
        using less.hyps [of "c\<lparr>cnIn := r, cnAuthed := False, cnOut := cnOut c @ out\<rparr>" "i + 1"]
          short r less.prems 3 Some by (auto simp: loop stays_out_def)
    qed
  qed
qed

section \<open>The role\<close>

lemma exec_roles:
  "same_role s (snd (exec_set E cmd replay s))" "same_role s (snd (exec_get E cmd s))"
  "exec_publish cmd replay s = Ret (x, t) \<Longrightarrow> same_role s t" "same_role s (snd (exec_save E s))"
  "same_role s (snd (exec_bgsave s))" "same_role s (snd (exec_migrate E cmd s))"
proof -
  show "same_role s (snd (exec_set E cmd replay s))"
    by (auto simp: exec_set_def Let_def same_role_def broadcastToReplicas_def log_command_def split: list.split option.split)
  show "same_role s (snd (exec_get E cmd s))"
    by (auto simp: exec_get_def same_role_def split: list.split prod.split sum.split store_error.split)
  show "exec_publish cmd replay s = Ret (x, t) \<Longrightarrow> same_role s t"
    by (auto simp: exec_publish_def same_role_def broadcastToReplicas_def Let_def
        split: list.splits outcome.splits prod.splits if_splits)
  show "same_role s (snd (exec_save E s))"
    by (auto simp: exec_save_def saveSnapshot_def same_role_def split: prod.split option.split)
  show "same_role s (snd (exec_bgsave s))"
    by (auto simp: exec_bgsave_def startBGSAVE_def same_role_def)
  show "same_role s (snd (exec_migrate E cmd s))"
    by (auto simp: exec_migrate_def migrateKey_def same_role_def split: list.splits prod.splits sum.splits option.splits if_splits)
qed

lemma execute_role: "executeCommand L E cmd replay s = Ret (x, t) \<Longrightarrow> same_role s t"
proof -
  assume ex: "executeCommand L E cmd replay s = Ret (x, t)"
  have "same_role s t" if "dispatch L E cmd replay s = Ret (x, t)"
    using that exec_roles by (auto simp: dispatch_def Let_def split: if_splits) (metis snd_conv)+
  then show ?thesis
    using ex by (auto simp: executeCommand_def split: outcome.splits option.splits)
qed

lemma apply_all_role: "apply_all L Es i cmds s = Ret t \<Longrightarrow> same_role s t"
proof (induction cmds arbitrary: i s)
  case (Cons cmd cmds)
  then obtain x u where "executeCommand L (Es i) cmd True s = Ret (x, u)" "apply_all L Es (i + 1) cmds u = Ret t"
    by (auto split: outcome.splits)
  then show ?case
    using Cons.IH execute_role same_role_trans by blast
qed simp

section \<open>Streams of SET commands\<close>

definition set_cmd :: "string \<Rightarrow> string \<Rightarrow> command" where
  "set_cmd k v = \<lparr>cName = ''SET'', cArgs = [k, v]\<rparr>"

lemma replica_snapshot_log:
  "replica_snapshot E s = log_of (map (\<lambda>e. set_cmd (seKey e) (seValue e)) (SnapshotEntries (eNow E) (eOrd E) (svStore s)))"
  by (simp add: replica_snapshot_def log_of_def encode_cmd_def set_cmd_def comp_def)

lemma snapshot_sets:
  assumes "plain st"
  shows "fold set_map (map (\<lambda>e. set_cmd (seKey e) (seValue e)) (SnapshotEntries now ord st)) m
           = (\<lambda>k. if k \<in> set ord \<and> values_of st k \<noteq> None then values_of st k else m k)"
proof (induction ord arbitrary: m)
  case Nil
  then show ?case
    by (simp add: SnapshotEntries_def)
next
  case (Cons k ord)
  have "\<not> expired_at now it" if "map_of (sdata st) k = Some it" for it
    using assms that by (simp add: plain_def expired_at_def)
  then show ?case
    using Cons.IH by (auto simp: snapshot_Cons values_of_def set_map_def set_cmd_def fun_eq_iff split: option.splits)
qed

lemma snapshot_entries_values:
  assumes "e \<in> set (SnapshotEntries now ord st)"
  shows "values_of st (seKey e) = Some (seValue e)"
  using assms by (auto simp: SnapshotEntries_def values_of_def split: option.splits if_splits) metis

lemma log_of_append: "log_of (xs @ ys) = log_of xs @ log_of ys"
  by (simp add: log_of_def)

lemma read_log: "\<forall>c \<in> set cmds. loggable L c \<Longrightarrow> ReadCommands L (log_of cmds) = Ret (cmds, None)"
  using recover_cut [of cmds L "length (log_of cmds)"] by (auto simp: complete_all)

section \<open>Properties\<close>

text \<open>
  C4: End to end durability, under the conditions it needs: no memory limit (a negative
  \<^verbatim>\<open>MaxMemory\<close>; the default is 1 GB), no master to follow, a log device that never fails, \<^verbatim>\<open>SET\<close>
  commands within the limits of the parser that reads them back, and no \<^verbatim>\<open>MIGRATE\<close>, whose deletion is
  not logged. Then the server serves any sequence of commands without a panic, and one that
  is started afresh from the log it left behind holds exactly the same keys and values.
\<close>
theorem restart_recovers:
  assumes cfg: "MaxMemory c < 0" "0 \<le> Slots c" "Slots c < 65536" "ReplicaOf c = []" "AOFPath c \<noteq> []"
    and cmds: "\<forall>cmd \<in> set cmds. cName cmd \<noteq> ''MIGRATE'' \<and> (is_set cmd \<longrightarrow> loggable L cmd)"
    and dev: "\<forall>i. eFault (Es i) = None"
  shows "\<exists>t a u. serve_all L Es 0 cmds ((NewServer c)\<lparr>svAof := Some (NewAOF [] p)\<rparr>) = Ret t \<and> svAof t = Some a \<and>
           restoreData L Es' now None (Inr (afile a), True) (NewServer c) = Ret (None, u) \<and>
           values_of (svStore u) = values_of (svStore t)"
proof -
  let ?n = "NewServer c" and ?sets = "filter is_set cmds"
  let ?s = "?n\<lparr>svAof := Some (NewAOF [] p)\<rparr>"
  have mem: "MaxMemory (fill_defaults c) \<le> 0" "AOFPath (fill_defaults c) \<noteq> []"
    using cfg by (simp_all add: fill_defaults_def Let_def)
  have fresh: "owner ?n" "plain_ok (svStore ?n)" "ps_inv (svPubsub ?n)" "values_of (svStore ?n) = Map.empty"
    using NewServer_owner cfg(2,3) plain_New [OF mem(1)] new_inv by (auto simp: NewServer_fields)
  have "owner ?s"
    using fresh(1) by (simp add: owner_def moved_def Let_def)
  then have run: "running (NewAOF [] p) ?s"
    using fresh cfg(4) by (simp add: running_def NewAOF_def NewServer_fields)
  obtain t a where t: "serve_all L Es 0 cmds ?s = Ret t" "running a t" "afile a = log_of ?sets"
      "values_of (svStore t) = fold set_map ?sets Map.empty"
    using serve_all_log [OF run, of Es cmds L 0] cmds dev fresh(4) by (auto simp: NewAOF_def)
  obtain u where u: "apply_all L Es' 0 ?sets ?n = Ret u" "values_of (svStore u) = fold set_map ?sets Map.empty"
    using apply_all_sets [OF fresh(1,2,3), of ?sets L Es' 0] fresh(4) by auto
  have "ReadCommands L (afile a) = Ret (?sets, None)"
    using read_log [of ?sets L] cmds t(3) by auto
  then show ?thesis
    using t u mem by (auto simp: restoreData_def initAOF_opens NewServer_fields running_def)
qed

definition demo_env :: env where
  "demo_env = \<lparr>eNow = 1, eNow2 = 1, eOrd = [], eFault = None, eSyncOk = True, eSaveError = None,
     eExchange = (\<lambda>_ _. Inl ''refused'')\<rparr>"

definition demo_cfg :: config where
  "demo_cfg = demo_config\<lparr>MaxMemory := - 1, AOFPath := ''fas.aof''\<rparr>"

theorem restart_recovers_witness:
  "\<exists>t a u. serve_all ascii_golib (\<lambda>_. demo_env) 0 [demo_cmd, demo_cmd]
        ((NewServer demo_cfg)\<lparr>svAof := Some (NewAOF [] FsyncAlways)\<rparr>) = Ret t \<and> svAof t = Some a \<and>
      restoreData ascii_golib (\<lambda>_. demo_env) 5 None (Inr (afile a), True) (NewServer demo_cfg) = Ret (None, u) \<and>
      values_of (svStore u) = values_of (svStore t)"
  by (rule restart_recovers)
    (use demo_cmd_loggable in \<open>simp_all add: demo_cfg_def demo_config_def demo_env_def, simp add: demo_cmd_def\<close>)

definition demo_master :: server where
  "demo_master = (NewServer demo_cfg)\<lparr>svStore := (demo EvictionNoEviction)\<lparr>maxMemory := - 1\<rparr>\<rparr>"

lemma demo_master_plain: "plain_ok (svStore demo_master)"
proof -
  have "store_inv ((demo EvictionNoEviction)\<lparr>maxMemory := - 1\<rparr>)"
    using demo_inv [of EvictionNoEviction] by (simp add: store_inv_def data_ok_def ring_ok_def heaps_ok_def persistent_def)
  then show ?thesis
    by (auto simp: plain_ok_def plain_def demo_master_def demo_def demo_item_def split: if_splits)
qed

text \<open>
  C18: The authentication gate. With authentication on, a client none of whose commands has the
  password as its only argument changes nothing on the server, whatever bytes it sends: it
  is answered or disconnected, stays unauthenticated, and gets neither a replication stream nor
  a subscription. The one thing it can do is end the process with a negative number, which needs no
  password: the parser panics before the gate is reached, and only on input with a minus sign.
\<close>
theorem no_password_no_effect:
  assumes "AuthEnabled (svConfig s)" "\<forall>cmd \<in> set (sent_cmds L input). cArgs cmd \<noteq> [Password (svConfig s)]"
  shows "(\<exists>t c. handleConnection L st Es contains peer input s = Ret (t, c, s) \<and> \<not> cnAuthed c \<and>
            (t = None \<or> (\<exists>out. t = Some (Closed out)))) \<or>
         (\<exists>m. handleConnection L st Es contains peer input s = Panic m) \<and> CHR ''-'' \<in> set input"
  using assms(1) conn_loop_gate [of "\<lparr>cnIn = input, cnAuthed = False, cnOut = []\<rparr>" L s st Es contains peer 0] assms(2)
  by (auto simp: handleConnection_def stays_out_def)

theorem no_password_no_effect_witness:
  "\<exists>t c. handleConnection ascii_golib (\<lambda>_. []) (\<lambda>_. demo_env) (\<lambda>_ _. True) NotTCP (log_of [demo_cmd])
           (demo_master\<lparr>svConfig := demo_cfg\<lparr>AuthEnabled := True, Password := ''pw''\<rparr>\<rparr>)
         = Ret (t, c, demo_master\<lparr>svConfig := demo_cfg\<lparr>AuthEnabled := True, Password := ''pw''\<rparr>\<rparr>) \<and> \<not> cnAuthed c"
proof -
  let ?s = "demo_master\<lparr>svConfig := demo_cfg\<lparr>AuthEnabled := True, Password := ''pw''\<rparr>\<rparr>"
  have "sent_cmds ascii_golib (log_of [demo_cmd]) = [demo_cmd]" "CHR ''-'' \<notin> set (log_of [demo_cmd])"
    by code_simp+
  then have "AuthEnabled (svConfig ?s)" "CHR ''-'' \<notin> set (log_of [demo_cmd])"
      "\<forall>cmd \<in> set (sent_cmds ascii_golib (log_of [demo_cmd])). cArgs cmd \<noteq> [Password (svConfig ?s)]"
    by (simp_all add: demo_cmd_def)
  with no_password_no_effect [of ?s ascii_golib "log_of [demo_cmd]"] show ?thesis
    by blast
qed

text \<open>
  A replica refuses writes of its clients: \<^verbatim>\<open>SET\<close> and \<^verbatim>\<open>PUBLISH\<close> leave the whole server
  as it was and answer with an error or a redirection.
\<close>
lemma replica_readonly:
  assumes "replicaMode s" "cName cmd = ''SET'' \<or> cName cmd = ''PUBLISH''"
    "executeCommand L E cmd False s = Ret (r, t)"
  shows "t = s \<and> (HasPrefix r ''ERR '' \<or> HasPrefix r ''MOVED '')"
proof (cases "\<exists>x. redirect cmd False s = Ret (Some x)")
  case True
  then obtain x where x: "redirect cmd False s = Ret (Some x)"
    by blast
  then have "\<exists>i. moved i s = Some x"
    by (auto simp: redirect_def split: outcome.splits option.splits if_splits)
  then show ?thesis
    using x assms(3) by (auto simp: executeCommand_def moved_def Let_def HasPrefix_def split: if_splits)
next
  case False
  then have "dispatch L E cmd False s = Ret (r, t)"
    using assms(3) by (auto simp: executeCommand_def split: outcome.splits option.splits)
  then show ?thesis
    using assms(1,2)
    by (auto simp: dispatch_def exec_set_def exec_publish_def HasPrefix_def split: list.splits)
qed

text \<open>
  C35: Redirection. A command whose first argument hashes to a slot of another node is
  answered with \<^verbatim>\<open>MOVED\<close>, the slot and that node's address, and changes nothing. This holds for
  every command, for arguments that are no keys, and also in replay mode, where the command is silently skipped.
\<close>
theorem foreign_key_moved:
  assumes "cArgs cmd = k # rest" "keySlot k (slotCount s) = Ret i"
    "Lookup (cluster s) i \<noteq> []" "Lookup (cluster s) i \<noteq> selfAddr s"
  shows "executeCommand L E cmd replay s = Ret (''MOVED '' @ dec_int i @ '' '' @ Lookup (cluster s) i, s)"
  using assms by (simp add: executeCommand_def redirect_def arg_slot_def moved_def Let_def)

theorem foreign_key_moved_witness:
  "\<exists>i. executeCommand ascii_golib demo_env demo_cmd True
         ((NewServer demo_cfg)\<lparr>cluster := NewClusterState 16384 ''other:1''\<rparr>)
       = Ret (''MOVED '' @ dec_int i @ '' '' @ ''other:1'', (NewServer demo_cfg)\<lparr>cluster := NewClusterState 16384 ''other:1''\<rparr>)"
proof -
  let ?s = "(NewServer demo_cfg)\<lparr>cluster := NewClusterState 16384 ''other:1''\<rparr>"
  have look: "Lookup (cluster ?s) i = ''other:1''" for i
    by (simp add: Lookup_def NewClusterState_def)
  have "slotCount ?s = 16384"
    by (simp add: NewServer_fields fill_defaults_def demo_cfg_def demo_config_def)
  then obtain i where "keySlot ''k'' (slotCount ?s) = Ret i"
    using keySlot_returns [of 16384 "''k''"] by auto
  moreover have "selfAddr ?s \<noteq> ''other:1''"
    by (simp add: NewServer_def addr_of_def ValidateAndFill_def fill_defaults_def demo_cfg_def demo_config_def)
  ultimately show ?thesis
    using foreign_key_moved [of demo_cmd "''k''" "[''v'']" ?s i ascii_golib demo_env True] look
    by (auto simp: demo_cmd_def)
qed

text \<open>
  C36: What a client sees of a value. \<^verbatim>\<open>GET\<close> sends a stored value as a bulk string with
  exactly its bytes, unless the value is \<^verbatim>\<open>OK\<close> or \<^verbatim>\<open>(nil)\<close> or starts with \<^verbatim>\<open>ERR \<close> or
  \<^verbatim>\<open>(integer) \<close>; the reply to \<^verbatim>\<open>(nil)\<close> is that of a missing key.
\<close>
theorem get_reply:
  assumes "owner s" "plain (svStore s)" "values_of (svStore s) k = Some v"
    "\<not> HasPrefix v ''ERR ''" "\<not> HasPrefix v ''(integer) ''" "v \<noteq> ''(nil)''" "v \<noteq> ''OK''"
    and "ToUpper L ''GET'' = ''GET''" "AllowedCIDR (svConfig s) = []"
  shows "(\<exists>t. handle_command L E contains peer True \<lparr>cName = ''GET'', cArgs = [k]\<rparr> s
                = Ret (Continue True (WriteBulkString v), t) \<and> same_role s t) \<and>
         reply_bytes L ''(nil)'' = WriteNull"
proof -
  have g: "fst (Get k (eNow E) (svStore s)) = Inr v"
    using plain_get [OF assms(2)] assms(3) by simp
  obtain st where "Get k (eNow E) (svStore s) = (Inr v, st)"
    using g by (metis prod.collapse)
  then have "executeCommand L E \<lparr>cName = ''GET'', cArgs = [k]\<rparr> False s = Ret (v, s\<lparr>svStore := st\<rparr>)"
    using assms(1) by (simp add: owner_execute dispatch_def exec_get_def)
  then show ?thesis
    using assms(4-9)
    by (simp add: handle_command_def peer_rejected_def reply_bytes_def same_role_def HasPrefix_def)
qed

theorem get_reply_witness:
  "\<exists>t. handle_command ascii_golib demo_env (\<lambda>_ _. True) NotTCP True \<lparr>cName = ''GET'', cArgs = [''a'']\<rparr> demo_master
        = Ret (Continue True (WriteBulkString ''x''), t)"
proof -
  have up: "ToUpper ascii_golib ''GET'' = ''GET''"
    by code_simp
  have "owner (NewServer demo_cfg)"
    by (rule NewServer_owner) (simp_all add: demo_cfg_def demo_config_def)
  then have own: "owner demo_master"
    by (simp add: demo_master_def owner_def moved_def Let_def)
  have "plain (svStore demo_master)" "values_of (svStore demo_master) ''a'' = Some ''x''"
      "AllowedCIDR (svConfig demo_master) = []"
    by (auto simp: demo_master_def demo_def demo_item_def plain_def values_of_def NewServer_fields
        fill_defaults_def demo_cfg_def demo_config_def split: if_splits)
  then have "(\<exists>t. handle_command ascii_golib demo_env (\<lambda>_ _. True) NotTCP True \<lparr>cName = ''GET'', cArgs = [''a'']\<rparr> demo_master
      = Ret (Continue True (WriteBulkString ''x''), t) \<and> same_role demo_master t) \<and> reply_bytes ascii_golib ''(nil)'' = WriteNull"
    by (intro get_reply own up) (simp_all add: HasPrefix_def)
  then show ?thesis
    by blast
qed

end
