(* ===== verification/Fas_EventLoop.thy ===== *)
theory Fas_EventLoop
  imports Fas_Server_Props
begin

text \<open>
  The single-threaded event loops (\<^verbatim>\<open>eventloop_linux.go\<close>, \<^verbatim>\<open>eventloop_darwin.go\<close>): one
  client's input buffer, the commands taken from it, the write buffer and the interest in write
  events. The two files differ in when a client starts authenticated and needs the password,
  and in how often they read; the rest is shared. Results of system calls are arguments:
  what each \<^verbatim>\<open>read\<close> and \<^verbatim>\<open>write\<close> gave (an exhausted list stands for \<^verbatim>\<open>EAGAIN\<close>), and
  whether changing the interest in write events succeeded.
\<close>

section \<open>State and operations\<close>

record client =
  clBuf :: bytes
  clOut :: bytes
  writeEnabled :: bool
  clAuthed :: bool

datatype read_result = RData bytes | RAgain | RError | REOF
datatype write_result = Wrote nat | WAgain | WError

definition linux_gate :: "server \<Rightarrow> bool" where
  "linux_gate s = AuthEnabled (svConfig s)"

definition darwin_gate :: "server \<Rightarrow> bool" where
  "darwin_gate s \<longleftrightarrow> Password (svConfig s) \<noteq> []"

definition linux_accept :: "server \<Rightarrow> client" where
  "linux_accept s = \<lparr>clBuf = [], clOut = [], writeEnabled = False, clAuthed = \<not> AuthEnabled (svConfig s)\<rparr>"

definition darwin_accept :: "server \<Rightarrow> client" where
  "darwin_accept s = \<lparr>clBuf = [], clOut = [], writeEnabled = False, clAuthed = (Password (svConfig s) = [])\<rparr>"

definition enableWrite :: "bool \<Rightarrow> client \<Rightarrow> client" where
  "enableWrite ok c = (if writeEnabled c then c else if ok then c\<lparr>writeEnabled := True\<rparr> else c)"

definition disableWrite :: "bool \<Rightarrow> client \<Rightarrow> client" where
  "disableWrite ok c = (if \<not> writeEnabled c then c else if ok then c\<lparr>writeEnabled := False\<rparr> else c)"

definition queueWrite :: "bool \<Rightarrow> bytes \<Rightarrow> client \<Rightarrow> client" where
  "queueWrite ok bs c = enableWrite ok (c\<lparr>clOut := clOut c @ bs\<rparr>)"

definition el_reply :: "string \<Rightarrow> bytes" where
  "el_reply resp =
     (if HasPrefix resp ''ERR '' then ''-ERR '' @ TrimPrefix resp ''ERR '' @ crlf
      else if HasPrefix resp ''(integer) ''
        then CHR '':'' # dec_int (scan_or_zero (TrimPrefix resp ''(integer) '')) @ crlf
      else if resp = ''(nil)'' then ''$-1'' @ crlf
      else if resp = ''OK'' then ''+OK'' @ crlf
      else CHR ''$'' # dec_nat (length resp) @ crlf @ resp @ crlf)"

text \<open>What one parsed command does: the authentication gate, or its execution.\<close>

definition el_command ::
  "golib \<Rightarrow> env \<Rightarrow> bool \<Rightarrow> (server \<Rightarrow> bool) \<Rightarrow> command \<Rightarrow> client \<Rightarrow> server \<Rightarrow> (client \<times> server) outcome"
where
  "el_command L E ok gate cmd c s =
     (if gate s \<and> \<not> clAuthed c then
        (if ToUpper L (cName cmd) \<noteq> ''AUTH''
           then Ret (queueWrite ok (''-NOAUTH Authentication required'' @ crlf) c, s)
         else if length (cArgs cmd) \<noteq> 1
           then Ret (queueWrite ok (''-ERR wrong number of arguments for 'auth' command'' @ crlf) c, s)
         else if hd (cArgs cmd) = Password (svConfig s)
           then Ret (queueWrite ok (''+OK'' @ crlf) (c\<lparr>clAuthed := True\<rparr>), s)
         else Ret (queueWrite ok (''-ERR invalid password'' @ crlf) c, s))
      else (case executeCommand L E cmd False s of
         Panic m \<Rightarrow> Panic m
       | Ret (resp, s') \<Rightarrow> Ret (queueWrite ok (el_reply resp) c, s')))"

text \<open>
  The command loop of \<^verbatim>\<open>read\<close>. It returns the client, or \<open>None\<close> when a parse error closed the
  connection, the server, and how many commands were handled so far (\<open>i\<close> picks the \<open>env\<close> of
  each command and the result of its change of interest). The buffer is cut before the command is
  handled and a command leaves it alone, as \<open>el_command_buf\<close> shows; naming it again makes the loop
  visibly shorter.
\<close>

function el_run ::
  "golib \<Rightarrow> (nat \<Rightarrow> env) \<Rightarrow> (nat \<Rightarrow> bool) \<Rightarrow> (server \<Rightarrow> bool) \<Rightarrow> nat \<Rightarrow> client \<Rightarrow> server \<Rightarrow>
     (client option \<times> server \<times> nat) outcome"
where
  "el_run L Es ctl gate i c s =
     (if clBuf c = [] then Ret (Some c, s, i)
      else case ParseCommandFromBytes L (clBuf c) of
        Panic m \<Rightarrow> Panic m
      | Ret (Inl e) \<Rightarrow> Ret (None, s, i)
      | Ret (Inr (None, _)) \<Rightarrow> Ret (Some c, s, i)
      | Ret (Inr (Some cmd, n)) \<Rightarrow>
          (case el_command L (Es i) (ctl i) gate cmd (c\<lparr>clBuf := drop n (clBuf c)\<rparr>) s of
             Panic m \<Rightarrow> Panic m
           | Ret (c', s') \<Rightarrow> el_run L Es ctl gate (i + 1) (c'\<lparr>clBuf := drop n (clBuf c)\<rparr>) s'))"
  by pat_completeness auto
termination
  by (relation "measure (\<lambda>(L, Es, ctl, gate, i, c, s). length (clBuf c))") (auto dest: parse_bytes_bounds)

declare el_run.simps [simp del]

lemma queueWrite_buf [simp]: "clBuf (queueWrite ok bs c) = clBuf c"
  by (simp add: queueWrite_def enableWrite_def)

lemma el_command_buf: "el_command L E ok gate cmd c s = Ret (c', s') \<Longrightarrow> clBuf c' = clBuf c"
  by (auto simp: el_command_def split: if_splits outcome.splits)

fun linux_fill :: "read_result list \<Rightarrow> client \<Rightarrow> client option" where
  "linux_fill [] c = Some c"
| "linux_fill (RData bs # rs) c = linux_fill rs (c\<lparr>clBuf := clBuf c @ bs\<rparr>)"
| "linux_fill (RAgain # rs) c = Some c"
| "linux_fill (RError # rs) c = None"
| "linux_fill (REOF # rs) c = None"

definition linux_read ::
  "golib \<Rightarrow> (nat \<Rightarrow> env) \<Rightarrow> (nat \<Rightarrow> bool) \<Rightarrow> read_result list \<Rightarrow> nat \<Rightarrow> client \<Rightarrow> server \<Rightarrow>
     (client option \<times> server \<times> nat) outcome"
where
  "linux_read L Es ctl rs i c s =
     (case linux_fill rs c of None \<Rightarrow> Ret (None, s, i) | Some c' \<Rightarrow> el_run L Es ctl linux_gate i c' s)"

definition darwin_read ::
  "golib \<Rightarrow> (nat \<Rightarrow> env) \<Rightarrow> (nat \<Rightarrow> bool) \<Rightarrow> read_result \<Rightarrow> nat \<Rightarrow> client \<Rightarrow> server \<Rightarrow>
     (client option \<times> server \<times> nat) outcome"
where
  "darwin_read L Es ctl r i c s =
     (case r of
        RAgain \<Rightarrow> Ret (Some c, s, i)
      | RError \<Rightarrow> Ret (None, s, i)
      | REOF \<Rightarrow> Ret (None, s, i)
      | RData bs \<Rightarrow> el_run L Es ctl darwin_gate i (c\<lparr>clBuf := clBuf c @ bs\<rparr>) s)"

text \<open>
  \<^verbatim>\<open>write\<close> on Linux: the bytes that went out and the client, \<open>None\<close> when an error closed it.
\<close>

fun write_loop :: "bool \<Rightarrow> write_result list \<Rightarrow> bytes \<Rightarrow> client \<Rightarrow> bytes \<times> client option" where
  "write_loop ok [] sent c =
     (sent, Some (if clOut c = [] then disableWrite ok c else enableWrite ok c))"
| "write_loop ok (r # rs) sent c =
     (if clOut c = [] then (sent, Some (disableWrite ok c))
      else case r of
        WAgain \<Rightarrow> (sent, Some (enableWrite ok c))
      | WError \<Rightarrow> (sent, None)
      | Wrote n \<Rightarrow>
          if n = 0 then (sent, Some c)
          else write_loop ok rs (sent @ take n (clOut c)) (c\<lparr>clOut := drop n (clOut c)\<rparr>))"

definition linux_write :: "bool \<Rightarrow> write_result list \<Rightarrow> client \<Rightarrow> bytes \<times> client option" where
  "linux_write ok rs c = write_loop ok rs [] c"

text \<open>
  On Darwin \<^verbatim>\<open>EAGAIN\<close> leaves the interest as it is, and the flag is cleared even when the system
  call fails.
\<close>

definition darwin_disableWrite :: "client \<Rightarrow> client" where
  "darwin_disableWrite c = (if \<not> writeEnabled c then c else c\<lparr>writeEnabled := False\<rparr>)"

fun darwin_write_loop :: "write_result list \<Rightarrow> bytes \<Rightarrow> client \<Rightarrow> bytes \<times> client option" where
  "darwin_write_loop [] sent c = (sent, Some (if clOut c = [] then darwin_disableWrite c else c))"
| "darwin_write_loop (r # rs) sent c =
     (if clOut c = [] then (sent, Some (darwin_disableWrite c))
      else case r of
        WAgain \<Rightarrow> (sent, Some c)
      | WError \<Rightarrow> (sent, None)
      | Wrote n \<Rightarrow>
          if n = 0 then (sent, Some c)
          else darwin_write_loop rs (sent @ take n (clOut c)) (c\<lparr>clOut := drop n (clOut c)\<rparr>))"

definition darwin_write :: "write_result list \<Rightarrow> client \<Rightarrow> bytes \<times> client option" where
  "darwin_write rs c = darwin_write_loop rs [] c"

text \<open>The configurations the event loop refuses to start with.\<close>

definition start_refusal :: "server \<Rightarrow> string option" where
  "start_refusal s =
     (let c = svConfig s in
      if TLSCertPath c \<noteq> [] \<or> TLSKeyPath c \<noteq> []
        then Some ''TLS is not supported in event loop mode; use standard mode instead''
      else if ReplicaUseTLS c then Some ''Replica TLS is not supported in event loop mode''
      else if AllowedCIDR c \<noteq> []
        then Some ''CIDR allowlist is not supported in event loop mode; use standard mode''
      else if AuthEnabled c \<and> Password c = [] then Some ''auth enabled but no password provided''
      else None)"

section \<open>Facts about the command loop\<close>

lemma el_run_step:
  assumes "ParseCommandFromBytes L (clBuf c) = Ret (Inr (Some cmd, n))"
    "el_command L (Es i) (ctl i) gate cmd (c\<lparr>clBuf := drop n (clBuf c)\<rparr>) s = Ret (c', s')"
  shows "el_run L Es ctl gate i c s = el_run L Es ctl gate (i + 1) c' s'"
proof -
  have "clBuf c \<noteq> []"
    using assms(1) by (auto simp: ParseCommandFromBytes_def)
  moreover have "c'\<lparr>clBuf := drop n (clBuf c)\<rparr> = c'"
    using el_command_buf [OF assms(2)] by simp
  ultimately show ?thesis
    using assms by (subst el_run.simps) simp
qed

lemma queueWrite_update: "queueWrite ok bs (c\<lparr>clBuf := x\<rparr>) = (queueWrite ok bs c)\<lparr>clBuf := x\<rparr>"
  by (simp add: queueWrite_def enableWrite_def)

lemma el_command_update:
  assumes "el_command L E ok gate cmd c s = Ret (c', s')"
  shows "el_command L E ok gate cmd (c\<lparr>clBuf := x\<rparr>) s = Ret (c'\<lparr>clBuf := x\<rparr>, s')"
proof -
  have u: "c\<lparr>clBuf := x, clAuthed := True\<rparr> = c\<lparr>clAuthed := True, clBuf := x\<rparr>"
    by simp
  show ?thesis
    using assms by (auto simp: el_command_def queueWrite_update u split: if_splits outcome.splits)
qed

lemma el_run_feed:
  assumes "el_run L Es ctl gate i c s = Ret (Some c1, s1, j)"
  shows "el_run L Es ctl gate i (c\<lparr>clBuf := clBuf c @ y\<rparr>) s
           = el_run L Es ctl gate j (c1\<lparr>clBuf := clBuf c1 @ y\<rparr>) s1"
  using assms
proof (induction "length (clBuf c)" arbitrary: c s i rule: less_induct)
  case less
  note run = el_run.simps [of L Es ctl gate i c s]
  show ?case
  proof (cases "clBuf c \<noteq> [] \<and> (\<exists>cmd n. ParseCommandFromBytes L (clBuf c) = Ret (Inr (Some cmd, n)))")
    case True
    then obtain cmd n where p: "ParseCommandFromBytes L (clBuf c) = Ret (Inr (Some cmd, n))"
      by blast
    have n: "2 \<le> n" "n \<le> length (clBuf c)"
      using parse_bytes_bounds [OF p] by auto
    obtain c' s' where c': "el_command L (Es i) (ctl i) gate cmd (c\<lparr>clBuf := drop n (clBuf c)\<rparr>) s = Ret (c', s')"
      using less.prems run p True by (auto split: outcome.splits)
    have buf: "clBuf c' = drop n (clBuf c)"
      using el_command_buf [OF c'] by simp
    have "el_run L Es ctl gate (i + 1) c' s' = Ret (Some c1, s1, j)"
      using el_run_step [of L c cmd n Es i ctl gate s c' s'] p c' less.prems by simp
    moreover have "length (clBuf c') < length (clBuf c)"
      using n buf by simp
    ultimately have "el_run L Es ctl gate (i + 1) (c'\<lparr>clBuf := clBuf c' @ y\<rparr>) s'
        = el_run L Es ctl gate j (c1\<lparr>clBuf := clBuf c1 @ y\<rparr>) s1"
      using less.hyps by blast
    moreover have "el_run L Es ctl gate i (c\<lparr>clBuf := clBuf c @ y\<rparr>) s
        = el_run L Es ctl gate (i + 1) (c'\<lparr>clBuf := clBuf c' @ y\<rparr>) s'"
    proof (rule el_run_step)
      show "ParseCommandFromBytes L (clBuf (c\<lparr>clBuf := clBuf c @ y\<rparr>)) = Ret (Inr (Some cmd, n))"
        using parse_bytes_append [of L "clBuf c" y] p by simp
      show "el_command L (Es i) (ctl i) gate cmd
          ((c\<lparr>clBuf := clBuf c @ y\<rparr>)\<lparr>clBuf := drop n (clBuf (c\<lparr>clBuf := clBuf c @ y\<rparr>))\<rparr>) s
          = Ret (c'\<lparr>clBuf := clBuf c' @ y\<rparr>, s')"
        using el_command_update [OF c', of "drop n (clBuf c) @ y"] buf n by simp
    qed
    ultimately show ?thesis
      by simp
  next
    case False
    then have "c1 = c \<and> s1 = s \<and> j = i"
      using less.prems run by (auto split: if_splits outcome.splits sum.splits option.splits)
    then show ?thesis
      by simp
  qed
qed

lemma el_command_authed:
  assumes "\<not> (gate s \<and> \<not> clAuthed c)" "executeCommand L E cmd False s = Ret (resp, t)"
  shows "el_command L E ok gate cmd c s = Ret (queueWrite ok (el_reply resp) c, t)"
  unfolding el_command_def if_not_P [OF assms(1)] assms(2) by simp

section \<open>Which commands are executed\<close>

text \<open>
  The commands at the front of a buffer, and the bytes that wait for the rest of a command; \<open>None\<close> when
  the parser fails, which closes the connection.
\<close>

function el_commands :: "golib \<Rightarrow> bytes \<Rightarrow> command list \<times> bytes option" where
  "el_commands L b =
     (if b = [] then ([], Some [])
      else case ParseCommandFromBytes L b of
        Ret (Inr (Some cmd, n)) \<Rightarrow> (let (cmds, rest) = el_commands L (drop n b) in (cmd # cmds, rest))
      | Ret (Inr (None, _)) \<Rightarrow> ([], Some b)
      | _ \<Rightarrow> ([], None))"
  by pat_completeness auto
termination
  by (relation "measure (\<lambda>(L, b). length b)") (auto dest: parse_bytes_bounds)

declare el_commands.simps [simp del]

text \<open>
  The commands of a connection that pass the gate, each with its place among all of them, and whether the connection is
  authenticated in the end. A password is given if the gate is on.
\<close>

fun el_admit :: "golib \<Rightarrow> string option \<Rightarrow> bool \<Rightarrow> nat \<Rightarrow> command list \<Rightarrow> (nat \<times> command) list \<times> bool" where
  "el_admit L pw authed i [] = ([], authed)"
| "el_admit L pw authed i (cmd # cmds) =
     (if pw \<noteq> None \<and> \<not> authed
      then el_admit L pw (ToUpper L (cName cmd) = ''AUTH'' \<and> cArgs cmd = [the pw]) (i + 1) cmds
      else (let (xs, a) = el_admit L pw authed (i + 1) cmds in ((i, cmd) # xs, a)))"

definition gate_pw :: "(server \<Rightarrow> bool) \<Rightarrow> server \<Rightarrow> string option" where
  "gate_pw gate s = (if gate s then Some (Password (svConfig s)) else None)"

text \<open>Executing commands one after the other, each with the \<open>env\<close> of its place.\<close>

fun serve_at :: "golib \<Rightarrow> (nat \<Rightarrow> env) \<Rightarrow> (nat \<times> command) list \<Rightarrow> server \<Rightarrow> server outcome" where
  "serve_at L Es [] s = Ret s"
| "serve_at L Es ((i, cmd) # xs) s =
     (case executeCommand L (Es i) cmd False s of
        Panic m \<Rightarrow> Panic m
      | Ret (_, t) \<Rightarrow> serve_at L Es xs t)"

lemma serve_at_append:
  "serve_at L Es (xs @ ys) s = (case serve_at L Es xs s of Panic m \<Rightarrow> Panic m | Ret t \<Rightarrow> serve_at L Es ys t)"
  by (induction xs arbitrary: s) (auto split: outcome.split)

lemma el_commands_Nil [simp]: "el_commands L [] = ([], Some [])"
  by (simp add: el_commands.simps)

lemma el_commands_step:
  assumes "ParseCommandFromBytes L b = Ret (Inr (Some cmd, n))"
  shows "el_commands L b = (let (cmds, rest) = el_commands L (drop n b) in (cmd # cmds, rest))"
    and "length (drop n b) < length b" "n \<le> length b"
proof -
  have "b \<noteq> []"
    using assms by (auto simp: ParseCommandFromBytes_def)
  then show "el_commands L b = (let (cmds, rest) = el_commands L (drop n b) in (cmd # cmds, rest))"
    by (simp add: el_commands.simps [of L b] assms)
  show "length (drop n b) < length b" "n \<le> length b"
    using parse_bytes_bounds [OF assms] \<open>b \<noteq> []\<close> by auto
qed

lemma el_commands_stop:
  assumes "\<nexists>cmd n. ParseCommandFromBytes L b = Ret (Inr (Some cmd, n))"
  shows "el_commands L b = ([], Some b) \<or> el_commands L b = ([], None)"
  using assms by (auto simp: el_commands.simps [of L b] split: outcome.split sum.split option.split)

lemma el_commands_rest: "el_commands L b = (cs, Some r) \<Longrightarrow> el_commands L r = ([], Some r)"
proof (induction "length b" arbitrary: b cs rule: less_induct)
  case less
  show ?case
  proof (cases "\<exists>cmd n. ParseCommandFromBytes L b = Ret (Inr (Some cmd, n))")
    case True
    then obtain cmd n where p: "ParseCommandFromBytes L b = Ret (Inr (Some cmd, n))"
      by blast
    then show ?thesis
      using less.hyps [OF el_commands_step(2) [OF p]] less.prems el_commands_step(1) [OF p]
      by (auto split: prod.splits)
  next
    case False
    then show ?thesis
      using el_commands_stop [of L b] less.prems by auto
  qed
qed

lemma el_commands_append:
  "el_commands L b = (cs, Some r) \<Longrightarrow> el_commands L (b @ y) = (let (ds, q) = el_commands L (r @ y) in (cs @ ds, q))"
proof (induction "length b" arbitrary: b cs rule: less_induct)
  case less
  show ?case
  proof (cases "\<exists>cmd n. ParseCommandFromBytes L b = Ret (Inr (Some cmd, n))")
    case True
    then obtain cmd n where p: "ParseCommandFromBytes L b = Ret (Inr (Some cmd, n))"
      by blast
    note b = el_commands_step [OF p]
    obtain cs' where cs: "el_commands L (drop n b) = (cs', Some r)" "cs = cmd # cs'"
      using less.prems b(1) by (auto split: prod.splits)
    have "ParseCommandFromBytes L (b @ y) = Ret (Inr (Some cmd, n))"
      using parse_bytes_append [of L b y] p by simp
    then show ?thesis
      using less.hyps [OF b(2) cs(1)] el_commands_step(1) b(3) cs(2) by (simp add: split: prod.split)
  next
    case False
    then show ?thesis
      using el_commands_stop [of L b] less.prems by (auto split: prod.split)
  qed
qed

lemma el_admit_append:
  "el_admit L pw a i (xs @ ys) =
     (let (p, b) = el_admit L pw a i xs; (q, d) = el_admit L pw b (i + length xs) ys in (p @ q, d))"
  by (induction xs arbitrary: a i) (simp_all add: Let_def split: prod.split)

text \<open>The places are only labels.\<close>

lemma el_admit_places:
  "map snd (fst (el_admit L pw a i xs)) = map snd (fst (el_admit L pw a j xs)) \<and>
   snd (el_admit L pw a i xs) = snd (el_admit L pw a j xs)"
proof (induction xs arbitrary: a i j)
  case (Cons x xs)
  then show ?case
    using Cons.IH [of _ "Suc i" "Suc j"] by (auto simp: split: prod.split) (metis fst_conv snd_conv)+
qed simp

lemma el_command_exact:
  assumes "el_command L E ok gate cmd c s = Ret (c', t)"
  shows "if gate s \<and> \<not> clAuthed c
         then t = s \<and> clAuthed c' = (ToUpper L (cName cmd) = ''AUTH'' \<and> cArgs cmd = [Password (svConfig s)])
         else clAuthed c' = clAuthed c \<and> (\<exists>r. executeCommand L E cmd False s = Ret (r, t))"
  using assms
  by (auto simp: el_command_def queueWrite_def enableWrite_def length_Suc_conv split: if_splits outcome.splits)

text \<open>The loop executes exactly the commands of the buffer that pass the gate, in their order.\<close>

lemma el_run_exact:
  assumes gate: "\<And>s t. svConfig t = svConfig s \<Longrightarrow> gate t = gate s"
  shows "el_run L Es ctl gate i c s = Ret (co, t, j) \<Longrightarrow> el_commands L (clBuf c) = (cmds, rest) \<Longrightarrow>
    el_admit L (gate_pw gate s) (clAuthed c) i cmds = (xs, a) \<Longrightarrow>
    serve_at L Es xs s = Ret t \<and> svConfig t = svConfig s \<and> rest = map_option clBuf co \<and>
    (\<forall>c'. co = Some c' \<longrightarrow> clAuthed c' = a)"
proof (induction "length (clBuf c)" arbitrary: i c s cmds xs rule: less_induct)
  case less
  note run = el_run.simps [of L Es ctl gate i c s]
  show ?case
  proof (cases "\<exists>cmd n. ParseCommandFromBytes L (clBuf c) = Ret (Inr (Some cmd, n))")
    case True
    then obtain cmd n where p: "ParseCommandFromBytes L (clBuf c) = Ret (Inr (Some cmd, n))"
      by blast
    note b = el_commands_step [OF p]
    have "clBuf c \<noteq> []"
      using b(2) by auto
    then obtain c1 s1 where c1: "el_command L (Es i) (ctl i) gate cmd (c\<lparr>clBuf := drop n (clBuf c)\<rparr>) s = Ret (c1, s1)"
      using less.prems(1) run p by (auto split: outcome.splits)
    have next_run: "el_run L Es ctl gate (i + 1) c1 s1 = Ret (co, t, j)" "clBuf c1 = drop n (clBuf c)"
      using el_run_step [of L c cmd n Es i ctl gate s c1 s1] p c1 less.prems(1) el_command_buf [OF c1] by simp_all
    obtain cmds' where cmds: "el_commands L (clBuf c1) = (cmds', rest)" "cmds = cmd # cmds'"
      using b(1) less.prems(2) next_run(2) by (auto split: prod.splits)
    note exact = el_command_exact [OF c1]
    have cfg: "svConfig s1 = svConfig s"
      using exact execute_role by (fastforce simp: same_role_def split: if_splits)
    then have pw: "gate_pw gate s1 = gate_pw gate s"
      using gate [of s1 s] by (simp add: gate_pw_def)
    obtain ys where ys: "el_admit L (gate_pw gate s1) (clAuthed c1) (i + 1) cmds' = (ys, a)"
        "xs = ys \<and> s1 = s \<or> xs = (i, cmd) # ys \<and> (\<exists>r. executeCommand L (Es i) cmd False s = Ret (r, s1))"
      using less.prems(3) exact pw unfolding cmds(2)
      by (cases "gate s \<and> \<not> clAuthed c") (auto simp: gate_pw_def split: prod.splits if_splits)
    have "serve_at L Es ys s1 = Ret t \<and> svConfig t = svConfig s1 \<and> rest = map_option clBuf co \<and>
        (\<forall>c'. co = Some c' \<longrightarrow> clAuthed c' = a)"
      using less.hyps [OF _ next_run(1) cmds(1) ys(1)] b(2) next_run(2) by simp
    then show ?thesis
      using ys(2) cfg by auto
  next
    case False
    then have "(co = Some c \<and> el_commands L (clBuf c) = ([], Some (clBuf c)) \<or> co = None \<and> el_commands L (clBuf c) = ([], None)) \<and> t = s"
      using less.prems(1) run
      by (auto simp: el_commands.simps [of L "clBuf c"] split: if_splits outcome.splits sum.splits option.splits)
    then show ?thesis
      using less.prems(2,3) by auto
  qed
qed

section \<open>Properties\<close>

text \<open>
  C25: How the network cuts the stream does not matter. If the command loop has worked
  through a buffer and more bytes arrive later, the final state of client and server, the bytes
  to send and the commands run are the same as if all bytes had been there at once.
\<close>
theorem eventloop_chunking:
  assumes "el_run L Es ctl gate i c s = Ret (Some c1, s1, j)"
  shows "el_run L Es ctl gate j (c1\<lparr>clBuf := clBuf c1 @ y\<rparr>) s1
           = el_run L Es ctl gate i (c\<lparr>clBuf := clBuf c @ y\<rparr>) s"
  using el_run_feed [OF assms] by simp

definition demo_client :: client where
  "demo_client = \<lparr>clBuf = [], clOut = [], writeEnabled = False, clAuthed = True\<rparr>"

theorem eventloop_chunking_witness:
  "el_run ascii_golib (\<lambda>_. demo_env) (\<lambda>_. True) linux_gate 0 (demo_client\<lparr>clBuf := ''PI'' @ ''NG'' @ crlf\<rparr>) demo_master
     = el_run ascii_golib (\<lambda>_. demo_env) (\<lambda>_. True) linux_gate 0
         ((demo_client\<lparr>clBuf := ''PI''\<rparr>)\<lparr>clBuf := clBuf (demo_client\<lparr>clBuf := ''PI''\<rparr>) @ ''NG'' @ crlf\<rparr>) demo_master"
proof -
  have "el_run ascii_golib (\<lambda>_. demo_env) (\<lambda>_. True) linux_gate 0 (demo_client\<lparr>clBuf := ''PI''\<rparr>) demo_master
      = Ret (Some (demo_client\<lparr>clBuf := ''PI''\<rparr>), demo_master, 0)"
    by (subst el_run.simps) (simp add: demo_client_def ParseCommandFromBytes_def parseInline_def)
  from eventloop_chunking [OF this, of "''NG'' @ crlf"] show ?thesis
    by (simp add: demo_client_def)
qed

text \<open>
  Pipelining. Commands that were written back to back are all executed, in order and
  once each, with the effect on the server of executing them one by one; the buffer ends empty.
\<close>
lemma eventloop_pipeline:
  assumes "\<forall>cmd \<in> set cmds. loggable L cmd" "serve_all L Es i cmds s = Ret t"
    and "clAuthed c" "clBuf c = log_of cmds"
  shows "\<exists>c'. el_run L Es ctl gate i c s = Ret (Some c', t, i + length cmds) \<and> clBuf c' = [] \<and> clAuthed c'"
  using assms
proof (induction cmds arbitrary: i c s)
  case Nil
  then show ?case
    by (subst el_run.simps) (simp add: log_of_def)
next
  case (Cons cmd cmds)
  obtain resp s1 where x: "executeCommand L (Es i) cmd False s = Ret (resp, s1)" "serve_all L Es (i + 1) cmds s1 = Ret t"
    using Cons.prems(2) by (auto split: outcome.splits)
  let ?n = "length (encode_cmd cmd)"
  let ?c = "queueWrite (ctl i) (el_reply resp) (c\<lparr>clBuf := drop ?n (clBuf c)\<rparr>)"
  have p: "ParseCommandFromBytes L (clBuf c) = Ret (Inr (Some cmd, ?n))"
    using Cons.prems(1,4) parse_write_buffer_aux [of "cName cmd # cArgs cmd" L "log_of cmds"]
    by (simp add: loggable_def encode_cmd_def log_of_def to_command_def)
  have "el_command L (Es i) (ctl i) gate cmd (c\<lparr>clBuf := drop ?n (clBuf c)\<rparr>) s = Ret (?c, s1)"
    using el_command_authed [OF _ x(1)] Cons.prems(3) by simp
  then have "el_run L Es ctl gate i c s = el_run L Es ctl gate (i + 1) ?c s1"
    using el_run_step [of L c cmd ?n Es i ctl gate s ?c s1] p by simp
  moreover have "clBuf ?c = log_of cmds" "clAuthed ?c"
    using Cons.prems(3,4) by (simp_all add: log_of_def queueWrite_def enableWrite_def)
  ultimately show ?case
    using Cons.IH [OF _ x(2), of ?c] Cons.prems(1) by simp
qed

text \<open>
  A blank line at the front of the buffer stops a client for good: the parser consumes
  it without a command, the loop takes that for an incomplete command and leaves the buffer as it is,
  whatever follows.
\<close>
lemma blank_line_stalls:
  "el_run L Es ctl gate i (c\<lparr>clBuf := crlf @ rest\<rparr>) s = Ret (Some (c\<lparr>clBuf := crlf @ rest\<rparr>), s, i) \<and>
   ParseCommandFromBytes L (crlf @ rest) = Ret (Inr (None, 2))"
proof -
  have "ParseCommandFromBytes L (crlf @ rest) = Ret (Inr (None, 2))"
    using TrimSpace_trimmed [of "[]"] by (simp add: ParseCommandFromBytes_def parseInline_def trimmed_def)
  then show ?thesis
    by (subst el_run.simps) simp
qed

text \<open>
  Nothing is lost or reordered on the way out: what \<^verbatim>\<open>write\<close> has sent, followed by what
  it keeps, is what was queued, however the writes are cut into pieces.
\<close>
lemma linux_write_order:
  assumes "linux_write ok rs c = (sent, Some c')"
  shows "sent @ clOut c' = clOut c \<and> clBuf c' = clBuf c \<and> clAuthed c' = clAuthed c"
proof -
  have "sent @ clOut c' = acc @ clOut c \<and> clBuf c' = clBuf c \<and> clAuthed c' = clAuthed c"
    if "write_loop ok rs acc c = (sent, Some c')" for acc
    using that
    by (induction ok rs acc c rule: write_loop.induct)
      (auto simp: enableWrite_def disableWrite_def split: if_splits write_result.splits)
  then show ?thesis
    using assms by (simp add: linux_write_def)
qed

lemma darwin_write_order:
  assumes "darwin_write rs c = (sent, Some c')"
  shows "sent @ clOut c' = clOut c \<and> clBuf c' = clBuf c \<and> clAuthed c' = clAuthed c"
proof -
  have "sent @ clOut c' = acc @ clOut c \<and> clBuf c' = clBuf c \<and> clAuthed c' = clAuthed c"
    if "darwin_write_loop rs acc c = (sent, Some c')" for acc
    using that
    by (induction rs acc c rule: darwin_write_loop.induct)
      (auto simp: darwin_disableWrite_def split: if_splits write_result.splits)
  then show ?thesis
    using assms by (simp add: darwin_write_def)
qed

end
