(* ===== verification/Fas_Loop.thy ===== *)
theory Fas_Loop
  imports Fas_EventLoop "HOL-Library.Sublist"
begin

text \<open>
  The event loops as a whole (\<^verbatim>\<open>StartEventLoop\<close>, \<^verbatim>\<open>accept\<close> and \<^verbatim>\<open>close\<close> of
  \<^verbatim>\<open>eventloop_linux.go\<close> and \<^verbatim>\<open>eventloop_darwin.go\<close>): the table of connections by descriptor
  and what each event of \<^verbatim>\<open>epoll\<close> or \<^verbatim>\<open>kqueue\<close> does to it. An event carries the results of the
  system calls its handler makes. Both systems meet one contract, the locale \<open>loop_system\<close>, in
  which the facts about whole runs are proved once.
\<close>

declare map_of_eq_Some_iff [simp del] Some_eq_map_of_iff [simp del]

section \<open>State and operations\<close>

record loop =
  lConns :: "(nat \<times> client) list"
  lServer :: server
  lCount :: nat
  lSent :: "(nat \<times> bytes) list"

text \<open>
  A result of \<^verbatim>\<open>accept\<close>: a descriptor, with the outcome of making it non-blocking and of
  registering it, or an error that ends the loop. An exhausted list is \<^verbatim>\<open>EAGAIN\<close>.
\<close>

datatype accept_result = Accepted nat bool bool | AcceptError

fun accept_loop :: "client \<Rightarrow> accept_result list \<Rightarrow> (nat \<times> client) list \<Rightarrow> (nat \<times> client) list" where
  "accept_loop new [] conns = conns"
| "accept_loop new (AcceptError # rs) conns = conns"
| "accept_loop new (Accepted fd nonblock registered # rs) conns =
     (if nonblock \<and> registered then accept_loop new rs (AList.update fd new conns)
      else accept_loop new rs conns)"

definition el_close :: "nat \<Rightarrow> loop \<Rightarrow> loop" where
  "el_close fd l = l\<lparr>lConns := AList.delete fd (lConns l)\<rparr>"

definition put_client :: "nat \<Rightarrow> client option \<Rightarrow> loop \<Rightarrow> loop" where
  "put_client fd c l =
     (case c of None \<Rightarrow> el_close fd l | Some c' \<Rightarrow> l\<lparr>lConns := AList.update fd c' (lConns l)\<rparr>)"

text \<open>\<^verbatim>\<open>read\<close> and \<^verbatim>\<open>write\<close> begin with the lookup of the descriptor; \<open>rd\<close> and \<open>wr\<close> are the rest.\<close>

definition loop_read ::
  "(nat \<Rightarrow> client \<Rightarrow> server \<Rightarrow> (client option \<times> server \<times> nat) outcome) \<Rightarrow> nat \<Rightarrow> loop \<Rightarrow> loop outcome"
where
  "loop_read rd fd l =
     (case map_of (lConns l) fd of
        None \<Rightarrow> Ret l
      | Some c \<Rightarrow>
          (case rd (lCount l) c (lServer l) of
             Panic m \<Rightarrow> Panic m
           | Ret (c', s', j) \<Rightarrow> Ret ((put_client fd c' l)\<lparr>lServer := s', lCount := j\<rparr>)))"

definition loop_write :: "(client \<Rightarrow> bytes \<times> client option) \<Rightarrow> nat \<Rightarrow> loop \<Rightarrow> loop" where
  "loop_write wr fd l =
     (case map_of (lConns l) fd of
        None \<Rightarrow> l
      | Some c \<Rightarrow> (let (sent, c') = wr c in (put_client fd c' l)\<lparr>lSent := lSent l @ [(fd, sent)]\<rparr>))"

record epoll_event =
  epFd :: nat
  epHup :: bool
  epIn :: bool
  epOut :: bool
  epAccepts :: "accept_result list"
  epReads :: "read_result list"
  epWrites :: "write_result list"
  epCtl :: bool

definition linux_event ::
  "golib \<Rightarrow> (nat \<Rightarrow> env) \<Rightarrow> (nat \<Rightarrow> bool) \<Rightarrow> nat \<Rightarrow> epoll_event \<Rightarrow> loop \<Rightarrow> loop outcome"
where
  "linux_event L Es ctl lfd ev l =
     (if epFd ev = lfd then Ret (l\<lparr>lConns := accept_loop (linux_accept (lServer l)) (epAccepts ev) (lConns l)\<rparr>)
      else if epHup ev then Ret (el_close (epFd ev) l)
      else case (if epIn ev then loop_read (linux_read L Es ctl (epReads ev)) (epFd ev) l else Ret l) of
        Panic m \<Rightarrow> Panic m
      | Ret l1 \<Rightarrow> Ret (if epOut ev then loop_write (linux_write (epCtl ev) (epWrites ev)) (epFd ev) l1 else l1))"

datatype kq_filter = FilterRead read_result | FilterWrite "write_result list" | FilterOther

record kq_event =
  kqFd :: nat
  kqEof :: bool
  kqFilter :: kq_filter
  kqAccepts :: "accept_result list"

definition darwin_event ::
  "golib \<Rightarrow> (nat \<Rightarrow> env) \<Rightarrow> (nat \<Rightarrow> bool) \<Rightarrow> nat \<Rightarrow> kq_event \<Rightarrow> loop \<Rightarrow> loop outcome"
where
  "darwin_event L Es ctl lfd ev l =
     (if kqFd ev = lfd then Ret (l\<lparr>lConns := accept_loop (darwin_accept (lServer l)) (kqAccepts ev) (lConns l)\<rparr>)
      else if kqEof ev then Ret (el_close (kqFd ev) l)
      else case kqFilter ev of
        FilterRead r \<Rightarrow> loop_read (darwin_read L Es ctl r) (kqFd ev) l
      | FilterWrite ws \<Rightarrow> Ret (loop_write (darwin_write ws) (kqFd ev) l)
      | FilterOther \<Rightarrow> Ret l)"

text \<open>The endless loop, for as many events as have been delivered.\<close>

fun run_events :: "('e \<Rightarrow> loop \<Rightarrow> loop outcome) \<Rightarrow> 'e list \<Rightarrow> loop \<Rightarrow> loop outcome" where
  "run_events step [] l = Ret l"
| "run_events step (ev # evs) l =
     (case step ev l of Panic m \<Rightarrow> Panic m | Ret l' \<Rightarrow> run_events step evs l')"

section \<open>Observations\<close>

text \<open>
  The bytes a turn of \<^verbatim>\<open>read\<close> appends to the buffer; \<open>None\<close> when it closes the connection instead.
\<close>

fun linux_recv :: "read_result list \<Rightarrow> bytes option" where
  "linux_recv [] = Some []"
| "linux_recv (RData bs # rs) = map_option (\<lambda>bs'. bs @ bs') (linux_recv rs)"
| "linux_recv (RAgain # rs) = Some []"
| "linux_recv (RError # rs) = None"
| "linux_recv (REOF # rs) = None"

fun darwin_recv :: "read_result \<Rightarrow> bytes option" where
  "darwin_recv (RData bs) = Some bs"
| "darwin_recv RAgain = Some []"
| "darwin_recv _ = None"

text \<open>
  What an event should execute, from the buffer of its connection and the bytes that arrive: the
  descriptor, the place and the command, for each command that passes the gate.
\<close>

definition turn_cmds ::
  "golib \<Rightarrow> (server \<Rightarrow> bool) \<Rightarrow> bytes option \<Rightarrow> nat \<Rightarrow> client \<Rightarrow> server \<Rightarrow> (nat \<times> command) list"
where
  "turn_cmds L gate recv i c s =
     (case recv of
        None \<Rightarrow> []
      | Some bs \<Rightarrow> fst (el_admit L (gate_pw gate s) (clAuthed c) i (fst (el_commands L (clBuf c @ bs)))))"

definition read_cmds ::
  "golib \<Rightarrow> (server \<Rightarrow> bool) \<Rightarrow> bytes option \<Rightarrow> nat \<Rightarrow> loop \<Rightarrow> (nat \<times> command) list"
where
  "read_cmds L gate recv fd l =
     (case map_of (lConns l) fd of None \<Rightarrow> [] | Some c \<Rightarrow> turn_cmds L gate recv (lCount l) c (lServer l))"

definition linux_cmds :: "golib \<Rightarrow> nat \<Rightarrow> epoll_event \<Rightarrow> loop \<Rightarrow> (nat \<times> command) list" where
  "linux_cmds L lfd ev l =
     (if epFd ev = lfd \<or> epHup ev \<or> \<not> epIn ev then []
      else read_cmds L linux_gate (linux_recv (epReads ev)) (epFd ev) l)"

definition darwin_cmds :: "golib \<Rightarrow> nat \<Rightarrow> kq_event \<Rightarrow> loop \<Rightarrow> (nat \<times> command) list" where
  "darwin_cmds L lfd ev l =
     (if kqFd ev = lfd \<or> kqEof ev then []
      else case kqFilter ev of
        FilterRead r \<Rightarrow> read_cmds L darwin_gate (darwin_recv r) (kqFd ev) l
      | _ \<Rightarrow> [])"

text \<open>The bytes an event brings for a descriptor.\<close>

definition linux_bytes :: "nat \<Rightarrow> nat \<Rightarrow> epoll_event \<Rightarrow> bytes" where
  "linux_bytes lfd fd ev =
     (if epFd ev = fd \<and> fd \<noteq> lfd \<and> \<not> epHup ev \<and> epIn ev
      then (case linux_recv (epReads ev) of Some bs \<Rightarrow> bs | None \<Rightarrow> []) else [])"

definition darwin_bytes :: "nat \<Rightarrow> nat \<Rightarrow> kq_event \<Rightarrow> bytes" where
  "darwin_bytes lfd fd ev =
     (if kqFd ev = fd \<and> fd \<noteq> lfd \<and> \<not> kqEof ev
      then (case kqFilter ev of
              FilterRead r \<Rightarrow> (case darwin_recv r of Some bs \<Rightarrow> bs | None \<Rightarrow> [])
            | _ \<Rightarrow> [])
      else [])"

text \<open>The commands of a whole run, in the order of the events, and those of one connection among them.\<close>

fun run_trace ::
  "('e \<Rightarrow> loop \<Rightarrow> loop outcome) \<Rightarrow> ('e \<Rightarrow> nat) \<Rightarrow> ('e \<Rightarrow> loop \<Rightarrow> (nat \<times> command) list) \<Rightarrow> 'e list \<Rightarrow> loop \<Rightarrow>
     (nat \<times> nat \<times> command) list"
where
  "run_trace step fd_of cmds [] l = []"
| "run_trace step fd_of cmds (ev # evs) l =
     map (Pair (fd_of ev)) (cmds ev l) @
     (case step ev l of Panic m \<Rightarrow> [] | Ret l' \<Rightarrow> run_trace step fd_of cmds evs l')"

definition own_cmds :: "nat \<Rightarrow> (nat \<times> nat \<times> command) list \<Rightarrow> command list" where
  "own_cmds fd tr = map (snd \<circ> snd) (filter (\<lambda>x. fst x = fd) tr)"

text \<open>
  No buffer holds a whole command between two events. This is so at the start, and every event keeps it.
\<close>

definition settled :: "golib \<Rightarrow> loop \<Rightarrow> bool" where
  "settled L l \<longleftrightarrow> (\<forall>fd c. map_of (lConns l) fd = Some c \<longrightarrow> el_commands L (clBuf c) = ([], Some (clBuf c)))"

text \<open>From \<open>c\<close> to \<open>c'\<close> a connection received \<open>bs\<close> and had \<open>cmds\<close> executed.\<close>

definition took :: "golib \<Rightarrow> string option \<Rightarrow> client \<Rightarrow> bytes \<Rightarrow> command list \<Rightarrow> client \<Rightarrow> bool" where
  "took L pw c bs cmds c' \<longleftrightarrow>
     (let (all, rest) = el_commands L (clBuf c @ bs); (xs, a) = el_admit L pw (clAuthed c) 0 all
      in cmds = map snd xs \<and> rest = Some (clBuf c') \<and> clAuthed c' = a)"

definition sent_to :: "nat \<Rightarrow> loop \<Rightarrow> bytes" where
  "sent_to fd l = concat (map snd (filter (\<lambda>p. fst p = fd) (lSent l)))"

text \<open>Everything queued for a connection so far: what was sent, then what waits in its buffer.\<close>

definition queued_for :: "nat \<Rightarrow> loop \<Rightarrow> bytes" where
  "queued_for fd l = sent_to fd l @ (case map_of (lConns l) fd of Some c \<Rightarrow> clOut c | None \<Rightarrow> [])"

definition is_open :: "nat \<Rightarrow> loop \<Rightarrow> bool" where
  "is_open fd l \<longleftrightarrow> map_of (lConns l) fd \<noteq> None"

fun open_throughout :: "('e \<Rightarrow> loop \<Rightarrow> loop outcome) \<Rightarrow> nat \<Rightarrow> 'e list \<Rightarrow> loop \<Rightarrow> bool" where
  "open_throughout step fd [] l \<longleftrightarrow> is_open fd l"
| "open_throughout step fd (ev # evs) l \<longleftrightarrow>
     is_open fd l \<and> (case step ev l of Panic m \<Rightarrow> True | Ret l' \<Rightarrow> open_throughout step fd evs l')"

definition accepted :: "accept_result list \<Rightarrow> nat set" where
  "accepted rs = {fd. \<exists>n r. Accepted fd n r \<in> set rs}"

lemma own_cmds_simps [simp]:
  "own_cmds fd [] = []" "own_cmds fd (xs @ ys) = own_cmds fd xs @ own_cmds fd ys"
  "own_cmds fd (map (Pair fd0) zs) = (if fd = fd0 then map snd zs else [])"
  by (simp_all add: own_cmds_def comp_def filter_map)

lemma took_refl: "el_commands L (clBuf c) = ([], Some (clBuf c)) \<Longrightarrow> took L pw c [] [] c"
  by (simp add: took_def)

lemma took_trans:
  assumes "took L pw c bs cmds c1" "took L pw c1 bs' cmds' c2"
  shows "took L pw c (bs @ bs') (cmds @ cmds') c2"
proof -
  obtain all xs where 1: "el_commands L (clBuf c @ bs) = (all, Some (clBuf c1))"
      "el_admit L pw (clAuthed c) 0 all = (xs, clAuthed c1)" "cmds = map snd xs"
    using assms(1) by (auto simp: took_def split: prod.splits)
  obtain all' ys where 2: "el_commands L (clBuf c1 @ bs') = (all', Some (clBuf c2))"
      "el_admit L pw (clAuthed c1) 0 all' = (ys, clAuthed c2)" "cmds' = map snd ys"
    using assms(2) by (auto simp: took_def split: prod.splits)
  obtain zs a where zs: "el_admit L pw (clAuthed c1) (length all) all' = (zs, a)"
    by fastforce
  then have "map snd zs = map snd ys" "a = clAuthed c2"
    using el_admit_places [of L pw "clAuthed c1" 0 all' "length all"] 2(2) by simp_all
  then show ?thesis
    using el_commands_append [OF 1(1), of bs'] el_admit_append [of L pw "clAuthed c" 0 all all'] 1 2 zs
    by (simp add: took_def)
qed

lemma took_cmds:
  "took L pw c bs cmds c' \<Longrightarrow> cmds = map snd (fst (el_admit L pw (clAuthed c) 0 (fst (el_commands L (clBuf c @ bs)))))"
  by (auto simp: took_def split: prod.splits)

section \<open>The contract of an event loop\<close>

locale loop_system =
  fixes L :: golib
    and Es :: "nat \<Rightarrow> env"
    and gate :: "server \<Rightarrow> bool"
    and step :: "'e \<Rightarrow> loop \<Rightarrow> loop outcome"
    and fd_of :: "'e \<Rightarrow> nat"
    and news :: "'e \<Rightarrow> nat set"
    and cmds :: "'e \<Rightarrow> loop \<Rightarrow> (nat \<times> command) list"
    and input :: "nat \<Rightarrow> 'e \<Rightarrow> bytes"
  assumes step_serves: "step ev l = Ret l' \<Longrightarrow> settled L l \<Longrightarrow>
      serve_at L Es (cmds ev l) (lServer l) = Ret (lServer l') \<and>
      gate_pw gate (lServer l') = gate_pw gate (lServer l) \<and> settled L l'"
    and step_took: "step ev l = Ret l' \<Longrightarrow> settled L l \<Longrightarrow>
      map_of (lConns l) fd = Some c \<Longrightarrow> map_of (lConns l') fd = Some c' \<Longrightarrow> fd \<notin> news ev \<Longrightarrow>
      took L (gate_pw gate (lServer l)) c (input fd ev) (own_cmds fd (map (Pair (fd_of ev)) (cmds ev l))) c'"
    and step_others: "step ev l = Ret l' \<Longrightarrow> fd \<noteq> fd_of ev \<Longrightarrow> fd \<notin> news ev \<Longrightarrow>
      map_of (lConns l') fd = map_of (lConns l) fd \<and> sent_to fd l' = sent_to fd l"
    and step_queued: "step ev l = Ret l' \<Longrightarrow> is_open fd l \<Longrightarrow> is_open fd l' \<Longrightarrow> fd \<notin> news ev \<Longrightarrow>
      prefix (queued_for fd l) (queued_for fd l')"
begin

abbreviation trace :: "'e list \<Rightarrow> loop \<Rightarrow> (nat \<times> nat \<times> command) list" where
  "trace \<equiv> run_trace step fd_of cmds"

lemma run_serves:
  "run_events step evs l = Ret l' \<Longrightarrow> settled L l \<Longrightarrow>
     serve_at L Es (map snd (trace evs l)) (lServer l) = Ret (lServer l') \<and> settled L l'"
proof (induction evs arbitrary: l)
  case (Cons ev evs)
  then obtain l1 where "step ev l = Ret l1" "run_events step evs l1 = Ret l'"
    by (auto split: outcome.splits)
  then show ?case
    using Cons.IH [of l1] Cons.prems(2) step_serves [of ev l l1] by (simp add: serve_at_append comp_def)
qed simp

lemma run_took:
  "run_events step evs l = Ret l' \<Longrightarrow> settled L l \<Longrightarrow> map_of (lConns l) fd = Some c \<Longrightarrow>
     open_throughout step fd evs l \<Longrightarrow> (\<And>ev. ev \<in> set evs \<Longrightarrow> fd \<notin> news ev) \<Longrightarrow>
     \<exists>c'. map_of (lConns l') fd = Some c' \<and>
       took L (gate_pw gate (lServer l)) c (concat (map (input fd) evs)) (own_cmds fd (trace evs l)) c'"
proof (induction evs arbitrary: l c)
  case Nil
  then show ?case
    using took_refl by (simp add: settled_def)
next
  case (Cons ev evs)
  then obtain l1 where l1: "step ev l = Ret l1" "run_events step evs l1 = Ret l'"
    by (auto split: outcome.splits)
  have open1: "open_throughout step fd evs l1"
    using Cons.prems(4) l1(1) by simp
  then obtain c1 where c1: "map_of (lConns l1) fd = Some c1"
    by (cases evs) (auto simp: is_open_def)
  have took1: "took L (gate_pw gate (lServer l)) c (input fd ev) (own_cmds fd (map (Pair (fd_of ev)) (cmds ev l))) c1"
    using step_took [OF l1(1) Cons.prems(2,3) c1] Cons.prems(5) by simp
  have s: "settled L l1" "gate_pw gate (lServer l1) = gate_pw gate (lServer l)"
    using step_serves [OF l1(1) Cons.prems(2)] by simp_all
  obtain c' where "map_of (lConns l') fd = Some c'"
      "took L (gate_pw gate (lServer l)) c1 (concat (map (input fd) evs)) (own_cmds fd (trace evs l1)) c'"
    using Cons.IH [OF l1(2) s(1) c1 open1] Cons.prems(5) s(2) by auto
  then show ?case
    using took_trans [OF took1] l1(1) by auto
qed

lemma run_cmds:
  assumes "run_events step evs l = Ret l'" "settled L l" "map_of (lConns l) fd = Some c"
    "open_throughout step fd evs l" "\<forall>ev \<in> set evs. fd \<notin> news ev"
  shows "own_cmds fd (trace evs l) =
    map snd (fst (el_admit L (gate_pw gate (lServer l)) (clAuthed c) 0 (fst (el_commands L (clBuf c @ concat (map (input fd) evs))))))"
  using run_took [OF assms(1-4)] assms(5) took_cmds by blast

lemma run_others:
  "run_events step evs l = Ret l' \<Longrightarrow> (\<And>ev. ev \<in> set evs \<Longrightarrow> fd \<noteq> fd_of ev \<and> fd \<notin> news ev) \<Longrightarrow>
     map_of (lConns l') fd = map_of (lConns l) fd \<and> sent_to fd l' = sent_to fd l"
proof (induction evs arbitrary: l)
  case (Cons ev evs)
  then obtain l1 where "step ev l = Ret l1" "run_events step evs l1 = Ret l'"
    by (auto split: outcome.splits)
  then show ?case
    using Cons.IH [of l1] Cons.prems(2) step_others [of ev l l1 fd] by simp
qed simp

lemma run_queued:
  "run_events step evs l = Ret l' \<Longrightarrow> open_throughout step fd evs l \<Longrightarrow> (\<And>ev. ev \<in> set evs \<Longrightarrow> fd \<notin> news ev) \<Longrightarrow>
     prefix (queued_for fd l) (queued_for fd l')"
proof (induction evs arbitrary: l)
  case (Cons ev evs)
  then obtain l1 where l1: "step ev l = Ret l1" "run_events step evs l1 = Ret l'"
    by (auto split: outcome.splits)
  then have "is_open fd l" "open_throughout step fd evs l1" "is_open fd l1"
    using Cons.prems(2) by (auto elim: open_throughout.elims)
  then show ?case
    using Cons.IH [OF l1(2)] Cons.prems(3) step_queued [OF l1(1)] prefix_order.trans by (metis list.set_intros)
qed simp

end

section \<open>The operations on one connection\<close>

locale client_ops =
  fixes L :: golib
    and Es :: "nat \<Rightarrow> env"
    and gate :: "server \<Rightarrow> bool"
    and rd :: "nat \<Rightarrow> client \<Rightarrow> server \<Rightarrow> (client option \<times> server \<times> nat) outcome"
    and recv :: "bytes option"
    and wr :: "client \<Rightarrow> bytes \<times> client option"
  assumes rd_serves: "rd i c s = Ret (co, t, j) \<Longrightarrow> el_commands L (clBuf c) = ([], Some (clBuf c)) \<Longrightarrow>
      serve_at L Es (turn_cmds L gate recv i c s) s = Ret t \<and> gate_pw gate t = gate_pw gate s"
    and rd_took: "rd i c s = Ret (Some c', t, j) \<Longrightarrow> el_commands L (clBuf c) = ([], Some (clBuf c)) \<Longrightarrow>
      took L (gate_pw gate s) c (case recv of Some bs \<Rightarrow> bs | None \<Rightarrow> []) (map snd (turn_cmds L gate recv i c s)) c'"
    and rd_appends: "rd i c s = Ret (Some c', t, j) \<Longrightarrow> prefix (clOut c) (clOut c')"
    and wr_order: "wr c = (sent, Some c') \<Longrightarrow> sent @ clOut c' = clOut c \<and> clBuf c' = clBuf c \<and> clAuthed c' = clAuthed c"
begin

lemma read_cases:
  assumes "loop_read rd fd l = Ret l'"
  obtains "l' = l" "map_of (lConns l) fd = None"
  | c co t j where "map_of (lConns l) fd = Some c" "rd (lCount l) c (lServer l) = Ret (co, t, j)"
      "l' = (put_client fd co l)\<lparr>lServer := t, lCount := j\<rparr>"
  using assms by (auto simp: loop_read_def split: option.splits outcome.splits)

lemma read_laws:
  assumes "loop_read rd fd l = Ret l'"
  shows "lSent l' = lSent l"
    and "fd' \<noteq> fd \<Longrightarrow> map_of (lConns l') fd' = map_of (lConns l) fd'"
    and "is_open fd l \<Longrightarrow> is_open fd l' \<Longrightarrow> prefix (queued_for fd l) (queued_for fd l')"
  using assms rd_appends
  by (cases rule: read_cases, simp, force simp: put_client_def el_close_def is_open_def queued_for_def sent_to_def split: option.splits)+

lemma write_laws:
  shows "lServer (loop_write wr fd l) = lServer l"
    and "fd' \<noteq> fd \<Longrightarrow> map_of (lConns (loop_write wr fd l)) fd' = map_of (lConns l) fd'"
    and "fd' \<noteq> fd \<Longrightarrow> sent_to fd' (loop_write wr fd l) = sent_to fd' l"
    and "is_open fd l \<Longrightarrow> is_open fd (loop_write wr fd l) \<Longrightarrow> queued_for fd (loop_write wr fd l) = queued_for fd l"
  using wr_order
  by (auto simp: loop_write_def put_client_def el_close_def is_open_def queued_for_def sent_to_def
      split: option.splits prod.splits)

end

lemma el_command_out: "el_command L E ok gate cmd c s = Ret (c', t) \<Longrightarrow> prefix (clOut c) (clOut c')"
proof -
  assume "el_command L E ok gate cmd c s = Ret (c', t)"
  then have "\<exists>bs c0. c' = queueWrite ok bs c0 \<and> clOut c0 = clOut c"
    by (auto simp: el_command_def split: if_splits outcome.splits) (metis client.select_convs(2) client.update_convs(4) client.surjective)+
  then show ?thesis
    by (auto simp: queueWrite_def enableWrite_def)
qed

lemma el_run_out: "el_run L Es ctl gate i c s = Ret (Some c', t, j) \<Longrightarrow> prefix (clOut c) (clOut c')"
proof (induction "length (clBuf c)" arbitrary: i c s rule: less_induct)
  case less
  note run = el_run.simps [of L Es ctl gate i c s]
  show ?case
  proof (cases "\<exists>cmd n. ParseCommandFromBytes L (clBuf c) = Ret (Inr (Some cmd, n))")
    case True
    then obtain cmd n where p: "ParseCommandFromBytes L (clBuf c) = Ret (Inr (Some cmd, n))"
      by blast
    then have buf: "clBuf c \<noteq> []" "2 \<le> n" "n \<le> length (clBuf c)"
      using parse_bytes_bounds [OF p] by (auto simp: ParseCommandFromBytes_def)
    obtain c1 s1 where c1: "el_command L (Es i) (ctl i) gate cmd (c\<lparr>clBuf := drop n (clBuf c)\<rparr>) s = Ret (c1, s1)"
      using less.prems run p buf by (auto split: outcome.splits)
    then have "el_run L Es ctl gate (i + 1) c1 s1 = Ret (Some c', t, j)"
      using el_run_step [of L c cmd n Es i ctl gate s c1 s1] p c1 less.prems by simp
    moreover have "length (clBuf c1) < length (clBuf c)"
      using el_command_buf [OF c1] buf by simp
    ultimately show ?thesis
      using less.hyps el_command_out [OF c1] prefix_order.trans by fastforce
  next
    case False
    then show ?thesis
      using less.prems run by (auto split: if_splits outcome.splits sum.splits option.splits)
  qed
qed

lemma linux_fill_recv: "linux_fill rs c = map_option (\<lambda>bs. c\<lparr>clBuf := clBuf c @ bs\<rparr>) (linux_recv rs)"
  by (induction rs c rule: linux_fill.induct) (auto simp: option.map_comp comp_def)

lemma linux_read_recv:
  "linux_read L Es ctl rs i c s =
     (case linux_recv rs of None \<Rightarrow> Ret (None, s, i) | Some bs \<Rightarrow> el_run L Es ctl linux_gate i (c\<lparr>clBuf := clBuf c @ bs\<rparr>) s)"
  by (simp add: linux_read_def linux_fill_recv split: option.split)

lemma gates: "svConfig t = svConfig s \<Longrightarrow> linux_gate t = linux_gate s" "svConfig t = svConfig s \<Longrightarrow> darwin_gate t = darwin_gate s"
  by (simp_all add: linux_gate_def darwin_gate_def)

text \<open>A turn that runs the command loop on the buffer and the new bytes.\<close>

lemma run_turn:
  assumes gate: "\<And>s t. svConfig t = svConfig s \<Longrightarrow> gate t = gate s"
    and run: "el_run L Es ctl gate i (c\<lparr>clBuf := clBuf c @ bs\<rparr>) s = Ret (co, t, j)"
  shows "serve_at L Es (turn_cmds L gate (Some bs) i c s) s = Ret t" "gate_pw gate t = gate_pw gate s"
    and "co = Some c' \<Longrightarrow> took L (gate_pw gate s) c bs (map snd (turn_cmds L gate (Some bs) i c s)) c'"
proof -
  obtain cmds rest where cmds: "el_commands L (clBuf c @ bs) = (cmds, rest)"
    by fastforce
  obtain xs a where xs: "el_admit L (gate_pw gate s) (clAuthed c) i cmds = (xs, a)"
    by fastforce
  have exact: "serve_at L Es xs s = Ret t \<and> svConfig t = svConfig s \<and> rest = map_option clBuf co \<and>
      (\<forall>c'. co = Some c' \<longrightarrow> clAuthed c' = a)"
    by (rule el_run_exact [OF gate run, of cmds]) (simp_all add: cmds xs)
  then show "serve_at L Es (turn_cmds L gate (Some bs) i c s) s = Ret t"
    by (simp add: turn_cmds_def cmds xs)
  show "gate_pw gate t = gate_pw gate s"
    using exact gate [of t s] by (simp add: gate_pw_def)
  show "took L (gate_pw gate s) c bs (map snd (turn_cmds L gate (Some bs) i c s)) c'" if "co = Some c'"
    using exact that el_admit_places [of L "gate_pw gate s" "clAuthed c" i cmds 0]
    by (auto simp: took_def turn_cmds_def cmds xs split: prod.split)
qed

lemma idle_turn:
  assumes "el_commands L (clBuf c) = ([], Some (clBuf c))"
  shows "turn_cmds L gate (Some []) i c s = []" "took L pw c [] [] c"
  using assms by (simp_all add: turn_cmds_def took_def)

interpretation linux_ops:
  client_ops L Es linux_gate "linux_read L Es ctl rs" "linux_recv rs" "linux_write ok ws" for L Es ctl rs ok ws
proof unfold_locales
  fix i c s co t j
  assume "linux_read L Es ctl rs i c s = Ret (co, t, j)"
  then show "serve_at L Es (turn_cmds L linux_gate (linux_recv rs) i c s) s = Ret t \<and> gate_pw linux_gate t = gate_pw linux_gate s"
    using run_turn(1,2) [OF gates(1)] by (auto simp: linux_read_recv turn_cmds_def [of _ _ None] split: option.splits)
next
  fix i c s c' t j
  assume "linux_read L Es ctl rs i c s = Ret (Some c', t, j)"
  then obtain bs where bs: "linux_recv rs = Some bs" "el_run L Es ctl linux_gate i (c\<lparr>clBuf := clBuf c @ bs\<rparr>) s = Ret (Some c', t, j)"
    by (auto simp: linux_read_recv split: option.splits)
  then show "took L (gate_pw linux_gate s) c (case linux_recv rs of Some bs \<Rightarrow> bs | None \<Rightarrow> [])
      (map snd (turn_cmds L linux_gate (linux_recv rs) i c s)) c'"
    using run_turn(3) [OF gates(1) bs(2)] by simp
  show "prefix (clOut c) (clOut c')"
    using el_run_out [OF bs(2)] by simp
next
  fix c sent c'
  assume "linux_write ok ws c = (sent, Some c')"
  then show "sent @ clOut c' = clOut c \<and> clBuf c' = clBuf c \<and> clAuthed c' = clAuthed c"
    using linux_write_order by blast
qed

interpretation darwin_ops:
  client_ops L Es darwin_gate "darwin_read L Es ctl r" "darwin_recv r" "darwin_write ws" for L Es ctl r ws
proof unfold_locales
  fix i c s co t j
  assume rd: "darwin_read L Es ctl r i c s = Ret (co, t, j)" "el_commands L (clBuf c) = ([], Some (clBuf c))"
  show "serve_at L Es (turn_cmds L darwin_gate (darwin_recv r) i c s) s = Ret t \<and> gate_pw darwin_gate t = gate_pw darwin_gate s"
    using rd(1) run_turn(1,2) [OF gates(2)] idle_turn(1) [OF rd(2)]
    by (cases r) (auto simp: darwin_read_def turn_cmds_def [of _ _ None])
next
  fix i c s c' t j
  assume rd: "darwin_read L Es ctl r i c s = Ret (Some c', t, j)"
  show "prefix (clOut c) (clOut c')"
    using rd el_run_out by (cases r) (force simp: darwin_read_def)+
  assume "el_commands L (clBuf c) = ([], Some (clBuf c))"
  then show "took L (gate_pw darwin_gate s) c (case darwin_recv r of Some bs \<Rightarrow> bs | None \<Rightarrow> [])
      (map snd (turn_cmds L darwin_gate (darwin_recv r) i c s)) c'"
    using rd run_turn(3) [OF gates(2)] idle_turn [of L c] by (cases r) (auto simp: darwin_read_def)
next
  fix c sent c'
  assume "darwin_write ws c = (sent, Some c')"
  then show "sent @ clOut c' = clOut c \<and> clBuf c' = clBuf c \<and> clAuthed c' = clAuthed c"
    using darwin_write_order by blast
qed

section \<open>Both systems meet the contract\<close>

lemma accept_loop_others: "fd \<notin> accepted rs \<Longrightarrow> map_of (accept_loop new rs conns) fd = map_of conns fd"
  by (induction new rs conns rule: accept_loop.induct) (auto simp: accepted_def)

lemma queued_same:
  "map_of (lConns l') fd = map_of (lConns l) fd \<Longrightarrow> sent_to fd l' = sent_to fd l \<Longrightarrow> queued_for fd l' = queued_for fd l"
  by (simp add: queued_for_def)

lemma write_open: "is_open fd' (loop_write wr fd l) \<Longrightarrow> is_open fd' l"
  by (auto simp: is_open_def loop_write_def put_client_def el_close_def split: option.splits prod.splits if_splits)

text \<open>
  What the handling of an event must satisfy for its descriptor: \<open>xs\<close> are the commands it executes and
  \<open>bs\<close> the bytes that arrive.
\<close>

definition step_ok ::
  "golib \<Rightarrow> (nat \<Rightarrow> env) \<Rightarrow> (server \<Rightarrow> bool) \<Rightarrow> nat \<Rightarrow> (nat \<times> command) list \<Rightarrow> bytes \<Rightarrow> loop \<Rightarrow> loop \<Rightarrow> bool"
where
  "step_ok L Es gate fd xs bs l l' \<longleftrightarrow>
     (settled L l \<longrightarrow>
        serve_at L Es xs (lServer l) = Ret (lServer l') \<and> gate_pw gate (lServer l') = gate_pw gate (lServer l) \<and>
        settled L l' \<and>
        (\<forall>c c'. map_of (lConns l) fd = Some c \<longrightarrow> map_of (lConns l') fd = Some c' \<longrightarrow>
           took L (gate_pw gate (lServer l)) c bs (map snd xs) c')) \<and>
     (\<forall>fd'. fd' \<noteq> fd \<longrightarrow> map_of (lConns l') fd' = map_of (lConns l) fd' \<and> sent_to fd' l' = sent_to fd' l) \<and>
     (is_open fd l' \<longrightarrow> is_open fd l \<and> prefix (queued_for fd l) (queued_for fd l'))"

lemma step_ok_refl: "step_ok L Es gate fd [] [] l l"
  by (auto simp: step_ok_def settled_def intro: took_refl)

lemma step_ok_trans:
  assumes "step_ok L Es gate fd xs bs l l1" "step_ok L Es gate fd ys bs' l1 l2"
  shows "step_ok L Es gate fd (xs @ ys) (bs @ bs') l l2"
proof -
  have "took L (gate_pw gate (lServer l)) c (bs @ bs') (map snd (xs @ ys)) c2"
    if l: "settled L l" "map_of (lConns l) fd = Some c" "map_of (lConns l2) fd = Some c2" for c c2
  proof -
    have "is_open fd l1"
      using assms(2) l(3) by (auto simp: step_ok_def is_open_def)
    then obtain c1 where c1: "map_of (lConns l1) fd = Some c1"
      by (auto simp: is_open_def)
    then have "took L (gate_pw gate (lServer l)) c bs (map snd xs) c1"
      "took L (gate_pw gate (lServer l)) c1 bs' (map snd ys) c2"
      using assms l by (auto simp: step_ok_def)
    from took_trans [OF this] show ?thesis
      by simp
  qed
  then show ?thesis
    using assms prefix_order.trans by (auto simp: step_ok_def serve_at_append)
qed

lemma settled_delete: "settled L l \<Longrightarrow> settled L (el_close fd l)"
  by (auto simp: settled_def el_close_def split: if_splits)

lemma step_ok_close: "step_ok L Es gate fd [] bs l (el_close fd l)"
  using settled_delete by (auto simp: step_ok_def el_close_def sent_to_def is_open_def)

context client_ops
begin

lemma read_ok:
  assumes rd: "loop_read rd fd l = Ret l'"
  shows "step_ok L Es gate fd (read_cmds L gate recv fd l) (case recv of Some bs \<Rightarrow> bs | None \<Rightarrow> []) l l'"
proof -
  have "serve_at L Es (read_cmds L gate recv fd l) (lServer l) = Ret (lServer l') \<and>
      gate_pw gate (lServer l') = gate_pw gate (lServer l) \<and> settled L l' \<and>
      (\<forall>c c'. map_of (lConns l) fd = Some c \<longrightarrow> map_of (lConns l') fd = Some c' \<longrightarrow>
         took L (gate_pw gate (lServer l)) c (case recv of Some bs \<Rightarrow> bs | None \<Rightarrow> []) (map snd (read_cmds L gate recv fd l)) c')"
    if l: "settled L l"
    using rd
  proof (cases rule: read_cases)
    case 1
    then show ?thesis
      using l by (simp add: read_cmds_def)
  next
    case (2 c co t j)
    have c: "el_commands L (clBuf c) = ([], Some (clBuf c))"
      using l 2(1) by (auto simp: settled_def)
    have new: "took L (gate_pw gate (lServer l)) c (case recv of Some bs \<Rightarrow> bs | None \<Rightarrow> [])
        (map snd (read_cmds L gate recv fd l)) c'" if "co = Some c'" for c'
      using rd_took 2(1,2) c that by (simp add: read_cmds_def)
    then have "el_commands L (clBuf c') = ([], Some (clBuf c'))" if "co = Some c'" for c'
      using that by (auto simp: took_def split: prod.splits intro: el_commands_rest)
    then have "settled L l'"
      using l by (auto simp: 2(3) settled_def put_client_def el_close_def split: option.splits if_splits)
    moreover have "map_of (lConns l') fd = co" "lServer l' = t"
      by (cases co) (simp_all add: 2(3) put_client_def el_close_def)
    moreover have "serve_at L Es (read_cmds L gate recv fd l) (lServer l) = Ret t \<and> gate_pw gate t = gate_pw gate (lServer l)"
      using rd_serves [OF 2(2) c] 2(1) by (simp add: read_cmds_def)
    ultimately show ?thesis
      using new 2(1) by simp
  qed
  moreover have "is_open fd l" if "is_open fd l'"
    using rd that by (cases rule: read_cases) (auto simp: is_open_def)
  moreover have "sent_to fd' l' = sent_to fd' l" for fd'
    using read_laws(1) [OF rd] by (simp add: sent_to_def)
  ultimately show ?thesis
    using read_laws(2,3) [OF rd] by (simp add: step_ok_def)
qed

lemma write_ok: "step_ok L Es gate fd [] [] l (loop_write wr fd l)"
proof -
  have "settled L (loop_write wr fd l) \<and>
      (\<forall>c c'. map_of (lConns l) fd = Some c \<longrightarrow> map_of (lConns (loop_write wr fd l)) fd = Some c' \<longrightarrow> took L pw c [] [] c')"
    if "settled L l" for pw
    using that wr_order
    by (auto simp: loop_write_def put_client_def el_close_def settled_def took_def split: option.splits prod.splits if_splits)
  then show ?thesis
    using write_laws write_open by (auto simp: step_ok_def)
qed

end

lemma step_okD:
  assumes "step_ok L Es gate fd0 xs bs l l'"
  shows "settled L l \<Longrightarrow> map_of (lConns l) fd = Some c \<Longrightarrow> map_of (lConns l') fd = Some c' \<Longrightarrow>
      took L (gate_pw gate (lServer l)) c (if fd = fd0 then bs else []) (if fd = fd0 then map snd xs else []) c'"
    and "fd \<noteq> fd0 \<Longrightarrow> map_of (lConns l') fd = map_of (lConns l) fd \<and> sent_to fd l' = sent_to fd l"
    and "is_open fd l \<Longrightarrow> is_open fd l' \<Longrightarrow> prefix (queued_for fd l) (queued_for fd l')"
proof -
  show o: "fd \<noteq> fd0 \<Longrightarrow> map_of (lConns l') fd = map_of (lConns l) fd \<and> sent_to fd l' = sent_to fd l"
    using assms by (simp add: step_ok_def)
  show "is_open fd l \<Longrightarrow> is_open fd l' \<Longrightarrow> prefix (queued_for fd l) (queued_for fd l')"
    using assms o queued_same [of l' fd l] by (cases "fd = fd0") (auto simp: step_ok_def)
  show "took L (gate_pw gate (lServer l)) c (if fd = fd0 then bs else []) (if fd = fd0 then map snd xs else []) c'"
    if "settled L l" "map_of (lConns l) fd = Some c" "map_of (lConns l') fd = Some c'"
    using assms that o by (cases "fd = fd0") (auto simp: step_ok_def settled_def intro: took_refl)
qed

text \<open>An event either accepts connections or works on the descriptor it names.\<close>

definition event_ok ::
  "golib \<Rightarrow> (nat \<Rightarrow> env) \<Rightarrow> (server \<Rightarrow> bool) \<Rightarrow> nat \<Rightarrow> accept_result list \<Rightarrow> (nat \<times> command) list \<Rightarrow> (nat \<Rightarrow> bytes) \<Rightarrow>
     loop \<Rightarrow> loop \<Rightarrow> bool"
where
  "event_ok L Es gate fd rs xs input l l' \<longleftrightarrow>
     (\<exists>new. l' = l\<lparr>lConns := accept_loop new rs (lConns l)\<rparr> \<and> clBuf new = [] \<and> xs = [] \<and> (\<forall>fd'. input fd' = [])) \<or>
     (step_ok L Es gate fd xs (input fd) l l' \<and> (\<forall>fd'. fd' \<noteq> fd \<longrightarrow> input fd' = []))"

lemma linux_event_ok:
  assumes ev: "linux_event L Es ctl lfd ev l = Ret l'"
  shows "event_ok L Es linux_gate (epFd ev) (epAccepts ev) (linux_cmds L lfd ev l) (\<lambda>fd. linux_bytes lfd fd ev) l l'"
proof (cases "epFd ev = lfd \<or> epHup ev")
  case True
  then show ?thesis
    using ev step_ok_close [of L Es linux_gate "epFd ev" "[]" l]
    by (auto simp: linux_event_def event_ok_def linux_cmds_def linux_bytes_def linux_accept_def split: if_splits)
next
  case False
  define r where "r = (if epIn ev then loop_read (linux_read L Es ctl (epReads ev)) (epFd ev) l else Ret l)"
  have "(case r of Panic m \<Rightarrow> Panic m
      | Ret l1 \<Rightarrow> Ret (if epOut ev then loop_write (linux_write (epCtl ev) (epWrites ev)) (epFd ev) l1 else l1)) = Ret l'"
    using ev False by (simp add: linux_event_def r_def)
  then obtain l1 where r: "r = Ret l1"
      and l': "l' = (if epOut ev then loop_write (linux_write (epCtl ev) (epWrites ev)) (epFd ev) l1 else l1)"
    by (cases r) auto
  have "step_ok L Es linux_gate (epFd ev) (linux_cmds L lfd ev l) (linux_bytes lfd (epFd ev) ev) l l1"
    using r False linux_ops.read_ok [of L Es ctl "epReads ev" "epFd ev" l l1] step_ok_refl
    by (auto simp: r_def linux_cmds_def linux_bytes_def split: if_splits)
  moreover have "step_ok L Es linux_gate (epFd ev) [] [] l1 l'"
    unfolding l' using linux_ops.write_ok step_ok_refl by simp
  ultimately have "step_ok L Es linux_gate (epFd ev) (linux_cmds L lfd ev l) (linux_bytes lfd (epFd ev) ev) l l'"
    using step_ok_trans [of L Es linux_gate "epFd ev" _ _ l l1 "[]" "[]" l'] by simp
  then show ?thesis
    by (auto simp: event_ok_def linux_bytes_def)
qed

lemma darwin_event_ok:
  assumes ev: "darwin_event L Es ctl lfd ev l = Ret l'"
  shows "event_ok L Es darwin_gate (kqFd ev) (kqAccepts ev) (darwin_cmds L lfd ev l) (\<lambda>fd. darwin_bytes lfd fd ev) l l'"
proof (cases "kqFd ev = lfd")
  case True
  then show ?thesis
    using ev by (auto simp: darwin_event_def event_ok_def darwin_cmds_def darwin_bytes_def darwin_accept_def)
next
  case False
  have "step_ok L Es darwin_gate (kqFd ev) (darwin_cmds L lfd ev l) (darwin_bytes lfd (kqFd ev) ev) l l'"
  proof (cases "kqEof ev")
    case True
    then show ?thesis
      using ev False True step_ok_close by (auto simp: darwin_event_def darwin_cmds_def darwin_bytes_def)
  next
    case eof: False
    show ?thesis
    proof (cases "kqFilter ev")
      case (FilterRead r)
      then have "loop_read (darwin_read L Es ctl r) (kqFd ev) l = Ret l'"
        using ev False eof by (simp add: darwin_event_def)
      from darwin_ops.read_ok [OF this] show ?thesis
        using False eof FilterRead by (simp add: darwin_cmds_def darwin_bytes_def)
    next
      case (FilterWrite ws)
      then show ?thesis
        using ev False eof darwin_ops.write_ok by (auto simp: darwin_event_def darwin_cmds_def darwin_bytes_def)
    next
      case FilterOther
      then show ?thesis
        using ev False eof step_ok_refl by (auto simp: darwin_event_def darwin_cmds_def darwin_bytes_def)
    qed
  qed
  then show ?thesis
    by (auto simp: event_ok_def darwin_bytes_def)
qed

lemma accept_loop_settled:
  "settled L (l\<lparr>lConns := conns\<rparr>) \<Longrightarrow> clBuf new = [] \<Longrightarrow> settled L (l\<lparr>lConns := accept_loop new rs conns\<rparr>)"
proof (induction new rs conns rule: accept_loop.induct)
  case (3 new fd nonblock registered rs conns)
  have "settled L (l\<lparr>lConns := AList.update fd new conns\<rparr>)"
    using 3(3,4) by (simp add: settled_def)
  then show ?case
    using 3 by simp
qed simp_all

lemma event_laws:
  assumes "event_ok L Es gate fd0 rs xs input l l'"
  shows "settled L l \<Longrightarrow> serve_at L Es xs (lServer l) = Ret (lServer l') \<and>
      gate_pw gate (lServer l') = gate_pw gate (lServer l) \<and> settled L l'"
    and "settled L l \<Longrightarrow> map_of (lConns l) fd = Some c \<Longrightarrow> map_of (lConns l') fd = Some c' \<Longrightarrow> fd \<notin> accepted rs \<Longrightarrow>
      took L (gate_pw gate (lServer l)) c (input fd) (own_cmds fd (map (Pair fd0) xs)) c'"
    and "fd \<noteq> fd0 \<Longrightarrow> fd \<notin> accepted rs \<Longrightarrow> map_of (lConns l') fd = map_of (lConns l) fd \<and> sent_to fd l' = sent_to fd l"
    and "is_open fd l \<Longrightarrow> is_open fd l' \<Longrightarrow> fd \<notin> accepted rs \<Longrightarrow> prefix (queued_for fd l) (queued_for fd l')"
proof -
  let ?took = "took L (gate_pw gate (lServer l)) c (input fd) (own_cmds fd (map (Pair fd0) xs)) c'"
  have "(settled L l \<longrightarrow> serve_at L Es xs (lServer l) = Ret (lServer l') \<and>
        gate_pw gate (lServer l') = gate_pw gate (lServer l) \<and> settled L l') \<and>
      (settled L l \<longrightarrow> map_of (lConns l) fd = Some c \<longrightarrow> map_of (lConns l') fd = Some c' \<longrightarrow> fd \<notin> accepted rs \<longrightarrow> ?took) \<and>
      (fd \<noteq> fd0 \<longrightarrow> fd \<notin> accepted rs \<longrightarrow> map_of (lConns l') fd = map_of (lConns l) fd \<and> sent_to fd l' = sent_to fd l) \<and>
      (is_open fd l \<longrightarrow> is_open fd l' \<longrightarrow> fd \<notin> accepted rs \<longrightarrow> prefix (queued_for fd l) (queued_for fd l'))"
    using assms unfolding event_ok_def
  proof (elim disjE exE conjE)
    fix new
    assume l': "l' = l\<lparr>lConns := accept_loop new rs (lConns l)\<rparr>" and new: "clBuf new = []"
      and none: "xs = []" "\<forall>fd'. input fd' = []"
    have same: "map_of (lConns l') fd = map_of (lConns l) fd \<and> sent_to fd l' = sent_to fd l" if "fd \<notin> accepted rs"
      using accept_loop_others [OF that, of new "lConns l"] by (simp add: l' sent_to_def)
    have "settled L l \<Longrightarrow> settled L l'"
      using accept_loop_settled [of L "lConns l" l new rs] new by (simp add: l')
    moreover have "serve_at L Es xs (lServer l) = Ret (lServer l') \<and> gate_pw gate (lServer l') = gate_pw gate (lServer l)"
      by (simp add: l' none(1))
    moreover have "settled L l \<Longrightarrow> map_of (lConns l) fd = Some c \<Longrightarrow> map_of (lConns l') fd = Some c' \<Longrightarrow> fd \<notin> accepted rs \<Longrightarrow> ?took"
      using same none by (auto simp: settled_def intro: took_refl)
    moreover have "fd \<notin> accepted rs \<Longrightarrow> prefix (queued_for fd l) (queued_for fd l')"
      using same queued_same [of l' fd l] by simp
    ultimately show ?thesis
      using same by blast
  next
    assume ok: "step_ok L Es gate fd0 xs (input fd0) l l'" and "\<forall>fd'. fd' \<noteq> fd0 \<longrightarrow> input fd' = []"
    then have "settled L l \<Longrightarrow> map_of (lConns l) fd = Some c \<Longrightarrow> map_of (lConns l') fd = Some c' \<Longrightarrow> ?took"
      using step_okD(1) [OF ok, of fd c c'] by (cases "fd = fd0") simp_all
    then show ?thesis
      using ok step_okD(2,3) [OF ok, of fd] by (simp add: step_ok_def)
  qed
  then show "settled L l \<Longrightarrow> serve_at L Es xs (lServer l) = Ret (lServer l') \<and>
        gate_pw gate (lServer l') = gate_pw gate (lServer l) \<and> settled L l'"
    "settled L l \<Longrightarrow> map_of (lConns l) fd = Some c \<Longrightarrow> map_of (lConns l') fd = Some c' \<Longrightarrow> fd \<notin> accepted rs \<Longrightarrow> ?took"
    "fd \<noteq> fd0 \<Longrightarrow> fd \<notin> accepted rs \<Longrightarrow> map_of (lConns l') fd = map_of (lConns l) fd \<and> sent_to fd l' = sent_to fd l"
    "is_open fd l \<Longrightarrow> is_open fd l' \<Longrightarrow> fd \<notin> accepted rs \<Longrightarrow> prefix (queued_for fd l) (queued_for fd l')"
    by blast+
qed

interpretation linux: loop_system L Es linux_gate "linux_event L Es ctl lfd" epFd "\<lambda>ev. accepted (epAccepts ev)"
    "linux_cmds L lfd" "linux_bytes lfd" for L Es ctl lfd
  by unfold_locales (rule event_laws [OF linux_event_ok]; assumption)+

interpretation darwin: loop_system L Es darwin_gate "darwin_event L Es ctl lfd" kqFd "\<lambda>ev. accepted (kqAccepts ev)"
    "darwin_cmds L lfd" "darwin_bytes lfd" for L Es ctl lfd
  by unfold_locales (rule event_laws [OF darwin_event_ok]; assumption)+

section \<open>Properties\<close>

text \<open>
  C10: The event loops serve every command once, in order, and past the gate only. Whatever events arrive, in whatever order and
  on whatever descriptors, the server ends in the state that executing the commands of the trace one after the
  other gives. For a connection that stays open, its part of the trace is the list of all commands in the bytes it has
  received, in their order and none twice, without those that came before the password was given; how
  the bytes were cut and what other connections did in between does not matter. No buffer holds a whole
  command at the start, as is so for new connections and after each event. This holds for both systems.
\<close>
theorem eventloop_serialises:
  assumes "settled L l"
  shows "(run_events (linux_event L Es ctl lfd) evs l = Ret l1 \<longrightarrow>
      (let tr = run_trace (linux_event L Es ctl lfd) epFd (linux_cmds L lfd) evs l in
       serve_at L Es (map snd tr) (lServer l) = Ret (lServer l1) \<and> settled L l1 \<and>
       (map_of (lConns l) fd = Some c \<longrightarrow> open_throughout (linux_event L Es ctl lfd) fd evs l \<longrightarrow>
          (\<forall>ev \<in> set evs. fd \<notin> accepted (epAccepts ev)) \<longrightarrow>
          own_cmds fd tr = map snd (fst (el_admit L (gate_pw linux_gate (lServer l)) (clAuthed c) 0
            (fst (el_commands L (clBuf c @ concat (map (linux_bytes lfd fd) evs))))))))) \<and>
    (run_events (darwin_event L Es ctl lfd) kevs l = Ret l2 \<longrightarrow>
      (let tr = run_trace (darwin_event L Es ctl lfd) kqFd (darwin_cmds L lfd) kevs l in
       serve_at L Es (map snd tr) (lServer l) = Ret (lServer l2) \<and> settled L l2 \<and>
       (map_of (lConns l) fd = Some c \<longrightarrow> open_throughout (darwin_event L Es ctl lfd) fd kevs l \<longrightarrow>
          (\<forall>ev \<in> set kevs. fd \<notin> accepted (kqAccepts ev)) \<longrightarrow>
          own_cmds fd tr = map snd (fst (el_admit L (gate_pw darwin_gate (lServer l)) (clAuthed c) 0
            (fst (el_commands L (clBuf c @ concat (map (darwin_bytes lfd fd) kevs)))))))))"
  using linux.run_serves [of L Es ctl lfd evs l l1] darwin.run_serves [of L Es ctl lfd kevs l l2] assms
    linux.run_cmds [of L Es ctl lfd evs l l1 fd c] darwin.run_cmds [of L Es ctl lfd kevs l l2 fd c]
  unfolding Let_def by blast

definition demo_event :: epoll_event where
  "demo_event = \<lparr>epFd = 5, epHup = False, epIn = True, epOut = True, epAccepts = [],
     epReads = [RData ''PI'', RData (''NG'' @ crlf), RAgain], epWrites = [Wrote 3, Wrote 9], epCtl = True\<rparr>"

definition demo_loop :: loop where
  "demo_loop = \<lparr>lConns = [], lServer = demo_master, lCount = 0, lSent = []\<rparr>"

lemma ping_served: "executeCommand L E \<lparr>cName = ''PING'', cArgs = []\<rparr> False demo_master = Ret (''PONG'', demo_master)"
proof -
  have "isLeader demo_master"
    by (simp add: isLeader_def demo_master_def NewServer_def Let_def)
  then show ?thesis
    by (simp add: executeCommand_def redirect_def dispatch_def)
qed

lemma demo_ping:
  "el_run ascii_golib (\<lambda>_. demo_env) (\<lambda>_. True) linux_gate 0
     \<lparr>clBuf = ''PING'' @ crlf, clOut = [], writeEnabled = False, clAuthed = True\<rparr> demo_master
     = Ret (Some \<lparr>clBuf = [], clOut = ''$4'' @ crlf @ ''PONG'' @ crlf, writeEnabled = True, clAuthed = True\<rparr>, demo_master, 1)"
    (is "el_run _ _ _ _ _ ?c _ = Ret (Some ?c', _, _)")
proof -
  have "ParseCommandFromBytes ascii_golib (''PING'' @ crlf) = Ret (Inr (Some \<lparr>cName = ''PING'', cArgs = []\<rparr>, 6))"
    by code_simp
  moreover have "el_reply ''PONG'' = ''$4'' @ crlf @ ''PONG'' @ crlf"
    by code_simp
  then have "el_command ascii_golib demo_env True linux_gate \<lparr>cName = ''PING'', cArgs = []\<rparr> (?c\<lparr>clBuf := []\<rparr>) demo_master = Ret (?c', demo_master)"
    using el_command_authed [OF _ ping_served, of linux_gate "?c\<lparr>clBuf := []\<rparr>" ascii_golib demo_env True]
    by (simp add: queueWrite_def enableWrite_def)
  moreover have "el_run ascii_golib (\<lambda>_. demo_env) (\<lambda>_. True) linux_gate 1 ?c' demo_master = Ret (Some ?c', demo_master, 1)"
    by (subst el_run.simps) simp
  ultimately show ?thesis
    using el_run_step [of ascii_golib ?c "\<lparr>cName = ''PING'', cArgs = []\<rparr>" 6 "\<lambda>_. demo_env" 0 "\<lambda>_. True" linux_gate demo_master ?c' demo_master]
    by simp
qed

lemma demo_step:
  "linux_event ascii_golib (\<lambda>_. demo_env) (\<lambda>_. True) 3 demo_event (demo_loop\<lparr>lConns := [(5, demo_client)]\<rparr>)
     = Ret \<lparr>lConns = [(5, demo_client)], lServer = demo_master, lCount = 1, lSent = [(5, ''$4'' @ crlf @ ''PONG'' @ crlf)]\<rparr>"
  using demo_ping
  by (simp add: linux_event_def demo_event_def demo_loop_def loop_read_def linux_read_def demo_client_def put_client_def
      loop_write_def linux_write_def disableWrite_def)

theorem eventloop_serialises_witness:
  "\<exists>l1 tr. run_events (linux_event ascii_golib (\<lambda>_. demo_env) (\<lambda>_. True) 3) [demo_event]
        (demo_loop\<lparr>lConns := [(5, demo_client)]\<rparr>) = Ret l1 \<and>
      serve_at ascii_golib (\<lambda>_. demo_env) (map snd tr) demo_master = Ret (lServer l1) \<and>
      own_cmds 5 tr = [\<lparr>cName = ''PING'', cArgs = []\<rparr>]"
proof -
  let ?l = "demo_loop\<lparr>lConns := [(5, demo_client)]\<rparr>" and ?step = "linux_event ascii_golib (\<lambda>_. demo_env) (\<lambda>_. True) 3"
  let ?tr = "run_trace ?step epFd (linux_cmds ascii_golib 3) [demo_event] ?l"
  obtain l1 where l1: "run_events ?step [demo_event] ?l = Ret l1"
    using demo_step by simp
  have here: "map_of (lConns ?l) 5 = Some demo_client" "open_throughout ?step 5 [demo_event] ?l"
      "\<forall>ev \<in> set [demo_event]. 5 \<notin> accepted (epAccepts ev)" "lServer ?l = demo_master"
    by (simp_all add: is_open_def demo_step, simp_all add: demo_event_def accepted_def demo_loop_def)
  have "fst (el_commands ascii_golib (''PING'' @ crlf)) = [\<lparr>cName = ''PING'', cArgs = []\<rparr>]"
    by code_simp
  then have cmds: "map snd (fst (el_admit ascii_golib pw (clAuthed demo_client) 0
      (fst (el_commands ascii_golib (clBuf demo_client @ concat (map (linux_bytes 3 5) [demo_event]))))))
      = [\<lparr>cName = ''PING'', cArgs = []\<rparr>]" for pw
    by (simp add: demo_client_def linux_bytes_def demo_event_def)
  have "settled ascii_golib ?l"
    by (simp add: settled_def demo_client_def)
  from conjunct1 [OF eventloop_serialises [OF this, of "\<lambda>_. demo_env" "\<lambda>_. True" 3 "[demo_event]" l1 5 demo_client], unfolded Let_def]
  have "serve_at ascii_golib (\<lambda>_. demo_env) (map snd ?tr) demo_master = Ret (lServer l1) \<and>
      own_cmds 5 ?tr = [\<lparr>cName = ''PING'', cArgs = []\<rparr>]"
    using l1 here cmds by metis
  then show ?thesis
    using l1 by blast
qed

text \<open>
  C22: Connections of an event loop are isolated and served in order. A connection that no event names keeps its
  buffers, its authentication and what was sent to it. For a connection that stays open, the bytes sent
  so far followed by those waiting in its write buffer only ever grow at the end: no reply is lost,
  repeated or reordered, however the system cuts reads and writes. This holds for both systems.
\<close>
theorem eventloop_isolation:
  "(run_events (linux_event L Es ctl lfd) evs l = Ret l1 \<longrightarrow>
      ((\<forall>ev \<in> set evs. fd \<noteq> epFd ev \<and> fd \<notin> accepted (epAccepts ev)) \<longrightarrow>
         map_of (lConns l1) fd = map_of (lConns l) fd \<and> sent_to fd l1 = sent_to fd l) \<and>
      (open_throughout (linux_event L Es ctl lfd) fd evs l \<longrightarrow> (\<forall>ev \<in> set evs. fd \<notin> accepted (epAccepts ev)) \<longrightarrow>
         prefix (queued_for fd l) (queued_for fd l1))) \<and>
   (run_events (darwin_event L Es ctl lfd) kevs l = Ret l2 \<longrightarrow>
      ((\<forall>ev \<in> set kevs. fd \<noteq> kqFd ev \<and> fd \<notin> accepted (kqAccepts ev)) \<longrightarrow>
         map_of (lConns l2) fd = map_of (lConns l) fd \<and> sent_to fd l2 = sent_to fd l) \<and>
      (open_throughout (darwin_event L Es ctl lfd) fd kevs l \<longrightarrow> (\<forall>ev \<in> set kevs. fd \<notin> accepted (kqAccepts ev)) \<longrightarrow>
         prefix (queued_for fd l) (queued_for fd l2)))"
  using linux.run_others [of L Es ctl lfd evs l l1 fd] linux.run_queued [of L Es ctl lfd evs l l1 fd]
    darwin.run_others [of L Es ctl lfd kevs l l2 fd] darwin.run_queued [of L Es ctl lfd kevs l l2 fd]
  by blast

theorem eventloop_isolation_witness:
  "map_of (lConns (demo_loop\<lparr>lConns := [(9, demo_client)]\<rparr>)) 9 = Some demo_client \<and>
   (\<exists>l1. run_events (linux_event ascii_golib (\<lambda>_. demo_env) (\<lambda>_. True) 3) [demo_event\<lparr>epFd := 3, epAccepts := [Accepted 5 True True]\<rparr>]
            (demo_loop\<lparr>lConns := [(9, demo_client)]\<rparr>) = Ret l1 \<and> map_of (lConns l1) 9 = Some demo_client)"
proof -
  let ?l = "demo_loop\<lparr>lConns := [(9, demo_client)]\<rparr>"
  obtain l1 where "run_events (linux_event ascii_golib (\<lambda>_. demo_env) (\<lambda>_. True) 3) [demo_event\<lparr>epFd := 3, epAccepts := [Accepted 5 True True]\<rparr>] ?l = Ret l1"
    by (simp add: linux_event_def demo_event_def)
  moreover from this have "map_of (lConns l1) 9 = map_of (lConns ?l) 9"
    using eventloop_isolation [of ascii_golib "\<lambda>_. demo_env" "\<lambda>_. True" 3 "[demo_event\<lparr>epFd := 3, epAccepts := [Accepted 5 True True]\<rparr>]" ?l l1 9]
    by (simp add: demo_event_def accepted_def)
  ultimately show ?thesis
    by simp
qed

end
