(* ===== verification/Fas_World.thy ===== *)
theory Fas_World
  imports Fas_Server_Props
begin

text \<open>
  The server with everything that runs in it at once: connections that come and go, commands of
  many clients, subscriptions, replication streams in both directions, the background snapshot, the
  expiry ticker and the heartbeat. Each goroutine acts in steps on the shared server; the steps
  interleave in any order. The world remembers what the goroutines hold: how many connections are
  open, which subscriptions and which replica streams are being served.
\<close>

section \<open>Steps\<close>

record world =
  wServer :: server
  wConns :: int
  wSubs :: "(string \<times> nat) list"
  wReps :: "nat list"

text \<open>The state in which the accept loop of \<^verbatim>\<open>Start\<close> begins, after restoring \<open>s\<close> from disk.\<close>

definition world_init :: "server \<Rightarrow> world" where
  "world_init s = \<lparr>wServer = set_static_slots s, wConns = 0, wSubs = [], wReps = []\<rparr>"

inductive world_step :: "golib \<Rightarrow> world \<Rightarrow> world outcome \<Rightarrow> bool" for L where
  accept: "accept_client (wServer w) = (True, s) \<Longrightarrow> world_step L w (Ret (w\<lparr>wServer := s, wConns := wConns w + 1\<rparr>))"
| reject: "accept_client (wServer w) = (False, s) \<Longrightarrow> world_step L w (Ret (w\<lparr>wServer := s\<rparr>))"
| hangup: "wConns w > 0 \<Longrightarrow> world_step L w (Ret (w\<lparr>wServer := close_client (wServer w), wConns := wConns w - 1\<rparr>))"
| command: "executeCommand L E cmd False (wServer w) = Ret (r, s) \<Longrightarrow> world_step L w (Ret (w\<lparr>wServer := s\<rparr>))"
| command_panic: "executeCommand L E cmd False (wServer w) = Panic m \<Longrightarrow> world_step L w (Panic m)"
| subscribe: "subscribe_open name (wServer w) = (ch, out, s) \<Longrightarrow>
    world_step L w (Ret (w\<lparr>wServer := s, wSubs := (name, ch) # wSubs w\<rparr>))"
| forward: "(name, ch) \<in> set (wSubs w) \<Longrightarrow> subscribe_forward name ch (wServer w) = Some (out, s) \<Longrightarrow>
    world_step L w (Ret (w\<lparr>wServer := s\<rparr>))"
| unsubscribe: "(name, ch) \<in> set (wSubs w) \<Longrightarrow> subscribe_close name ch (wServer w) = Ret s \<Longrightarrow>
    world_step L w (Ret (w\<lparr>wServer := s, wSubs := remove1 (name, ch) (wSubs w)\<rparr>))"
| unsubscribe_panic: "(name, ch) \<in> set (wSubs w) \<Longrightarrow> subscribe_close name ch (wServer w) = Panic m \<Longrightarrow>
    world_step L w (Panic m)"
| replicate: "replica_register (wServer w) = (rid, s) \<Longrightarrow>
    world_step L w (Ret (w\<lparr>wServer := s, wReps := rid # wReps w\<rparr>))"
| stream: "replica_stream rid (wServer w) = Some (out, s) \<Longrightarrow> world_step L w (Ret (w\<lparr>wServer := s\<rparr>))"
| unreplicate: "rid \<in> set (wReps w) \<Longrightarrow>
    world_step L w (Ret (w\<lparr>wServer := replica_remove rid (wServer w), wReps := remove1 rid (wReps w)\<rparr>))"
| master_connect: "world_step L w (Ret (w\<lparr>wServer := (wServer w)\<lparr>leaderAddr := masterAddr (wServer w)\<rparr>\<rparr>))"
| master_command: "executeCommand L E cmd True (wServer w) = Ret (r, s) \<Longrightarrow> world_step L w (Ret (w\<lparr>wServer := s\<rparr>))"
| master_panic: "executeCommand L E cmd True (wServer w) = Panic m \<Longrightarrow> world_step L w (Panic m)"
| beat: "world_step L w (Ret (w\<lparr>wServer := heartbeat reachable (wServer w)\<rparr>))"
| saved: "bgRunning (wServer w) \<Longrightarrow> world_step L w (Ret (w\<lparr>wServer := finishBGSAVE E (wServer w)\<rparr>))"
| expire: "world_step L w (Ret (w\<lparr>wServer := (wServer w)\<lparr>svStore := activeExpire now ord ord2 (svStore (wServer w))\<rparr>\<rparr>))"

inductive world_reach :: "golib \<Rightarrow> config \<Rightarrow> world \<Rightarrow> bool" for L c where
  start: "restoreData L Es now snapshot log (NewServer c) = Ret (None, s) \<Longrightarrow>
    (\<And>es. snapshot = Some (Inr es) \<Longrightarrow> distinct (map seKey es)) \<Longrightarrow> world_reach L c (world_init s)"
| step: "world_reach L c w \<Longrightarrow> world_step L w (Ret w') \<Longrightarrow> world_reach L c w'"

inductive_cases world_step_RetE: "world_step L w (Ret w')"
inductive_cases world_step_PanicE: "world_step L w (Panic m)"

section \<open>The invariant\<close>

definition subs_ok :: "world \<Rightarrow> bool" where
  "subs_ok w \<longleftrightarrow> ps_inv (svPubsub (wServer w)) \<and> distinct (wSubs w) \<and>
     (\<forall>(name, ch) \<in> set (wSubs w). ch \<in> set (subscribers (svPubsub (wServer w)) name))"

definition reps_ok :: "world \<Rightarrow> bool" where
  "reps_ok w \<longleftrightarrow> distinct (wReps w) \<and> distinct (map fst (replicas (wServer w))) \<and>
     set (wReps w) = fst ` set (replicas (wServer w)) \<and>
     (\<forall>(rid, ch) \<in> set (replicas (wServer w)). rid \<le> replicaSeq (wServer w) \<and> length ch \<le> replica_cap)"

definition conns_ok :: "world \<Rightarrow> bool" where
  "conns_ok w \<longleftrightarrow> 0 \<le> wConns w \<and>
     (MaxClients (svConfig (wServer w)) > 0 \<longrightarrow>
        clients (wServer w) = wConns w \<and> wConns w \<le> MaxClients (svConfig (wServer w))) \<and>
     (MaxClients (svConfig (wServer w)) \<le> 0 \<longrightarrow> clients (wServer w) = 0)"

definition slots_ok :: "server \<Rightarrow> bool" where
  "slots_ok s \<longleftrightarrow> 0 < slotCount s \<and> slotCount s < 65536"

definition world_inv :: "world \<Rightarrow> bool" where
  "world_inv w \<longleftrightarrow> store_inv (svStore (wServer w)) \<and> subs_ok w \<and> reps_ok w \<and> conns_ok w \<and> slots_ok (wServer w)"

text \<open>What a command leaves alone, whatever it is and whoever sends it.\<close>

definition kept :: "server \<Rightarrow> server \<Rightarrow> bool" where
  "kept s t \<longleftrightarrow> (store_inv (svStore s) \<longrightarrow> store_inv (svStore t)) \<and>
     (ps_inv (svPubsub s) \<longrightarrow> ps_inv (svPubsub t) \<and> subscribers (svPubsub t) = subscribers (svPubsub s)) \<and>
     svConfig t = svConfig s \<and> clients t = clients s \<and> slotCount t = slotCount s \<and> replicaSeq t = replicaSeq s \<and>
     (\<exists>f. replicas t = map (\<lambda>(rid, ch). (rid, f ch)) (replicas s) \<and> (\<forall>ch. length ch \<le> replica_cap \<longrightarrow> length (f ch) \<le> replica_cap))"

lemma kept_refl: "kept s s"
  by (auto simp: kept_def intro!: exI [of _ "\<lambda>x. x"])

lemma map_id_pairs: "map (\<lambda>(rid, ch). (rid, ch)) xs = xs"
  by (induction xs) auto

lemma kept_store: "(store_inv (svStore s) \<Longrightarrow> store_inv st) \<Longrightarrow> kept s (s\<lparr>svStore := st\<rparr>)"
  by (auto simp: kept_def map_id_pairs intro!: exI [of _ "\<lambda>x. x"])

lemma kept_broadcast: "kept s t \<Longrightarrow> replicas t = replicas s \<Longrightarrow> kept s (broadcastToReplicas cmd t)"
  unfolding kept_def broadcastToReplicas_def
  by (auto simp: offer_def intro!: exI [of _ "offer cmd"])

lemma kept_trans:
  assumes "kept s t" "kept t u"
  shows "kept s u"
proof -
  obtain f where f: "replicas t = map (\<lambda>(rid, ch). (rid, f ch)) (replicas s)"
      "\<forall>ch. length ch \<le> replica_cap \<longrightarrow> length (f ch) \<le> replica_cap"
    using assms(1) unfolding kept_def by blast
  obtain g where g: "replicas u = map (\<lambda>(rid, ch). (rid, g ch)) (replicas t)"
      "\<forall>ch. length ch \<le> replica_cap \<longrightarrow> length (g ch) \<le> replica_cap"
    using assms(2) unfolding kept_def by blast
  have "replicas u = map (\<lambda>(rid, ch). (rid, g (f ch))) (replicas s)"
    by (simp add: f(1) g(1) comp_def case_prod_unfold)
  then have "\<exists>h. replicas u = map (\<lambda>(rid, ch). (rid, h ch)) (replicas s) \<and>
      (\<forall>ch. length ch \<le> replica_cap \<longrightarrow> length (h ch) \<le> replica_cap)"
    using f(2) g(2) by (intro exI [of _ "\<lambda>ch. g (f ch)"]) auto
  then show ?thesis
    using assms by (simp add: kept_def)
qed

text \<open>The parts of a server no step above looks at.\<close>

lemma kept_aux: "kept s (s\<lparr>svAof := a\<rparr>)" "kept s (s\<lparr>svSnapshot := sn\<rparr>)" "kept s (s\<lparr>bgRunning := b\<rparr>)"
    "kept s (s\<lparr>leaderAddr := l\<rparr>)" "kept s (s\<lparr>cluster := cl\<rparr>)" "kept s (s\<lparr>replicaMode := rm\<rparr>)"
  by (auto simp: kept_def map_id_pairs intro!: exI [of _ "\<lambda>x. x"])

lemma get_state_inv: "store_inv st \<Longrightarrow> store_inv (snd (Get k now st))"
  by (simp add: Get_def get_inv)

lemma kept_set: "kept s (snd (exec_set E cmd replay s))"
proof (cases "\<exists>k v. cArgs cmd = [k, v]")
  case True
  then obtain k v where kv: "cArgs cmd = [k, v]"
    by blast
  let ?s = "s\<lparr>svStore := Set k v 0 (eNow E) (eNow2 E) (eOrd E) (svStore s)\<rparr>"
  have k1: "kept s ?s"
    by (rule kept_store) (simp add: set_inv proper_ttl_def)
  have "kept s (log_command E cmd ?s)"
    using kept_trans [OF k1 kept_aux(1)] k1 by (simp add: log_command_def split: option.splits)
  then have "kept s (broadcastToReplicas cmd (log_command E cmd ?s))"
    by (intro kept_broadcast) simp_all
  then show ?thesis
    using kv k1 by (simp add: exec_set_def Let_def kept_refl)
qed (auto simp: exec_set_def kept_refl split: list.splits)

lemma kept_get: "kept s (snd (exec_get E cmd s))"
proof -
  have "snd (exec_get E cmd s) = s \<or> (\<exists>k. snd (exec_get E cmd s) = s\<lparr>svStore := snd (Get k (eNow E) (svStore s))\<rparr>)"
    by (auto simp: exec_get_def split: list.splits prod.splits sum.splits store_error.splits) (metis snd_conv)+
  then show ?thesis
    using kept_refl by (auto intro!: kept_store get_state_inv)
qed

lemma kept_publish: "exec_publish cmd replay s = Ret (r, t) \<Longrightarrow> kept s t"
proof (cases "\<exists>ch m ps n. cArgs cmd = [ch, m] \<and> Publish (svPubsub s) ch m = Ret (ps, n)")
  case True
  assume r: "exec_publish cmd replay s = Ret (r, t)"
  from True obtain ch m ps n where ps: "cArgs cmd = [ch, m]" "Publish (svPubsub s) ch m = Ret (ps, n)"
    by blast
  have "ps_inv (svPubsub s) \<Longrightarrow> ps_inv ps \<and> subscribers ps = subscribers (svPubsub s)"
    using Publish_spec [of "svPubsub s" ch m] ps(2) by auto
  then have "kept s (s\<lparr>svPubsub := ps\<rparr>)"
    by (auto simp: kept_def map_id_pairs intro!: exI [of _ "\<lambda>x. x"])
  moreover from this have "kept s (broadcastToReplicas cmd (s\<lparr>svPubsub := ps\<rparr>))"
    by (rule kept_broadcast) simp
  ultimately show ?thesis
    using r ps kept_refl [of s] by (auto simp: exec_publish_def Let_def split: if_splits)
qed (auto simp: exec_publish_def kept_refl split: list.splits if_splits outcome.splits)

lemma kept_save: "kept s (snd (saveSnapshot E s))"
  by (auto simp: saveSnapshot_def kept_refl kept_aux split: option.splits)

lemma kept_migrate: "kept s (snd (exec_migrate E cmd s))"
proof -
  have del: "store_inv st \<Longrightarrow> store_inv (Delete k st)" for k st
    by (simp add: Delete_def inv_keep)
  have "\<exists>st. snd (migrateKey E key target s) = s\<lparr>svStore := st\<rparr> \<and> (store_inv (svStore s) \<longrightarrow> store_inv st)" for key target
  proof -
    obtain r st where g: "Get key (eNow E) (svStore s) = (r, st)"
      by fastforce
    then have "store_inv (svStore s) \<Longrightarrow> store_inv st"
      using get_state_inv by (metis snd_conv)
    then show ?thesis
      using g del by (auto simp: migrateKey_def split: sum.splits)
  qed
  then have "kept s (snd (migrateKey E key target s))" for key target
    by (metis kept_store)
  then show ?thesis
    by (auto simp: exec_migrate_def kept_refl split: list.splits prod.splits option.splits) (metis snd_conv)+
qed

lemma kept_other: "kept s (snd (exec_save E s))" "kept s (snd (exec_bgsave s))"
proof -
  have "snd (exec_save E s) = s \<or> snd (exec_save E s) = snd (saveSnapshot E s)"
    by (auto simp: exec_save_def split: prod.splits option.splits)
  then show "kept s (snd (exec_save E s))"
    using kept_save kept_refl by metis
  show "kept s (snd (exec_bgsave s))"
    by (simp add: exec_bgsave_def startBGSAVE_def kept_refl kept_aux)
qed

lemma kept_execute: "executeCommand L E cmd replay s = Ret (r, t) \<Longrightarrow> kept s t"
proof -
  assume ex: "executeCommand L E cmd replay s = Ret (r, t)"
  have "kept s t" if "dispatch L E cmd replay s = Ret (r, t)"
    using that kept_set [of s E cmd replay] kept_get [of s E cmd] kept_migrate [of s E cmd] kept_other kept_publish kept_refl
    by (auto simp: dispatch_def Let_def split: if_splits) (metis snd_conv)+
  then show ?thesis
    using ex kept_refl by (auto simp: executeCommand_def split: outcome.splits option.splits)
qed

lemma execute_returns:
  assumes "slots_ok s" "ps_inv (svPubsub s)"
  shows "executeCommand L E cmd replay s \<noteq> Panic m"
proof -
  have "\<exists>i. keySlot k (slotCount s) = Ret i" for k
    using assms(1) keySlot_returns by (simp add: slots_ok_def)
  then have "\<exists>x. arg_slot cmd s = Ret x" "cArgs cmd \<noteq> [] \<Longrightarrow> \<exists>i. keySlot (hd (cArgs cmd)) (slotCount s) = Ret i"
    by (simp_all add: arg_slot_def split: list.splits)
  then have "\<exists>x. redirect cmd replay s = Ret x"
    by (auto simp: redirect_def split: outcome.splits option.splits)
  moreover have "dispatch L E cmd replay s \<noteq> Panic m"
    using dispatch_returns [OF assms(2), of L E cmd replay] by auto
  ultimately show ?thesis
    by (auto simp: executeCommand_def split: option.splits)
qed

section \<open>Every step keeps the invariant\<close>

lemma kept_world:
  assumes "kept (wServer w) t" "world_inv w"
  shows "world_inv (w\<lparr>wServer := t\<rparr>)"
proof -
  obtain f where f: "replicas t = map (\<lambda>(rid, ch). (rid, f ch)) (replicas (wServer w))"
      "\<forall>ch. length ch \<le> replica_cap \<longrightarrow> length (f ch) \<le> replica_cap"
    using assms(1) unfolding kept_def by blast
  have "map fst (replicas t) = map fst (replicas (wServer w))"
    by (simp add: f(1) comp_def case_prod_unfold)
  then have "distinct (map fst (replicas t)) = distinct (map fst (replicas (wServer w)))"
      "fst ` set (replicas t) = fst ` set (replicas (wServer w))"
    by (simp, metis set_map)
  moreover have "\<forall>(rid, ch) \<in> set (replicas t). rid \<le> replicaSeq t \<and> length ch \<le> replica_cap"
    using assms f by (fastforce simp: world_inv_def reps_ok_def kept_def)
  ultimately have "reps_ok (w\<lparr>wServer := t\<rparr>)"
    using assms(2) by (simp add: world_inv_def reps_ok_def)
  then show ?thesis
    using assms by (simp add: world_inv_def subs_ok_def conns_ok_def slots_ok_def kept_def)
qed

lemma accept_keeps:
  assumes "world_inv w" "accept_client (wServer w) = (ok, s)"
  shows "world_inv (w\<lparr>wServer := s, wConns := wConns w + (if ok then 1 else 0)\<rparr>)"
  using assms
  by (auto simp: world_inv_def accept_client_def subs_ok_def reps_ok_def conns_ok_def slots_ok_def split: if_splits)

lemma hangup_keeps:
  assumes "world_inv w" "wConns w > 0"
  shows "world_inv (w\<lparr>wServer := close_client (wServer w), wConns := wConns w - 1\<rparr>)"
  using assms
  by (auto simp: world_inv_def close_client_def subs_ok_def reps_ok_def conns_ok_def slots_ok_def)

lemma world_pubsub_inv:
  assumes "world_inv w" "ps_inv ps" "distinct subs"
    "\<forall>(name, ch) \<in> set subs. ch \<in> set (subscribers ps name)"
  shows "world_inv (w\<lparr>wServer := (wServer w)\<lparr>svPubsub := ps\<rparr>, wSubs := subs\<rparr>)"
  using assms by (auto simp: world_inv_def subs_ok_def reps_ok_def conns_ok_def slots_ok_def)

lemma subscribe_step_keeps:
  assumes "world_inv w" "subscribe_open name (wServer w) = (ch, out, s)"
  shows "world_inv (w\<lparr>wServer := s, wSubs := (name, ch) # wSubs w\<rparr>)"
proof -
  let ?ps = "svPubsub (wServer w)"
  obtain ps where sub: "Subscribe ?ps name = (ps, ch)" and s: "s = (wServer w)\<lparr>svPubsub := ps\<rparr>"
    using assms(2) by (auto simp: subscribe_open_def split: prod.splits)
  note f = Subscribe_facts [OF sub]
  have inv: "ps_inv ?ps" "distinct (wSubs w)" "\<forall>(n, c) \<in> set (wSubs w). c \<in> set (subscribers ?ps n)"
    using assms(1) by (simp_all add: world_inv_def subs_ok_def)
  have "ch \<notin> set (subscribers ?ps name)"
    using listed_open [OF inv(1) listedI] f(2) by blast
  then have "(name, ch) \<notin> set (wSubs w)"
    using inv(3) by blast
  moreover have "\<forall>(n, c) \<in> set ((name, ch) # wSubs w). c \<in> set (subscribers ps n)"
    using inv(3) by (auto simp: f(1))
  ultimately show ?thesis
    unfolding s using inv Subscribe_inv [OF inv(1) sub] by (intro world_pubsub_inv assms(1)) simp_all
qed

lemma forward_keeps:
  assumes "world_inv w" "(name, ch) \<in> set (wSubs w)" "subscribe_forward name ch (wServer w) = Some (out, s)"
  shows "world_inv (w\<lparr>wServer := s\<rparr>)"
proof -
  let ?ps = "svPubsub (wServer w)"
  obtain ps msg where r: "receive ?ps ch = Some (ps, Some msg)" and s: "s = (wServer w)\<lparr>svPubsub := ps\<rparr>"
    using assms(3) by (auto simp: subscribe_forward_def split: option.splits)
  have inv: "ps_inv ?ps" "ch \<in> set (subscribers ?ps name)"
    using assms(1,2) by (auto simp: world_inv_def subs_ok_def)
  have "ps_inv ps"
    using receive_inv [OF inv(1) _ r] listed_open [OF inv(1) listedI [OF inv(2)]] by blast
  moreover have "subscribers ps = subscribers ?ps"
    using r by (auto simp: receive_def split: list.splits if_splits)
  ultimately have "kept (wServer w) s"
    unfolding s by (auto simp: kept_def map_id_pairs intro!: exI [of _ "\<lambda>x. x"])
  then show ?thesis
    using assms(1) by (rule kept_world)
qed

lemma unsubscribe_step_keeps:
  assumes "world_inv w" "(name, ch) \<in> set (wSubs w)"
  shows "\<exists>s. subscribe_close name ch (wServer w) = Ret s \<and>
           world_inv (w\<lparr>wServer := s, wSubs := remove1 (name, ch) (wSubs w)\<rparr>)"
proof -
  let ?ps = "svPubsub (wServer w)"
  have inv: "ps_inv ?ps" "distinct (wSubs w)" "\<forall>(n, c) \<in> set (wSubs w). c \<in> set (subscribers ?ps n)"
      "ch \<in> set (subscribers ?ps name)"
    using assms by (auto simp: world_inv_def subs_ok_def)
  obtain ps where ps: "Unsubscribe ?ps name ch = Ret ps" "ps_inv ps"
      "subscribers ps = (subscribers ?ps)(name := remove1 ch (subscribers ?ps name))"
    using Unsubscribe_spec [OF inv(1,4)] by blast
  have "\<forall>(n, c) \<in> set (remove1 (name, ch) (wSubs w)). c \<in> set (subscribers ps n)"
  proof clarify
    fix n c
    assume "(n, c) \<in> set (remove1 (name, ch) (wSubs w))"
    then have "(n, c) \<in> set (wSubs w)" "(n, c) \<noteq> (name, ch)"
      using inv(2) by auto
    then show "c \<in> set (subscribers ps n)"
      using inv(3) by (cases "n = name") (auto simp: ps(3) in_set_remove1)
  qed
  then show ?thesis
    using ps world_pubsub_inv [OF assms(1) ps(2), of "remove1 (name, ch) (wSubs w)"] inv(2)
    by (simp add: subscribe_close_def)
qed

lemma world_replicas_inv:
  assumes "world_inv w" "distinct reps" "distinct (map fst rs)" "set reps = fst ` set rs"
    "\<forall>(rid, ch) \<in> set rs. rid \<le> n \<and> length ch \<le> replica_cap"
  shows "world_inv (w\<lparr>wServer := (wServer w)\<lparr>replicas := rs, replicaSeq := n\<rparr>, wReps := reps\<rparr>)"
  using assms by (simp add: world_inv_def subs_ok_def reps_ok_def conns_ok_def slots_ok_def)

lemma set_update_subset: "set (AList.update k v xs) \<subseteq> insert (k, v) (set xs)"
  by (induction xs) auto

lemma set_delete_subset: "set (AList.delete k xs) \<subseteq> set xs"
  by (auto simp: AList.delete_eq)

lemma replicate_keeps:
  assumes "world_inv w" "replica_register (wServer w) = (rid, s)"
  shows "world_inv (w\<lparr>wServer := s, wReps := rid # wReps w\<rparr>)"
proof -
  let ?r = "replicas (wServer w)" and ?n = "replicaSeq (wServer w)"
  have r: "distinct (wReps w)" "distinct (map fst ?r)" "set (wReps w) = fst ` set ?r"
      "\<forall>(rid, ch) \<in> set ?r. rid \<le> ?n \<and> length ch \<le> replica_cap"
    using assms(1) by (simp_all add: world_inv_def reps_ok_def)
  have s: "rid = ?n + 1" "s = (wServer w)\<lparr>replicas := AList.update rid [] ?r, replicaSeq := rid\<rparr>"
    using assms(2) by (auto simp: replica_register_def Let_def)
  have "rid \<notin> set (wReps w)"
    using r(3,4) s(1) by fastforce
  moreover have "\<forall>(i, ch) \<in> set (AList.update rid [] ?r). i \<le> rid \<and> length ch \<le> replica_cap"
    using r(4) set_update_subset [of rid "[]" ?r] s(1) by fastforce
  ultimately show ?thesis
    unfolding s(2) using r by (intro world_replicas_inv assms(1)) (auto simp: dom_update distinct_update)
qed

lemma stream_keeps:
  assumes "world_inv w" "replica_stream rid (wServer w) = Some (out, s)"
  shows "world_inv (w\<lparr>wServer := s\<rparr>)"
proof -
  let ?r = "replicas (wServer w)" and ?n = "replicaSeq (wServer w)"
  have r: "distinct (wReps w)" "distinct (map fst ?r)" "set (wReps w) = fst ` set ?r"
      "\<forall>(rid, ch) \<in> set ?r. rid \<le> ?n \<and> length ch \<le> replica_cap"
    using assms(1) by (simp_all add: world_inv_def reps_ok_def)
  obtain cmd ch where ch: "map_of ?r rid = Some (cmd # ch)" "s = (wServer w)\<lparr>replicas := AList.update rid ch ?r\<rparr>"
    using assms(2) by (auto simp: replica_stream_def split: option.splits list.splits)
  have in_r: "(rid, cmd # ch) \<in> set ?r"
    using ch(1) by (rule map_of_SomeD)
  have "\<forall>(i, c) \<in> set (AList.update rid ch ?r). i \<le> ?n \<and> length c \<le> replica_cap"
    using r(4) in_r set_update_subset [of rid ch ?r] by fastforce
  moreover have "fst ` set (AList.update rid ch ?r) = fst ` set ?r"
    using in_r by (force simp: dom_update [of rid ch ?r, unfolded dom_map_of_conv_image_fst])
  ultimately have "world_inv (w\<lparr>wServer := (wServer w)\<lparr>replicas := AList.update rid ch ?r, replicaSeq := ?n\<rparr>, wReps := wReps w\<rparr>)"
    using r by (intro world_replicas_inv assms(1)) (auto simp: distinct_update)
  then show ?thesis
    by (simp add: ch(2))
qed

lemma unreplicate_keeps:
  assumes "world_inv w"
  shows "world_inv (w\<lparr>wServer := replica_remove rid (wServer w), wReps := remove1 rid (wReps w)\<rparr>)"
proof -
  let ?r = "replicas (wServer w)" and ?n = "replicaSeq (wServer w)"
  have r: "distinct (wReps w)" "distinct (map fst ?r)" "set (wReps w) = fst ` set ?r"
      "\<forall>(rid, ch) \<in> set ?r. rid \<le> ?n \<and> length ch \<le> replica_cap"
    using assms(1) by (simp_all add: world_inv_def reps_ok_def)
  have "world_inv (w\<lparr>wServer := (wServer w)\<lparr>replicas := AList.delete rid ?r, replicaSeq := ?n\<rparr>, wReps := remove1 rid (wReps w)\<rparr>)"
  proof (rule world_replicas_inv [OF assms])
    show "\<forall>(i, ch) \<in> set (AList.delete rid ?r). i \<le> ?n \<and> length ch \<le> replica_cap"
      using r(4) set_delete_subset by fastforce
    show "set (remove1 rid (wReps w)) = fst ` set (AList.delete rid ?r)"
      using r(1,3) by (auto simp: AList.delete_eq image_iff)
  qed (use r in \<open>simp_all add: distinct_delete\<close>)
  then show ?thesis
    by (simp add: replica_remove_def)
qed

lemma kept_background:
  "kept s (heartbeat reachable s)" "kept s (finishBGSAVE E s)"
  "kept s (s\<lparr>svStore := activeExpire now ord ord2 (svStore s)\<rparr>)"
proof -
  show "kept s (heartbeat reachable s)"
    using kept_trans [OF kept_aux(4) kept_aux(6)] by (simp add: heartbeat_def kept_refl)
  show "kept s (finishBGSAVE E s)"
    unfolding finishBGSAVE_def by (rule kept_trans [OF kept_save kept_aux(3)])
  show "kept s (s\<lparr>svStore := activeExpire now ord ord2 (svStore s)\<rparr>)"
    by (rule kept_store) (rule activeExpire_inv(1))
qed

lemma world_step_inv: "world_step L w (Ret w') \<Longrightarrow> world_inv w \<Longrightarrow> world_inv w'"
proof (erule world_step_RetE)
  fix s assume "world_inv w" "accept_client (wServer w) = (True, s)" "w' = w\<lparr>wServer := s, wConns := wConns w + 1\<rparr>"
  then show "world_inv w'"
    using accept_keeps [of w True s] by simp
next
  fix s assume "world_inv w" "accept_client (wServer w) = (False, s)" "w' = w\<lparr>wServer := s\<rparr>"
  then show "world_inv w'"
    using accept_keeps [of w False s] by simp
next
  fix name ch s assume "world_inv w" "(name, ch) \<in> set (wSubs w)" "subscribe_close name ch (wServer w) = Ret s"
    "w' = w\<lparr>wServer := s, wSubs := remove1 (name, ch) (wSubs w)\<rparr>"
  then show "world_inv w'"
    using unsubscribe_step_keeps [of w name ch] by auto
qed (auto intro: hangup_keeps subscribe_step_keeps forward_keeps replicate_keeps stream_keeps unreplicate_keeps
      kept_world kept_execute kept_background kept_aux)

lemma world_step_no_panic: "world_inv w \<Longrightarrow> \<not> world_step L w (Panic m)"
proof
  assume inv: "world_inv w" and "world_step L w (Panic m)"
  from this(2) show False
  proof (rule world_step_PanicE)
    fix name ch assume "(name, ch) \<in> set (wSubs w)" "subscribe_close name ch (wServer w) = Panic m"
    then show False
      using unsubscribe_step_keeps [OF inv, of name ch] by simp
  qed (use inv execute_returns in \<open>auto simp: world_inv_def subs_ok_def\<close>)
qed

lemma apply_all_kept: "apply_all L Es i cmds s = Ret t \<Longrightarrow> kept s t"
proof (induction cmds arbitrary: i s)
  case (Cons cmd cmds)
  then obtain r u where "executeCommand L (Es i) cmd True s = Ret (r, u)" "apply_all L Es (i + 1) cmds u = Ret t"
    by (auto split: outcome.splits)
  then show ?case
    using Cons.IH kept_execute kept_trans by blast
qed (simp add: kept_refl)

lemma world_init_inv:
  assumes "restoreData L Es now snapshot log (NewServer c) = Ret (None, s)"
    "\<And>es. snapshot = Some (Inr es) \<Longrightarrow> distinct (map seKey es)" "0 \<le> Slots c" "Slots c < 65536"
  shows "world_inv (world_init s)"
proof -
  let ?n = "NewServer c"
  let ?r = "\<lambda>es. ?n\<lparr>svStore := RestoreSnapshot now es (svStore ?n)\<rparr>"
  have restored: "kept ?n (?r es)" if "snapshot = Some (Inr es)" for es
    using assms(2) [OF that] by (intro kept_store restore_inv) simp_all
  have "\<exists>u. kept ?n u \<and> (s = u \<or> (\<exists>a. s = u\<lparr>svAof := a\<rparr>))"
    using assms(1) restored kept_refl [of ?n]
    by (auto simp: restoreData_def initAOF_def Let_def split: option.splits sum.splits if_splits outcome.splits)
      (blast intro: kept_trans apply_all_kept)+
  then have "kept ?n s"
    using kept_trans [OF _ kept_aux(1)] by blast
  then have kept: "kept ?n (set_static_slots s)"
    using kept_trans [OF _ kept_aux(5)] by (simp add: set_static_slots_def)
  have "0 < Slots (fill_defaults c)" "Slots (fill_defaults c) < 65536"
    using assms(3,4) by (auto simp: fill_defaults_def Let_def)
  moreover have "clients ?n = 0" "replicas ?n = []"
    by (simp_all add: NewServer_def Let_def)
  ultimately have "world_inv \<lparr>wServer = ?n, wConns = 0, wSubs = [], wReps = []\<rparr>"
    using new_inv store_inv_New
    by (simp add: world_inv_def subs_ok_def reps_ok_def conns_ok_def slots_ok_def NewServer_fields)
  from kept_world [OF _ this, of "set_static_slots s"] kept show ?thesis
    by (simp add: world_init_def)
qed

lemma world_reach_inv_aux:
  assumes "world_reach L c w" "0 \<le> Slots c" "Slots c < 65536"
  shows "world_inv w"
  using assms(1)
proof induction
  case (start Es now snapshot log s)
  then show ?case
    using world_init_inv assms(2,3) by blast
qed (blast intro: world_step_inv)

section \<open>Properties\<close>

text \<open>
  C5: The running server as a whole. From any start that restored its data, and through any interleaving of
  connections, commands of clients and of a master, subscriptions, replication streams, background
  saves, expiry and heartbeats: the store and the hub keep their invariants, every subscription being
  served is registered, the streams being served are exactly the registered replicas, no replica
  buffer exceeds 1024 commands, with a limit of clients the counter is the number of open connections and
  within the limit, without one it stays 0, and no step ends in a panic. A step of a client begins when
  its command has been parsed; there are fewer than 65536 slots.
\<close>
theorem world_safe:
  assumes "world_reach L c w" "0 \<le> Slots c" "Slots c < 65536"
  shows "world_inv w \<and> \<not> world_step L w (Panic m)"
  using world_reach_inv_aux [OF assms] world_step_no_panic by blast

theorem world_safe_witness:
  "world_inv (world_init (NewServer demo_config)\<lparr>wConns := 1\<rparr>) \<and>
   \<not> world_step ascii_golib (world_init (NewServer demo_config)\<lparr>wConns := 1\<rparr>) (Panic ''send on closed channel'')"
proof (rule world_safe [where c = demo_config])
  have fields: "RDBPath (svConfig (NewServer demo_config)) = []" "AOFPath (svConfig (NewServer demo_config)) = []"
      "MaxClients (svConfig (NewServer demo_config)) = 0" "StaticSlots (svConfig (NewServer demo_config)) = []"
    by (simp_all add: NewServer_fields fill_defaults_def demo_config_def)
  have "restoreData ascii_golib (\<lambda>_. demo_env) 0 None (Inr [], True) (NewServer demo_config) = Ret (None, NewServer demo_config)"
    by (simp add: restoreData_def fields)
  from world_reach.start [OF this] have "world_reach ascii_golib demo_config (world_init (NewServer demo_config))"
    by simp
  from world_reach.step [OF this world_step.accept [of _ "NewServer demo_config"]]
  show "world_reach ascii_golib demo_config (world_init (NewServer demo_config)\<lparr>wConns := 1\<rparr>)"
    by (simp add: world_init_def set_static_slots_def accept_client_def fields)
qed (simp_all add: demo_config_def)

end
