(* ===== verification/Fas_Main.thy ===== *)
theory Fas_Main
  imports Fas_EventLoop Fas_World
begin

text \<open>
  The server program (\<^verbatim>\<open>cmd/fas/main.go\<close>) and its two ways to start (\<^verbatim>\<open>Start\<close> of
  \<^verbatim>\<open>server.go\<close>, \<^verbatim>\<open>StartEventLoop\<close> of both event loops): from the values of the flags to a
  configuration, from there to a server that accepts connections. Every \<^verbatim>\<open>log.Fatalf\<close> is an
  error value. The flags are the record \<^verbatim>\<open>flag.Parse\<close> fills in; \<^verbatim>\<open>netip.ParsePrefix\<close> and the
  address resolver are parameters, the configuration file is looked up in a map of files, and
  the system calls that open the listener are an argument with their error.
\<close>

section \<open>Flags and configuration\<close>

record flags =
  fHost :: string
  fPort :: int
  fAof :: string
  fFsync :: string
  fEventLoop :: bool
  fMaxMemory :: int
  fEviction :: string
  fAuth :: bool
  fPassword :: string
  fTLSCert :: string
  fTLSKey :: string
  fAllowCIDR :: string
  fRdb :: string
  fMaxClients :: int
  fConfig :: string
  fMetricsPort :: int
  fSeed :: string
  fSeedTLS :: bool
  fSeedPass :: string
  fSlotRanges :: string

definition default_flags :: flags where
  "default_flags =
     \<lparr>fHost = ''localhost'', fPort = 6379, fAof = ''fas.aof'', fFsync = ''everysec'', fEventLoop = False,
      fMaxMemory = 1024 * 1024 * 1024, fEviction = ''allkeys-random'', fAuth = False, fPassword = [],
      fTLSCert = [], fTLSKey = [], fAllowCIDR = [], fRdb = [], fMaxClients = 0, fConfig = [], fMetricsPort = 0,
      fSeed = [], fSeedTLS = False, fSeedPass = [], fSlotRanges = []\<rparr>"

datatype main_error =
    BadFsync string
  | BadPolicy cfg_error
  | BadCIDR string
  | NoConfigFile
  | BadConfigFile cfg_error
  | BadSlotRanges slot_error
  | BadConfig cfg_error

definition parse_fsync :: "golib \<Rightarrow> string \<Rightarrow> main_error + FsyncPolicy" where
  "parse_fsync L v =
     (let w = ToLower L v in
      if w = ''always'' then Inr FsyncAlways
      else if w = ''everysec'' then Inr FsyncEverySec
      else if w = ''no'' then Inr FsyncNo
      else Inl (BadFsync v))"

definition flags_config :: "flags \<Rightarrow> FsyncPolicy \<Rightarrow> EvictionPolicy \<Rightarrow> config" where
  "flags_config f policy evict =
     \<lparr>Host = fHost f, Port = fPort f, AOFPath = fAof f, cfgFsync = policy, MaxMemory = fMaxMemory f,
      Eviction = evict, AuthEnabled = fAuth f, Password = fPassword f, TLSCertPath = fTLSCert f,
      TLSKeyPath = fTLSKey f, AllowedCIDR = [], RDBPath = fRdb f, MaxClients = fMaxClients f,
      MetricsPort = fMetricsPort f, ReplicaOf = fSeed f, ReplicaUseTLS = fSeedTLS f, ReplicaPass = fSeedPass f,
      Slots = 0, StaticSlots = []\<rparr>"

fun cidr_loop :: "(string \<Rightarrow> bool) \<Rightarrow> string list \<Rightarrow> string list \<Rightarrow> main_error + string list" where
  "cidr_loop prefix_ok [] acc = Inr acc"
| "cidr_loop prefix_ok (p0 # ps) acc =
     (let p = TrimSpace p0 in
      if p = [] then cidr_loop prefix_ok ps acc
      else if prefix_ok p then cidr_loop prefix_ok ps (acc @ [p])
      else Inl (BadCIDR p))"

definition apply_cidr :: "(string \<Rightarrow> bool) \<Rightarrow> string \<Rightarrow> config \<Rightarrow> main_error + config" where
  "apply_cidr prefix_ok v c =
     (if v = [] then Inr c
      else case cidr_loop prefix_ok (split_on (CHR '','') v) (AllowedCIDR c) of
        Inl e \<Rightarrow> Inl e
      | Inr ps \<Rightarrow> Inr (c\<lparr>AllowedCIDR := ps\<rparr>))"

definition apply_file :: "golib \<Rightarrow> (string \<Rightarrow> bytes option) \<Rightarrow> string \<Rightarrow> config \<Rightarrow> main_error + config" where
  "apply_file L files path c =
     (if path = [] then Inr c
      else case files path of
        None \<Rightarrow> Inl NoConfigFile
      | Some contents \<Rightarrow>
          (case LoadConfigFile L contents c of
             (Some e, _) \<Rightarrow> Inl (BadConfigFile e)
           | (None, c') \<Rightarrow> Inr c'))"

definition apply_slots :: "(string \<Rightarrow> string option) \<Rightarrow> string \<Rightarrow> config \<Rightarrow> main_error + config" where
  "apply_slots resolve v c =
     (if v = [] then Inr c
      else case ParseSlotRanges resolve v of
        Inl e \<Rightarrow> Inl (BadSlotRanges e)
      | Inr rs \<Rightarrow> Inr (c\<lparr>StaticSlots := rs\<rparr>))"

text \<open>\<^verbatim>\<open>main\<close> up to the call of \<^verbatim>\<open>NewServer\<close>.\<close>

definition main_config ::
  "golib \<Rightarrow> (string \<Rightarrow> bool) \<Rightarrow> (string \<Rightarrow> string option) \<Rightarrow> (string \<Rightarrow> bytes option) \<Rightarrow> flags \<Rightarrow> main_error + config"
where
  "main_config L prefix_ok resolve files f =
     (case parse_fsync L (fFsync f) of Inl e \<Rightarrow> Inl e | Inr policy \<Rightarrow>
      (case ParseEvictionPolicy L (fEviction f) of Inl e \<Rightarrow> Inl (BadPolicy e) | Inr evict \<Rightarrow>
       (case apply_cidr prefix_ok (fAllowCIDR f) (flags_config f policy evict) of Inl e \<Rightarrow> Inl e | Inr c1 \<Rightarrow>
        (case apply_file L files (fConfig f) c1 of Inl e \<Rightarrow> Inl e | Inr c2 \<Rightarrow>
         (case apply_slots resolve (fSlotRanges f) c2 of Inl e \<Rightarrow> Inl e | Inr c3 \<Rightarrow>
          (case ValidateAndFill c3 of
             (Some e, _) \<Rightarrow> Inl (BadConfig e)
           | (None, c4) \<Rightarrow> Inr c4))))))"

section \<open>Starting\<close>

text \<open>The message of an error of \<^verbatim>\<open>restoreData\<close>.\<close>

definition restore_text :: "(scan_error \<Rightarrow> string) \<Rightarrow> restore_error \<Rightarrow> string" where
  "restore_text st e =
     (case e of
        SnapshotLoad x \<Rightarrow> ''failed to load snapshot: '' @ x
      | AofOpen x \<Rightarrow> ''failed to open AOF file: '' @ x
      | AofRestore x \<Rightarrow> ''failed to restore from AOF: '' @ perr_text st x)"

datatype start_error =
    RestoreFailed restore_error
  | ListenFailed string
  | LoopRefused string

text \<open>
  \<^verbatim>\<open>Start\<close> up to the accept loop. \<open>listener\<close> is the result of loading the certificate and
  opening the socket, given whether TLS is asked for and the address.
\<close>

definition Start ::
  "golib \<Rightarrow> (nat \<Rightarrow> env) \<Rightarrow> int \<Rightarrow> (string + SnapshotEntry list) option \<Rightarrow> log_dev \<Rightarrow>
     (bool \<Rightarrow> string \<Rightarrow> string option) \<Rightarrow> server \<Rightarrow> (start_error option \<times> server) outcome"
where
  "Start L Es now snapshot log listener s =
     (case restoreData L Es now snapshot log s of
        Panic m \<Rightarrow> Panic m
      | Ret (Some e, s1) \<Rightarrow> Ret (Some (RestoreFailed e), s1)
      | Ret (None, s1) \<Rightarrow>
          (let s2 = set_static_slots s1; c = svConfig s2
           in case listener (TLSCertPath c \<noteq> [] \<and> TLSKeyPath c \<noteq> []) (addr_of c) of
                Some e \<Rightarrow> Ret (Some (ListenFailed e), s2)
              | None \<Rightarrow> Ret (None, s2)))"

definition darwin_refusal :: "server \<Rightarrow> string option" where
  "darwin_refusal s =
     (let c = svConfig s in
      if TLSCertPath c \<noteq> [] \<or> TLSKeyPath c \<noteq> []
        then Some ''TLS is not supported in event loop mode; use standard mode instead''
      else if ReplicaUseTLS c then Some ''Replica TLS is not supported in event loop mode''
      else if AuthEnabled c \<and> Password c = [] then Some ''auth enabled but no password provided''
      else if AllowedCIDR c \<noteq> []
        then Some ''CIDR allowlist is not supported in event loop mode; use standard mode''
      else None)"

text \<open>The address the event loops bind: the loop-back address or every interface.\<close>

definition bind_addr :: "config \<Rightarrow> nat list" where
  "bind_addr c = (if Host c = ''localhost'' \<or> Host c = ''127.0.0.1'' then [127, 0, 0, 1] else [0, 0, 0, 0])"

text \<open>
  \<^verbatim>\<open>StartEventLoop\<close> up to the first wait, for the checks of either system. \<open>listener\<close> is the
  result of the system calls that create, bind and register the socket.
\<close>

definition StartEventLoop ::
  "(server \<Rightarrow> string option) \<Rightarrow> golib \<Rightarrow> (nat \<Rightarrow> env) \<Rightarrow> int \<Rightarrow> (string + SnapshotEntry list) option \<Rightarrow> log_dev \<Rightarrow>
     (nat list \<Rightarrow> int \<Rightarrow> string option) \<Rightarrow> server \<Rightarrow> (start_error option \<times> server) outcome"
where
  "StartEventLoop refusal L Es now snapshot log listener s =
     (case refusal s of
        Some e \<Rightarrow> Ret (Some (LoopRefused e), s)
      | None \<Rightarrow>
          (case restoreData L Es now snapshot log s of
             Panic m \<Rightarrow> Panic m
           | Ret (Some e, s1) \<Rightarrow> Ret (Some (RestoreFailed e), s1)
           | Ret (None, s1) \<Rightarrow>
               (case listener (bind_addr (svConfig s1)) (Port (svConfig s1)) of
                  Some e \<Rightarrow> Ret (Some (ListenFailed e), s1)
                | None \<Rightarrow> Ret (None, s1))))"

text \<open>On other systems the event loop is a stub.\<close>

definition stub_refusal :: "server \<Rightarrow> string option" where
  "stub_refusal s = Some ''event loop is only supported on macOS (kqueue) and Linux (epoll) for now''"

text \<open>The whole of \<^verbatim>\<open>main\<close>: a fatal error of the configuration, or the end of starting in the mode asked for.\<close>

definition main_run ::
  "golib \<Rightarrow> (string \<Rightarrow> bool) \<Rightarrow> (string \<Rightarrow> string option) \<Rightarrow> (string \<Rightarrow> bytes option) \<Rightarrow> (server \<Rightarrow> string option) \<Rightarrow>
     (nat \<Rightarrow> env) \<Rightarrow> int \<Rightarrow> (string + SnapshotEntry list) option \<Rightarrow> log_dev \<Rightarrow> (bool \<Rightarrow> string \<Rightarrow> string option) \<Rightarrow>
     (nat list \<Rightarrow> int \<Rightarrow> string option) \<Rightarrow> flags \<Rightarrow> main_error + (start_error option \<times> server) outcome"
where
  "main_run L prefix_ok resolve files refusal Es now snapshot log listener el_listener f =
     (case main_config L prefix_ok resolve files f of
        Inl e \<Rightarrow> Inl e
      | Inr c \<Rightarrow>
          Inr (if fEventLoop f then StartEventLoop refusal L Es now snapshot log el_listener (NewServer c)
               else Start L Es now snapshot log listener (NewServer c)))"

text \<open>The page of \<^verbatim>\<open>startMetrics\<close>; \<open>quote\<close> is the verb \<^verbatim>\<open>%q\<close>.\<close>

definition metrics :: "(string \<Rightarrow> string) \<Rightarrow> server \<Rightarrow> string" where
  "metrics quote s =
     (let st = Stats (svStore s) in
      ''fas_keys '' @ dec_nat (stKeys st) @ [LF] @ ''fas_keys_with_ttl '' @ dec_nat (stTTLKeys st) @ [LF] @
      ''fas_expired_total '' @ dec_int (stExpired st) @ [LF] @ ''fas_memory_used_bytes '' @ dec_int (stMemoryUsed st) @ [LF] @
      ''fas_max_memory_bytes '' @ dec_int (stMaxMemory st) @ [LF] @ ''fas_clients '' @ dec_int (clients s) @ [LF] @
      ''fas_leader_info 1'' @ [LF] @ ''fas_leader_address '' @ quote (leaderAddr s) @ [LF])"

text \<open>\<^verbatim>\<open>startMetrics\<close>: with a port, the address it serves and the page, computed for each request.\<close>

definition startMetrics :: "(string \<Rightarrow> string) \<Rightarrow> server \<Rightarrow> (string \<times> (server \<Rightarrow> string)) option" where
  "startMetrics quote s =
     (if MetricsPort (svConfig s) = 0 then None else Some (CHR '':'' # dec_int (MetricsPort (svConfig s)), metrics quote))"

section \<open>Starting does not change the role of a server\<close>

lemma initAOF_same_role: "initAOF L Es log s = Ret (x, t) \<Longrightarrow> same_role s t"
  using apply_all_role [of L Es 0 _ s]
  by (auto simp: initAOF_def split: sum.splits outcome.splits option.splits)

lemma restore_same_role:
  assumes "restoreData L Es now snapshot log s = Ret (None, t)"
  shows "same_role s t"
proof -
  have "\<exists>s1. (s1 = s \<or> (\<exists>st. s1 = s\<lparr>svStore := st\<rparr>)) \<and>
      (t = s1 \<or> (\<exists>h u. initAOF L Es log s1 = Ret (Inr h, u) \<and> t = u\<lparr>svAof := Some (ahAof h)\<rparr>))"
    using assms by (auto simp: restoreData_def Let_def split: option.splits sum.splits if_splits outcome.splits prod.splits)
  then obtain s1 where s1: "s1 = s \<or> (\<exists>st. s1 = s\<lparr>svStore := st\<rparr>)"
      "t = s1 \<or> (\<exists>h u. initAOF L Es log s1 = Ret (Inr h, u) \<and> t = u\<lparr>svAof := Some (ahAof h)\<rparr>)"
    by blast
  have "same_role s s1"
    using s1(1) by (auto simp: same_role_def)
  moreover have "same_role s1 t"
    using s1(2) initAOF_same_role [of L Es log s1] by (auto simp: same_role_def)
  ultimately show ?thesis
    by (rule same_role_trans)
qed

section \<open>Properties\<close>

lemma fill_defaults_idem: "fill_defaults (fill_defaults c) = fill_defaults c"
  by (simp add: fill_defaults_def Let_def)

lemma validate_idem: "ValidateAndFill c = (None, c') \<Longrightarrow> ValidateAndFill c' = (None, c')"
  by (auto simp: ValidateAndFill_def Let_def fill_defaults_idem split: if_splits)

text \<open>
  C38: Every configuration the program goes on with is one a server can be made of: validating it
  again, as \<^verbatim>\<open>NewServer\<close> does without looking at the error, succeeds and changes nothing, so the server runs with exactly
  this configuration, and its store has the memory limit and the policy it names.
\<close>
theorem main_config_valid:
  assumes "main_config L prefix_ok resolve files f = Inr c"
  shows "ValidateAndFill c = (None, c) \<and> svConfig (NewServer c) = c \<and>
         maxMemory (svStore (NewServer c)) = MaxMemory c \<and> evictionPolicy (svStore (NewServer c)) = Eviction c \<and>
         (AuthEnabled c \<longrightarrow> Password c \<noteq> []) \<and> (TLSCertPath c = [] \<longleftrightarrow> TLSKeyPath c = [])"
proof -
  have v: "ValidateAndFill c = (None, c)"
    using assms by (auto simp: main_config_def split: sum.splits prod.splits option.splits intro: validate_idem)
  then have "AuthEnabled c \<longrightarrow> Password c \<noteq> []" "TLSCertPath c = [] \<longleftrightarrow> TLSKeyPath c = []"
    by (auto simp: ValidateAndFill_def Let_def split: if_splits)
  then show ?thesis
    using v by (simp add: NewServer_def Let_def New_def)
qed

definition any_resolver :: "string \<Rightarrow> string option" where
  "any_resolver a = None"

theorem main_config_valid_witness:
  "\<exists>c. main_config ascii_golib (\<lambda>_. True) any_resolver (\<lambda>_. None) default_flags = Inr c \<and>
       ValidateAndFill c = (None, c) \<and> Eviction c = EvictionAllKeysRandom"
proof -
  let ?c = "(flags_config default_flags FsyncEverySec EvictionAllKeysRandom)\<lparr>Slots := 16384\<rparr>"
  have lower: "ToLower ascii_golib ''everysec'' = ''everysec''" "ToLower ascii_golib ''allkeys-random'' = ''allkeys-random''"
    by code_simp+
  have "main_config ascii_golib (\<lambda>_. True) any_resolver (\<lambda>_. None) default_flags = Inr ?c"
    by (simp add: main_config_def default_flags_def parse_fsync_def ParseEvictionPolicy_def lower apply_cidr_def
        apply_file_def apply_slots_def flags_config_def ValidateAndFill_def fill_defaults_def)
  with main_config_valid [OF this] show ?thesis
    by (intro exI [of _ ?c]) (simp add: flags_config_def)
qed

text \<open>
  Only \<^verbatim>\<open>Start\<close> installs the static slot ranges. A server started by it looks slots up in the
  configured ranges; one started by an event loop, with the same configuration, takes itself for
  the owner of every slot and never redirects.
\<close>
lemma eventloop_ignores_slots:
  assumes "StaticSlots c \<noteq> []"
    and "Start L Es now snapshot log listener (NewServer c) = Ret (None, s)"
    and "StartEventLoop refusal L Es now snapshot log listener' (NewServer c) = Ret (None, t)"
  shows "ranges (cluster s) = StaticSlots c \<and> (\<forall>slot. moved slot t = None)"
proof -
  let ?n = "NewServer c"
  have n: "StaticSlots (svConfig ?n) = StaticSlots c" "cluster ?n = NewClusterState (Slots (fill_defaults c)) (selfAddr ?n)"
    by (simp_all add: NewServer_def Let_def ValidateAndFill_def fill_defaults_def)
  obtain s1 where s1: "restoreData L Es now snapshot log ?n = Ret (None, s1)" "s = set_static_slots s1"
    using assms(2) by (auto simp: Start_def Let_def split: outcome.splits option.splits)
  have t: "restoreData L Es now snapshot log ?n = Ret (None, t)"
    using assms(3) by (auto simp: StartEventLoop_def split: outcome.splits option.splits)
  have "same_role ?n s1" "same_role ?n t"
    using restore_same_role s1(1) t by blast+
  then have "ranges (cluster s) = StaticSlots c" "cluster t = NewClusterState (Slots (fill_defaults c)) (selfAddr t)"
    using assms(1) n s1(2) by (simp_all add: same_role_def set_static_slots_def SetRanges_def)
  then show ?thesis
    by (simp add: moved_def Lookup_def NewClusterState_def)
qed

end
