(* ===== verification/Fas_Replica.thy ===== *)
theory Fas_Replica
  imports Fas_World
begin

text \<open>
  Replication from end to end: the client that a replica runs against its master
  (\<^verbatim>\<open>startReplicaClient\<close>), composed with the loop that serves it on the master
  (\<^verbatim>\<open>handleConnection\<close>, \<^verbatim>\<open>handleReplicaConnection\<close>) and with the heartbeat that may end the replica's role.
\<close>

declare map_of_eq_Some_iff [simp del] Some_eq_map_of_iff [simp del]

section \<open>The client of a replica\<close>

text \<open>
  What the network does to one iteration: whether the dial, the write of \<^verbatim>\<open>AUTH\<close> and the write of
  \<^verbatim>\<open>REPL\<close> succeed, and the bytes that arrive until the connection ends.
\<close>

record link =
  lkOpen :: bool
  lkAuth :: bool
  lkRepl :: bool
  lkIn :: bytes

text \<open>With a password the first line that arrives is dropped unread. \<open>None\<close>: the iteration is given up.\<close>

definition replica_auth :: "link \<Rightarrow> server \<Rightarrow> bytes option" where
  "replica_auth d s =
     (if ReplicaPass (svConfig s) = [] then Some (lkIn d)
      else if \<not> lkAuth d then None
      else map_option snd (ReadString (lkIn d)))"

definition replica_iteration :: "golib \<Rightarrow> (nat \<Rightarrow> env) \<Rightarrow> link \<Rightarrow> server \<Rightarrow> server outcome" where
  "replica_iteration L Es d s =
     (if \<not> lkOpen d then Ret s
      else (case replica_auth d s of
         None \<Rightarrow> Ret s
       | Some stream \<Rightarrow> if lkRepl d then replica_session L Es stream s else Ret s))"

text \<open>The life of a server that was started as a replica: its client, its heartbeat and its own clients.\<close>

datatype life_event = Iterate "nat \<Rightarrow> env" link | Beat bool | Client env command

definition life_step :: "golib \<Rightarrow> life_event \<Rightarrow> server \<Rightarrow> server outcome" where
  "life_step L ev s =
     (case ev of
        Iterate Es d \<Rightarrow> replica_iteration L Es d s
      | Beat reachable \<Rightarrow> Ret (heartbeat reachable s)
      | Client E cmd \<Rightarrow> (case executeCommand L E cmd False s of Panic m \<Rightarrow> Panic m | Ret (_, t) \<Rightarrow> Ret t))"

fun life_run :: "golib \<Rightarrow> life_event list \<Rightarrow> server \<Rightarrow> server outcome" where
  "life_run L [] s = Ret s"
| "life_run L (ev # evs) s = (case life_step L ev s of Panic m \<Rightarrow> Panic m | Ret t \<Rightarrow> life_run L evs t)"

section \<open>Runs of the world\<close>

definition world_run :: "golib \<Rightarrow> world \<Rightarrow> world \<Rightarrow> bool" where
  "world_run L = (\<lambda>w w'. world_step L w (Ret w'))\<^sup>*\<^sup>*"

lemma world_run_refl [simp]: "world_run L w w"
  by (simp add: world_run_def)

lemma world_run_step: "world_step L w (Ret w') \<Longrightarrow> world_run L w' w'' \<Longrightarrow> world_run L w w''"
  by (simp add: world_run_def converse_rtranclp_into_rtranclp)

lemma world_run_inv: "world_run L w w' \<Longrightarrow> world_inv w \<Longrightarrow> world_inv w'"
  unfolding world_run_def by (induction rule: rtranclp_induct) (auto intro: world_step_inv)

lemma apply_all_run: "apply_all L Es i cmds (wServer w) = Ret t \<Longrightarrow> world_run L w (w\<lparr>wServer := t\<rparr>)"
proof (induction cmds arbitrary: i w)
  case (Cons cmd cmds)
  then obtain r u where u: "executeCommand L (Es i) cmd True (wServer w) = Ret (r, u)" "apply_all L Es (i + 1) cmds u = Ret t"
    by (auto split: outcome.splits)
  then show ?case
    using Cons.IH [of "i + 1" "w\<lparr>wServer := u\<rparr>"] world_step.master_command [OF u(1)] by (auto intro: world_run_step)
qed auto

lemma iteration_run:
  assumes "replica_iteration L Es d (wServer w) = Ret t"
  shows "world_run L w (w\<lparr>wServer := t\<rparr>)"
proof (cases "t = wServer w")
  case False
  then obtain cmds where "apply_all L Es 0 cmds ((wServer w)\<lparr>leaderAddr := masterAddr (wServer w)\<rparr>) = Ret t"
    using assms by (auto simp: replica_iteration_def replica_session_def split: if_splits option.splits outcome.splits)
  then show ?thesis
    using apply_all_run [of L Es 0 cmds "w\<lparr>wServer := (wServer w)\<lparr>leaderAddr := masterAddr (wServer w)\<rparr>\<rparr>"]
      world_step.master_connect [of L w] by (auto intro: world_run_step)
qed simp

lemma conn_loop_run:
  "conn_loop L st Es contains peer i c (wServer w) = Ret (t, c', s) \<Longrightarrow> world_run L w (w\<lparr>wServer := s\<rparr>)"
proof (induction "length (cnIn c)" arbitrary: c i w rule: less_induct)
  case less
  note loop = less.prems [unfolded conn_loop.simps [of L st Es contains peer i c "wServer w"]]
  have turn: "world_run L w (w\<lparr>wServer := s'\<rparr>)" if h: "handle_command L (Es i) contains peer a cmd (wServer w) = Ret (x, s')" for a cmd x s'
  proof (cases "s' = wServer w")
    case False
    then obtain r where "executeCommand L (Es i) cmd False (wServer w) = Ret (r, s')"
      using h by (auto simp: handle_command_def split: if_splits list.splits outcome.splits)
    then show ?thesis
      using world_step.command world_run_step world_run_refl by blast
  qed simp
  show ?case
  proof (cases "ParseCommand L (cnIn c)")
    case (Ret x)
    then consider (err) e where "x = Inl e" | (blank) r where "x = Inr (None, r)" | (cmd) cmd r where "x = Inr (Some cmd, r)"
      by (metis sum.exhaust surj_pair option.exhaust)
    then show ?thesis
    proof cases
      case err
      then show ?thesis
        using loop Ret by (auto split: if_splits)
    next
      case (blank r)
      then show ?thesis
        using loop Ret less.hyps [of "c\<lparr>cnIn := r\<rparr>" i w] ParseCommand_shorter [of L "cnIn c" None r] by simp
    next
      case (cmd cm r)
      then obtain x s' where h: "handle_command L (Es i) contains peer (cnAuthed c) cm (wServer w) = Ret (x, s')"
        using loop Ret by (auto split: outcome.splits)
      show ?thesis
      proof (cases "\<exists>a out. x = Continue a out")
        case True
        then obtain a out where x: "x = Continue a out"
          by blast
        have "world_run L (w\<lparr>wServer := s'\<rparr>) (w\<lparr>wServer := s'\<rparr>\<lparr>wServer := s\<rparr>)"
          using loop Ret cmd h x ParseCommand_shorter [of L "cnIn c" "Some cm" r]
          by (intro less.hyps [of "c\<lparr>cnIn := r, cnAuthed := a, cnOut := cnOut c @ out\<rparr>" "i + 1"]) simp_all
        then show ?thesis
          using turn [OF h] by (simp add: world_run_def)
      next
        case False
        then show ?thesis
          using loop Ret cmd h turn [OF h] by (cases x) auto
      qed
    qed
  qed (use loop in simp)
qed

text \<open>
  Whole connections, as a client and as a server, are runs of the world: what holds of every reachable
  world holds through them.
\<close>

lemma handleConnection_run:
  assumes "handleConnection L st Es contains peer input (wServer w) = Ret (t, c, s)"
  shows "world_run L w (w\<lparr>wServer := s\<rparr>)"
  using assms by (auto simp: handleConnection_def split: if_splits intro: conn_loop_run)

section \<open>The handshake\<close>

lemma conn_loop_cmd:
  assumes "loggable L cmd" "cnIn c = encode_cmd cmd @ r"
  shows "conn_loop L st Es contains peer i c s =
    (case handle_command L (Es i) contains peer (cnAuthed c) cmd s of
       Panic m \<Rightarrow> Panic m
     | Ret (Continue authed out, s') \<Rightarrow>
         conn_loop L st Es contains peer (i + 1) (c\<lparr>cnIn := r, cnAuthed := authed, cnOut := cnOut c @ out\<rparr>) s'
     | Ret (Closed out, s') \<Rightarrow> Ret (Some (Closed out), c\<lparr>cnIn := r, cnOut := cnOut c @ out\<rparr>, s')
     | Ret (t, s') \<Rightarrow> Ret (Some t, c\<lparr>cnIn := r\<rparr>, s'))"
proof -
  have "ParseCommand L (cnIn c) = Ret (Inr (Some cmd, r))"
    using assms parse_write_stream_aux [of "cName cmd # cArgs cmd" L r]
    by (simp add: loggable_def encode_cmd_def to_command_def)
  then show ?thesis
    by (subst conn_loop.simps) simp
qed

lemma conn_loop_end: "cnIn c = [] \<Longrightarrow> conn_loop L st Es contains peer i c s = Ret (None, c, s)"
  by (subst conn_loop.simps) (simp add: ParseCommand_def ReadString_def)

definition auth_cmd :: "string \<Rightarrow> command" where
  "auth_cmd pass = \<lparr>cName = ''AUTH'', cArgs = [pass]\<rparr>"

definition repl_cmd :: command where
  "repl_cmd = \<lparr>cName = ''REPL'', cArgs = []\<rparr>"

lemma hello_upper [simp]: "ToUpper L ''AUTH'' = ''AUTH''" "ToUpper L ''REPL'' = ''REPL''"
  by (simp_all add: ToUpper_def is_ascii_def upper_char_def byte_def)

lemma hello_loggable: "length pass \<le> 524288 \<Longrightarrow> loggable L (auth_cmd pass)" "loggable L repl_cmd"
  by (simp_all add: loggable_def auth_cmd_def repl_cmd_def within_limits_def)

lemma replica_hello_cmds:
  "replica_hello s = (if ReplicaPass (svConfig s) \<noteq> [] then encode_cmd (auth_cmd (ReplicaPass (svConfig s))) else []) @ encode_cmd repl_cmd"
  by (simp add: replica_hello_def encode_cmd_def auth_cmd_def repl_cmd_def)

text \<open>The replies to the two commands of a replica, by what the master thinks of the password.\<close>

definition auth_reply :: "string \<Rightarrow> server \<Rightarrow> bytes" where
  "auth_reply pass m = (if pass = Password (svConfig m) then WriteString ''OK'' else WriteError ''ERR invalid password'')"

definition admitted :: "string \<Rightarrow> server \<Rightarrow> bool" where
  "admitted pass m \<longleftrightarrow> (AuthEnabled (svConfig m) \<longrightarrow> pass = Password (svConfig m))"

lemma handle_auth:
  "\<not> peer_rejected contains peer m \<Longrightarrow> handle_command L E contains peer a (auth_cmd pass) m
     = Ret (Continue (a \<or> pass = Password (svConfig m)) (auth_reply pass m), m)"
  by (simp add: handle_command_def auth_cmd_def auth_reply_def)

lemma handle_repl:
  "\<not> peer_rejected contains peer m \<Longrightarrow> handle_command L E contains peer a repl_cmd m
     = Ret (if a then Replicate else Continue False (WriteError ''NOAUTH Authentication required''), m)"
  by (simp add: handle_command_def repl_cmd_def)

lemma serve_auth:
  assumes "\<not> peer_rejected contains peer m" "length pass \<le> 524288" "cnIn c = encode_cmd (auth_cmd pass) @ r"
  shows "conn_loop L st Es contains peer i c m = conn_loop L st Es contains peer (i + 1)
      (c\<lparr>cnIn := r, cnAuthed := cnAuthed c \<or> pass = Password (svConfig m), cnOut := cnOut c @ auth_reply pass m\<rparr>) m"
  by (simp add: conn_loop_cmd [OF hello_loggable(1) [OF assms(2)] assms(3)] handle_auth [OF assms(1)])

lemma serve_repl:
  assumes "\<not> peer_rejected contains peer m" "cnIn c = encode_cmd repl_cmd"
  shows "\<exists>c'. conn_loop L st Es contains peer i c m = Ret (if cnAuthed c then Some Replicate else None, c', m) \<and>
           cnOut c' = cnOut c @ (if cnAuthed c then [] else WriteError ''NOAUTH Authentication required'')"
proof -
  have "cnIn c = encode_cmd repl_cmd @ []"
    using assms(2) by simp
  from conn_loop_cmd [OF hello_loggable(2) this] show ?thesis
    by (simp add: handle_repl [OF assms(1)] conn_loop_end)
qed

lemma hello_served:
  assumes "AuthEnabled (svConfig m) \<longrightarrow> Password (svConfig m) \<noteq> []" "\<not> peer_rejected contains peer m"
    "length (ReplicaPass (svConfig r)) \<le> 524288"
  defines "pass \<equiv> ReplicaPass (svConfig r)"
  shows "\<exists>c. handleConnection L st Es contains peer (replica_hello r) m
              = Ret (if admitted pass m then Some Replicate else None, c, m) \<and>
           cnOut c = (if pass = [] then [] else auth_reply pass m) @
                     (if admitted pass m then [] else WriteError ''NOAUTH Authentication required'')"
proof -
  let ?c = "\<lparr>cnIn = replica_hello r, cnAuthed = \<not> AuthEnabled (svConfig m), cnOut = []\<rparr>"
  let ?d = "?c\<lparr>cnIn := encode_cmd repl_cmd, cnAuthed := admitted pass m, cnOut := if pass = [] then [] else auth_reply pass m\<rparr>"
  obtain i where "conn_loop L st Es contains peer 0 ?c m = conn_loop L st Es contains peer i ?d m"
  proof (cases "pass = []")
    case True
    then show ?thesis
      using assms(1) by (intro that [of 0]) (auto simp: replica_hello_cmds pass_def admitted_def)
  next
    case False
    then have "cnIn ?c = encode_cmd (auth_cmd pass) @ encode_cmd repl_cmd"
      by (simp add: replica_hello_cmds pass_def)
    from serve_auth [OF assms(2) _ this] show ?thesis
      using assms(3) False by (intro that [of 1]) (simp add: pass_def admitted_def)
  qed
  moreover have "\<exists>c'. conn_loop L st Es contains peer i ?d m = Ret (if admitted pass m then Some Replicate else None, c', m) \<and>
      cnOut c' = cnOut ?d @ (if admitted pass m then [] else WriteError ''NOAUTH Authentication required'')"
    using serve_repl [OF assms(2), of ?d L st Es i] by simp
  ultimately show ?thesis
    using assms(1) by (auto simp: handleConnection_def)
qed

section \<open>The stream\<close>

text \<open>
  A session adds to a store: every key of the master gets the master's value, the others stay.
\<close>

lemma session_merges:
  assumes replica: "owner r" "plain_ok (svStore r)" "ps_inv (svPubsub r)"
    and master: "plain (svStore m)" "keys (sdata (svStore m)) \<subseteq> set (eOrd E)"
      "\<forall>k v. values_of (svStore m) k = Some v \<longrightarrow> loggable L (set_cmd k v)"
    and cmds: "\<forall>cmd \<in> set cmds. is_set cmd \<and> loggable L cmd"
  shows "\<exists>t. replica_session L Es (replica_snapshot E m @ log_of cmds) r = Ret t \<and>
           same_role (r\<lparr>leaderAddr := masterAddr r\<rparr>) t \<and> plain_ok (svStore t) \<and>
           values_of (svStore t) = fold set_map cmds (values_of (svStore r) ++ values_of (svStore m))"
proof -
  let ?r = "r\<lparr>leaderAddr := masterAddr r\<rparr>" and ?st = "svStore m"
  let ?snap = "map (\<lambda>e. set_cmd (seKey e) (seValue e)) (SnapshotEntries (eNow E) (eOrd E) ?st)"
  have r: "owner ?r" "plain_ok (svStore ?r)" "ps_inv (svPubsub ?r)"
    using replica by (auto simp: owner_def moved_def Let_def)
  have all: "\<forall>cmd \<in> set (?snap @ cmds). loggable L cmd \<and> is_set cmd"
    using cmds master(3) snapshot_entries_values by (auto simp: is_set_def set_cmd_def)
  then have "ReadCommands L (replica_snapshot E m @ log_of cmds) = Ret (?snap @ cmds, None)"
    using read_log [of "?snap @ cmds" L] by (simp add: replica_snapshot_log log_of_append)
  moreover obtain t where t: "apply_all L Es 0 (?snap @ cmds) ?r = Ret t" "same_role ?r t" "plain_ok (svStore t)"
      "values_of (svStore t) = fold set_map (?snap @ cmds) (values_of (svStore r))"
    using apply_all_sets [OF r, of "?snap @ cmds" L Es 0] all by auto
  moreover have "fold set_map ?snap (values_of (svStore r)) = values_of (svStore r) ++ values_of ?st"
  proof -
    have "values_of ?st k = None" if "k \<notin> set (eOrd E)" for k
      using master(2) that map_of_keyD [of "sdata ?st" k] by (cases "map_of (sdata ?st) k") (auto simp: values_of_def)
    then show ?thesis
      unfolding snapshot_sets [OF master(1)] by (force simp: fun_eq_iff map_add_def split: option.split)
  qed
  ultimately show ?thesis
    by (simp add: replica_session_def)
qed

lemma auth_reply_line: "ReadString (auth_reply pass m @ r) = Some (auth_reply pass m, r)"
  by (simp add: auth_reply_def WriteString_def WriteError_def ReadString_def)

lemma replica_auth_reply:
  "replica_auth (d\<lparr>lkAuth := True, lkIn := (if ReplicaPass (svConfig r) = [] then [] else auth_reply (ReplicaPass (svConfig r)) m) @ rest\<rparr>) r
     = Some rest"
  by (simp add: replica_auth_def auth_reply_line)

definition good_link :: "bytes \<Rightarrow> link" where
  "good_link bytes = \<lparr>lkOpen = True, lkAuth = True, lkRepl = True, lkIn = bytes\<rparr>"

lemma good_iteration:
  "replica_iteration L Es (good_link ((if ReplicaPass (svConfig r) = [] then [] else auth_reply (ReplicaPass (svConfig r)) m) @ rest)) r
     = replica_session L Es rest r"
  using replica_auth_reply [where d = "good_link []"] by (simp add: replica_iteration_def good_link_def)

text \<open>The refusal of \<^verbatim>\<open>REPL\<close>, read by the parser of commands.\<close>

lemma refusal_is_command:
  "ReadCommands L (WriteError ''NOAUTH Authentication required'')
     = Ret ([\<lparr>cName = ''-NOAUTH'', cArgs = [''Authentication'', ''required'']\<rparr>], None)"
proof -
  have "ToUpper L ''-NOAUTH'' = ''-NOAUTH''"
    by (simp add: ToUpper_def is_ascii_def upper_char_def byte_def)
  moreover have "ReadString (WriteError ''NOAUTH Authentication required'')
      = Some (WriteError ''NOAUTH Authentication required'', [])"
    by (simp add: ReadString_def WriteError_def)
  moreover have "TrimSpace (WriteError ''NOAUTH Authentication required'') = ''-NOAUTH Authentication required''"
    by code_simp
  moreover have "Fields ''-NOAUTH Authentication required'' = [''-NOAUTH'', ''Authentication'', ''required'']"
    by code_simp
  ultimately have "ParseCommand L (WriteError ''NOAUTH Authentication required'')
      = Ret (Inr (Some \<lparr>cName = ''-NOAUTH'', cArgs = [''Authentication'', ''required'']\<rparr>, []))"
    by (simp add: ParseCommand_def to_command_def)
  then show ?thesis
    by (subst ReadCommands.simps) (simp add: ReadCommands_Nil)
qed

section \<open>The role\<close>

lemma iteration_role:
  assumes "replica_iteration L Es d s = Ret t"
  shows "same_role s t \<or> same_role (s\<lparr>leaderAddr := masterAddr s\<rparr>) t"
  using assms apply_all_role
  by (auto simp: replica_iteration_def replica_session_def split: if_splits option.splits outcome.splits)

text \<open>Nothing makes a server a replica again.\<close>

lemma life_step_mode:
  assumes "life_step L ev s = Ret t" "\<not> replicaMode s"
  shows "\<not> replicaMode t"
proof (cases ev)
  case (Iterate Es d)
  then show ?thesis
    using assms iteration_role [of L Es d s t] by (auto simp: life_step_def same_role_def)
next
  case (Beat reachable)
  then show ?thesis
    using assms by (auto simp: life_step_def heartbeat_def)
next
  case (Client E cmd)
  then show ?thesis
    using assms execute_role by (auto simp: life_step_def same_role_def split: outcome.splits)
qed

lemma life_run_mode: "life_run L evs s = Ret t \<Longrightarrow> \<not> replicaMode s \<Longrightarrow> \<not> replicaMode t"
proof (induction evs arbitrary: s)
  case (Cons ev evs)
  then show ?case
    using life_step_mode by (auto split: outcome.splits)
qed simp

section \<open>Properties\<close>


definition demo_guarded :: server where
  "demo_guarded = demo_master\<lparr>svConfig := demo_cfg\<lparr>AuthEnabled := True, Password := ''pw''\<rparr>\<rparr>"

definition demo_replica :: "string \<Rightarrow> server" where
  "demo_replica pass = NewServer (demo_cfg\<lparr>ReplicaOf := ''m:1'', ReplicaPass := pass\<rparr>)"

lemma demo_replica_ok:
  "owner (demo_replica pass)" "plain_ok (svStore (demo_replica pass))" "ps_inv (svPubsub (demo_replica pass))"
  "replicaMode (demo_replica pass)" "ReplicaPass (svConfig (demo_replica pass)) = pass"
  "masterAddr (demo_replica pass) = ''m:1''"
proof -
  let ?c = "demo_cfg\<lparr>ReplicaOf := ''m:1'', ReplicaPass := pass\<rparr>"
  show "owner (demo_replica pass)"
    unfolding demo_replica_def by (rule NewServer_owner) (simp_all add: demo_cfg_def demo_config_def)
  have "MaxMemory (fill_defaults ?c) \<le> 0"
    by (simp add: fill_defaults_def demo_cfg_def demo_config_def)
  then show "plain_ok (svStore (demo_replica pass))" "ps_inv (svPubsub (demo_replica pass))"
    using plain_New new_inv by (simp_all add: demo_replica_def NewServer_fields)
  show "replicaMode (demo_replica pass)" "ReplicaPass (svConfig (demo_replica pass)) = pass"
    by (simp_all add: demo_replica_def NewServer_fields fill_defaults_def Let_def)
  show "masterAddr (demo_replica pass) = ''m:1''"
    by (simp add: demo_replica_def NewServer_def ValidateAndFill_def fill_defaults_def Let_def)
qed

lemma demo_guarded_ok:
  "plain_ok (svStore demo_guarded)" "keys (sdata (svStore demo_guarded)) \<subseteq> set [''b'', ''a'']" "\<not> replicaMode demo_guarded"
  "\<forall>k v. values_of (svStore demo_guarded) k = Some v \<longrightarrow> loggable ascii_golib (set_cmd k v)"
  "\<not> peer_rejected contains NotTCP demo_guarded"
proof -
  show "plain_ok (svStore demo_guarded)"
    using demo_master_plain by (simp add: demo_guarded_def)
  have "ToUpper ascii_golib ''SET'' = ''SET''"
    by code_simp
  then show "\<forall>k v. values_of (svStore demo_guarded) k = Some v \<longrightarrow> loggable ascii_golib (set_cmd k v)"
    by (auto simp: demo_guarded_def demo_master_def demo_def demo_item_def values_of_def loggable_def set_cmd_def within_limits_def
        split: if_splits)
qed (auto simp: demo_guarded_def demo_master_def demo_def NewServer_fields demo_cfg_def demo_config_def peer_rejected_def)


text \<open>
  A replica with a wrong password. The master refuses it and keeps its state; the replica reads neither
  refusal, takes the second one for a command, and goes on with its old data, naming the master as its leader.
\<close>
lemma refused_replica_unaware:
  assumes auth: "AuthEnabled (svConfig m)" "Password (svConfig m) \<noteq> []" "ReplicaPass (svConfig r) \<noteq> Password (svConfig m)"
      "\<not> peer_rejected contains peer m" "length (ReplicaPass (svConfig r)) \<le> 524288"
    and replica: "owner r"
  shows "\<exists>c. handleConnection L st Es contains peer (replica_hello r) m = Ret (None, c, m) \<and>
           replica_iteration L Es' (good_link (cnOut c)) r = Ret (r\<lparr>leaderAddr := masterAddr r\<rparr>)"
proof -
  let ?pass = "ReplicaPass (svConfig r)" and ?r = "r\<lparr>leaderAddr := masterAddr r\<rparr>"
  let ?no = "WriteError ''NOAUTH Authentication required''"
  have "\<not> admitted ?pass m"
    using auth by (simp add: admitted_def)
  with hello_served [OF _ auth(4,5), of L st Es] auth(2)
  obtain c where c: "handleConnection L st Es contains peer (replica_hello r) m = Ret (None, c, m)"
      "cnOut c = (if ?pass = [] then [] else auth_reply ?pass m) @ ?no"
    by auto
  have "ReadCommands L ?no = Ret ([\<lparr>cName = ''-NOAUTH'', cArgs = [''Authentication'', ''required'']\<rparr>], None)"
    by (rule refusal_is_command)
  moreover have "executeCommand L (Es' 0) \<lparr>cName = ''-NOAUTH'', cArgs = [''Authentication'', ''required'']\<rparr> True ?r
      = Ret (''ERR unknown command '' @ CHR 0x27 # ''-NOAUTH'' @ [CHR 0x27], ?r)"
    using replica by (subst owner_execute) (auto simp: owner_def moved_def Let_def dispatch_def)
  ultimately have "replica_session L Es' ?no r = Ret ?r"
    by (simp add: replica_session_def)
  then show ?thesis
    using c good_iteration [of L Es' r m ?no] by auto
qed

text \<open>
  C32: A write that falls between the snapshot and the registration of a replica. The master answers \<^verbatim>\<open>OK\<close>
  and holds the new value; the write is neither in the snapshot nor in the new replica's buffer, and the
  replica keeps the old value through any later commands on other keys.
\<close>
theorem replica_misses_write:
  assumes cfg: "MaxMemory c < 0" "0 \<le> Slots c" "Slots c < 65536"
    and master: "plain_ok (svStore m)" "keys (sdata (svStore m)) \<subseteq> set (eOrd E)" "\<not> replicaMode m"
      "\<forall>k v. values_of (svStore m) k = Some v \<longrightarrow> loggable L (set_cmd k v)"
    and cmds: "\<forall>cmd \<in> set cmds. is_set cmd \<and> loggable L cmd \<and> hd (cArgs cmd) \<noteq> k"
  shows "\<exists>m1 rid m2 t. exec_set E' (set_cmd k v) False m = (''OK'', m1) \<and> replica_register m1 = (rid, m2) \<and>
           map_of (replicas m2) rid = Some [] \<and> values_of (svStore m2) k = Some v \<and>
           replica_session L Es (replica_snapshot E m @ log_of cmds) (NewServer c) = Ret t \<and>
           values_of (svStore t) k = values_of (svStore m) k"
proof -
  have mem: "MaxMemory (fill_defaults c) \<le> 0"
    using cfg by (simp add: fill_defaults_def Let_def)
  have "owner (NewServer c)" "plain_ok (svStore (NewServer c))" "ps_inv (svPubsub (NewServer c))"
      "values_of (svStore (NewServer c)) = Map.empty"
    using NewServer_owner cfg(2,3) plain_New [OF mem] new_inv by (auto simp: NewServer_fields)
  with session_merges [of "NewServer c" m E L cmds Es] obtain t where
    t: "replica_session L Es (replica_snapshot E m @ log_of cmds) (NewServer c) = Ret t"
      "values_of (svStore t) = fold set_map cmds (values_of (svStore m))"
    using master cmds by (auto simp: plain_ok_def)
  have "fold set_map cmds f k = f k" for f
    using cmds by (induction cmds arbitrary: f) (auto simp: set_map_def split: list.splits)
  moreover obtain m1 where m1: "exec_set E' (set_cmd k v) False m = (''OK'', m1)" "values_of (svStore m1) k = Some v"
    using master(3) plain_set(2) [OF master(1)] by (simp add: exec_set_def set_cmd_def Let_def)
  ultimately show ?thesis
    using t by (auto simp: replica_register_def Let_def)
qed

theorem replica_misses_write_witness:
  "\<exists>m1 rid m2 t. exec_set demo_env (set_cmd ''a'' ''new'') False demo_guarded = (''OK'', m1) \<and> replica_register m1 = (rid, m2) \<and>
     map_of (replicas m2) rid = Some [] \<and> values_of (svStore m2) ''a'' = Some ''new'' \<and>
     replica_session ascii_golib (\<lambda>_. demo_env)
       (replica_snapshot (demo_env\<lparr>eOrd := [''b'', ''a'']\<rparr>) demo_guarded @ log_of [demo_cmd]) (NewServer demo_cfg) = Ret t \<and>
     values_of (svStore t) ''a'' = values_of (svStore demo_guarded) ''a''"
proof (rule replica_misses_write [OF _ _ _ demo_guarded_ok(1)])
  show "keys (sdata (svStore demo_guarded)) \<subseteq> set (eOrd (demo_env\<lparr>eOrd := [''b'', ''a'']\<rparr>))"
    using demo_guarded_ok(2) by simp
qed (use demo_guarded_ok(3,4) demo_cmd_loggable in \<open>simp_all add: demo_cfg_def demo_config_def is_set_def demo_cmd_def\<close>)

text \<open>
  C30: Two masters. A replica that missed its master for one heartbeat becomes writable for good. Its client
  goes on: it connects again, applies the master's stream and names the master as leader, while the server answers
  \<^verbatim>\<open>OK\<close> to a write of its own clients and stores it.
\<close>
theorem split_brain:
  assumes replica: "owner r" "plain_ok (svStore r)" "ps_inv (svPubsub r)" "replicaMode r" "masterAddr r \<noteq> selfAddr r"
      "ReplicaPass (svConfig r) = []"
    and cmds: "\<forall>cmd \<in> set cmds. is_set cmd \<and> loggable L cmd"
  shows "\<exists>t u. life_run L [Beat False, Iterate Es (good_link (log_of cmds))] r = Ret t \<and>
           leaderAddr t = masterAddr r \<and> \<not> isLeader t \<and>
           values_of (svStore t) = fold set_map cmds (values_of (svStore r)) \<and>
           executeCommand L E (set_cmd k v) False t = Ret (''OK'', u) \<and> values_of (svStore u) k = Some v \<and>
           (\<forall>evs w. life_run L evs u = Ret w \<longrightarrow> \<not> replicaMode w)"
proof -
  let ?h = "heartbeat False r"
  let ?r = "?h\<lparr>leaderAddr := masterAddr r\<rparr>"
  have h: "?h = r\<lparr>leaderAddr := addr_of (svConfig r), replicaMode := False\<rparr>"
    using replica(4) by (simp add: heartbeat_def)
  have r: "owner ?r" "plain_ok (svStore ?r)" "ps_inv (svPubsub ?r)" "\<not> replicaMode ?r"
    using replica by (auto simp: h owner_def moved_def Let_def)
  obtain t where t: "apply_all L Es 0 cmds ?r = Ret t" "same_role ?r t" "plain_ok (svStore t)"
      "values_of (svStore t) = fold set_map cmds (values_of (svStore r))"
    using apply_all_sets [OF r(1-3), of cmds L Es 0] cmds by (auto simp: h)
  have run: "life_run L [Beat False, Iterate Es (good_link (log_of cmds))] r = Ret t"
    using t(1) read_log [of cmds L] cmds replica(6)
    by (simp add: life_step_def replica_iteration_def good_link_def replica_auth_def replica_session_def h)
  have role: "owner t" "\<not> replicaMode t" "leaderAddr t = masterAddr r" "selfAddr t = selfAddr r"
    using owner_role [OF t(2) r(1)] t(2) r(4) by (simp_all add: same_role_def h)
  obtain u where u: "executeCommand L E (set_cmd k v) False t = Ret (''OK'', u)" "values_of (svStore u) k = Some v"
    using role(2) plain_set(2) [OF t(3)]
    by (simp add: owner_execute [OF role(1)] dispatch_def set_cmd_def exec_set_def Let_def)
  then have "\<not> replicaMode u"
    using execute_role [OF u(1)] role(2) by (simp add: same_role_def)
  then show ?thesis
    using run role t(4) u replica(5) life_run_mode [of L _ u] by (auto simp: isLeader_def)
qed

theorem split_brain_witness:
  "\<exists>t u. life_run ascii_golib [Beat False, Iterate (\<lambda>_. demo_env) (good_link (log_of [demo_cmd]))] (demo_replica []) = Ret t \<and>
     leaderAddr t = masterAddr (demo_replica []) \<and> \<not> isLeader t \<and>
     values_of (svStore t) = fold set_map [demo_cmd] (values_of (svStore (demo_replica []))) \<and>
     executeCommand ascii_golib demo_env (set_cmd ''a'' ''1'') False t = Ret (''OK'', u) \<and> values_of (svStore u) ''a'' = Some ''1'' \<and>
     (\<forall>evs w. life_run ascii_golib evs u = Ret w \<longrightarrow> \<not> replicaMode w)"
proof (rule split_brain [OF demo_replica_ok(1-4)])
  show "masterAddr (demo_replica []) \<noteq> selfAddr (demo_replica [])"
    by (simp add: demo_replica_ok(6)) (simp add: demo_replica_def NewServer_def ValidateAndFill_def fill_defaults_def Let_def addr_of_def
        demo_cfg_def demo_config_def)
qed (use demo_cmd_loggable in \<open>simp_all add: demo_replica_ok(5) is_set_def demo_cmd_def\<close>)

end
