(* ===== verification/Fas_Kqueue.thy ===== *)
theory Fas_Kqueue
  imports Fas_Loop Fas_Main Fas_Replica
begin

text \<open>
  The event loop of \<^verbatim>\<open>eventloop_darwin.go\<close> together with the kernel's side of it: which descriptors are
  registered for read and for write events. Closing a descriptor removes its registrations, as
  \<^verbatim>\<open>kqueue(2)\<close> says. Forgetting the registrations gives the loop of \<open>Fas_Loop\<close>; keeping them shows that
  a reply that waits is always known to the kernel, and what an event that is out of date can do.
\<close>

declare map_of_eq_Some_iff [simp del] Some_eq_map_of_iff [simp del]

section \<open>Starting\<close>

text \<open>
  The system calls of \<^verbatim>\<open>StartEventLoop\<close>, in their order, as the errors they give; the first error ends
  the start with the message of that call.
\<close>

record kq_setup =
  suKqueue :: "string option"
  suSocket :: "string option"
  suNonblock :: "string option"
  suBind :: "nat list \<Rightarrow> int \<Rightarrow> string option"
  suListen :: "string option"
  suRegister :: "string option"

definition kq_listener :: "kq_setup \<Rightarrow> nat list \<Rightarrow> int \<Rightarrow> string option" where
  "kq_listener su addr port =
     (case suKqueue su of Some e \<Rightarrow> Some (''failed to create kqueue: '' @ e) | None \<Rightarrow>
     (case suSocket su of Some e \<Rightarrow> Some (''failed to create socket: '' @ e) | None \<Rightarrow>
     (case suNonblock su of Some e \<Rightarrow> Some (''failed to set non-blocking: '' @ e) | None \<Rightarrow>
     (case suBind su addr port of Some e \<Rightarrow> Some (''failed to bind: '' @ e) | None \<Rightarrow>
     (case suListen su of Some e \<Rightarrow> Some (''failed to listen: '' @ e) | None \<Rightarrow>
      map_option (\<lambda>e. ''failed to register listener: '' @ e) (suRegister su))))))"

definition darwin_StartEventLoop ::
  "golib \<Rightarrow> (nat \<Rightarrow> env) \<Rightarrow> int \<Rightarrow> (string + SnapshotEntry list) option \<Rightarrow> log_dev \<Rightarrow> kq_setup \<Rightarrow> server \<Rightarrow>
     (start_error option \<times> server) outcome"
where
  "darwin_StartEventLoop L Es now snapshot log su s =
     StartEventLoop darwin_refusal L Es now snapshot log (kq_listener su) s"

section \<open>The loop and the kernel\<close>

record kqueue =
  kLoop :: loop
  kRead :: "nat set"
  kWrite :: "nat set"

definition kq_forget :: "nat \<Rightarrow> kqueue \<Rightarrow> kqueue" where
  "kq_forget fd k = k\<lparr>kRead := kRead k - {fd}, kWrite := kWrite k - {fd}\<rparr>"

definition kq_close :: "nat \<Rightarrow> kqueue \<Rightarrow> kqueue" where
  "kq_close fd k = kq_forget fd (k\<lparr>kLoop := el_close fd (kLoop k)\<rparr>)"

definition kq_enableWrite :: "bool \<Rightarrow> nat \<Rightarrow> kqueue \<Rightarrow> kqueue" where
  "kq_enableWrite ok fd k =
     (case map_of (lConns (kLoop k)) fd of
        None \<Rightarrow> k
      | Some c \<Rightarrow>
          if writeEnabled c \<or> \<not> ok then k
          else k\<lparr>kLoop := put_client fd (Some (c\<lparr>writeEnabled := True\<rparr>)) (kLoop k), kWrite := insert fd (kWrite k)\<rparr>)"

definition kq_queueWrite :: "bool \<Rightarrow> bytes \<Rightarrow> nat \<Rightarrow> kqueue \<Rightarrow> kqueue" where
  "kq_queueWrite ok bs fd k =
     (case map_of (lConns (kLoop k)) fd of
        None \<Rightarrow> k
      | Some c \<Rightarrow> kq_enableWrite ok fd (k\<lparr>kLoop := put_client fd (Some (c\<lparr>clOut := clOut c @ bs\<rparr>)) (kLoop k)\<rparr>))"

fun kq_accept :: "client \<Rightarrow> accept_result list \<Rightarrow> kqueue \<Rightarrow> kqueue" where
  "kq_accept new [] k = k"
| "kq_accept new (AcceptError # rs) k = k"
| "kq_accept new (Accepted fd nonblock registered # rs) k =
     (if nonblock \<and> registered
      then kq_accept new rs (k\<lparr>kLoop := (kLoop k)\<lparr>lConns := AList.update fd new (lConns (kLoop k))\<rparr>, kRead := insert fd (kRead k)\<rparr>)
      else kq_accept new rs k)"

text \<open>One command of the read loop: the gate or its execution, and its reply.\<close>

definition kq_command :: "golib \<Rightarrow> env \<Rightarrow> bool \<Rightarrow> nat \<Rightarrow> command \<Rightarrow> kqueue \<Rightarrow> kqueue outcome" where
  "kq_command L E ok fd cmd k =
     (case map_of (lConns (kLoop k)) fd of
        None \<Rightarrow> Ret k
      | Some c \<Rightarrow>
          (let pass = Password (svConfig (lServer (kLoop k))) in
           if pass \<noteq> [] \<and> \<not> clAuthed c then
             Ret (if ToUpper L (cName cmd) \<noteq> ''AUTH''
                    then kq_queueWrite ok (''-NOAUTH Authentication required'' @ crlf) fd k
                  else if length (cArgs cmd) \<noteq> 1
                    then kq_queueWrite ok (''-ERR wrong number of arguments for 'auth' command'' @ crlf) fd k
                  else if hd (cArgs cmd) = pass
                    then kq_queueWrite ok (''+OK'' @ crlf) fd
                           (k\<lparr>kLoop := put_client fd (Some (c\<lparr>clAuthed := True\<rparr>)) (kLoop k)\<rparr>)
                  else kq_queueWrite ok (''-ERR invalid password'' @ crlf) fd k)
           else (case executeCommand L E cmd False (lServer (kLoop k)) of
              Panic m \<Rightarrow> Panic m
            | Ret (resp, s) \<Rightarrow> Ret (kq_queueWrite ok (el_reply resp) fd (k\<lparr>kLoop := (kLoop k)\<lparr>lServer := s\<rparr>\<rparr>)))))"

definition kq_set_buf :: "nat \<Rightarrow> bytes \<Rightarrow> kqueue \<Rightarrow> kqueue" where
  "kq_set_buf fd b k =
     (case map_of (lConns (kLoop k)) fd of
        None \<Rightarrow> k
      | Some c \<Rightarrow> k\<lparr>kLoop := put_client fd (Some (c\<lparr>clBuf := b\<rparr>)) (kLoop k)\<rparr>)"

text \<open>The command loop of \<^verbatim>\<open>read\<close>; \<open>b\<close> is the client's buffer while it runs.\<close>

function kq_run ::
  "golib \<Rightarrow> (nat \<Rightarrow> env) \<Rightarrow> (nat \<Rightarrow> bool) \<Rightarrow> nat \<Rightarrow> nat \<Rightarrow> bytes \<Rightarrow> kqueue \<Rightarrow> (kqueue \<times> nat) outcome"
where
  "kq_run L Es ctl fd i b k =
     (if b = [] then Ret (kq_set_buf fd b k, i)
      else case ParseCommandFromBytes L b of
        Panic m \<Rightarrow> Panic m
      | Ret (Inl e) \<Rightarrow> Ret (kq_close fd k, i)
      | Ret (Inr (None, _)) \<Rightarrow> Ret (kq_set_buf fd b k, i)
      | Ret (Inr (Some cmd, n)) \<Rightarrow>
          (case kq_command L (Es i) (ctl i) fd cmd k of
             Panic m \<Rightarrow> Panic m
           | Ret k' \<Rightarrow> kq_run L Es ctl fd (i + 1) (drop n b) k'))"
  by pat_completeness auto
termination
  by (relation "measure (\<lambda>(L, Es, ctl, fd, i, b, k). length b)") (auto dest: parse_bytes_bounds)

declare kq_run.simps [simp del]

definition kq_read :: "golib \<Rightarrow> (nat \<Rightarrow> env) \<Rightarrow> (nat \<Rightarrow> bool) \<Rightarrow> read_result \<Rightarrow> nat \<Rightarrow> kqueue \<Rightarrow> kqueue outcome" where
  "kq_read L Es ctl r fd k =
     (case map_of (lConns (kLoop k)) fd of
        None \<Rightarrow> Ret k
      | Some c \<Rightarrow>
          (case r of
             RAgain \<Rightarrow> Ret k
           | RError \<Rightarrow> Ret (kq_close fd k)
           | REOF \<Rightarrow> Ret (kq_close fd k)
           | RData bs \<Rightarrow>
               (case kq_run L Es ctl fd (lCount (kLoop k)) (clBuf c @ bs) k of
                  Panic m \<Rightarrow> Panic m
                | Ret (k', j) \<Rightarrow> Ret (k'\<lparr>kLoop := (kLoop k')\<lparr>lCount := j\<rparr>\<rparr>))))"

text \<open>\<^verbatim>\<open>write\<close>: the loop over the results of the system call, then the change of interest.\<close>

definition kq_write :: "bool \<Rightarrow> write_result list \<Rightarrow> nat \<Rightarrow> kqueue \<Rightarrow> kqueue" where
  "kq_write ok ws fd k =
     (case map_of (lConns (kLoop k)) fd of
        None \<Rightarrow> k
      | Some c \<Rightarrow>
          (let (sent, c') = darwin_write ws c;
               k1 = k\<lparr>kLoop := (put_client fd c' (kLoop k))\<lparr>lSent := lSent (kLoop k) @ [(fd, sent)]\<rparr>\<rparr>
           in case c' of
                None \<Rightarrow> kq_forget fd k1
              | Some d \<Rightarrow> if writeEnabled c \<and> \<not> writeEnabled d \<and> ok then k1\<lparr>kWrite := kWrite k1 - {fd}\<rparr> else k1))"

text \<open>An event comes with the result of the call that may remove the interest in writing.\<close>

definition kqueue_event ::
  "golib \<Rightarrow> (nat \<Rightarrow> env) \<Rightarrow> (nat \<Rightarrow> bool) \<Rightarrow> nat \<Rightarrow> kq_event \<times> bool \<Rightarrow> kqueue \<Rightarrow> kqueue outcome"
where
  "kqueue_event L Es ctl lfd e k =
     (let (ev, ok) = e in
      if kqFd ev = lfd then Ret (kq_accept (darwin_accept (lServer (kLoop k))) (kqAccepts ev) k)
      else if kqEof ev then Ret (kq_close (kqFd ev) k)
      else case kqFilter ev of
        FilterRead r \<Rightarrow> kq_read L Es ctl r (kqFd ev) k
      | FilterWrite ws \<Rightarrow> Ret (kq_write ok ws (kqFd ev) k)
      | FilterOther \<Rightarrow> Ret k)"

fun kqueue_events ::
  "golib \<Rightarrow> (nat \<Rightarrow> env) \<Rightarrow> (nat \<Rightarrow> bool) \<Rightarrow> nat \<Rightarrow> (kq_event \<times> bool) list \<Rightarrow> kqueue \<Rightarrow> kqueue outcome"
where
  "kqueue_events L Es ctl lfd [] k = Ret k"
| "kqueue_events L Es ctl lfd (e # es) k =
     (case kqueue_event L Es ctl lfd e k of Panic m \<Rightarrow> Panic m | Ret k' \<Rightarrow> kqueue_events L Es ctl lfd es k')"

text \<open>The results of waiting: events, an interruption, or an error that ends the loop.\<close>

datatype wait_result = Events "(kq_event \<times> bool) list" | Interrupted | WaitError string

fun kqueue_loop ::
  "golib \<Rightarrow> (nat \<Rightarrow> env) \<Rightarrow> (nat \<Rightarrow> bool) \<Rightarrow> nat \<Rightarrow> wait_result list \<Rightarrow> kqueue \<Rightarrow> (string option \<times> kqueue) outcome"
where
  "kqueue_loop L Es ctl lfd [] k = Ret (None, k)"
| "kqueue_loop L Es ctl lfd (Interrupted # ws) k = kqueue_loop L Es ctl lfd ws k"
| "kqueue_loop L Es ctl lfd (WaitError e # ws) k = Ret (Some (''kevent error: '' @ e), k)"
| "kqueue_loop L Es ctl lfd (Events es # ws) k =
     (case kqueue_events L Es ctl lfd es k of Panic m \<Rightarrow> Panic m | Ret k' \<Rightarrow> kqueue_loop L Es ctl lfd ws k')"

definition kqueue_start :: "nat \<Rightarrow> server \<Rightarrow> kqueue" where
  "kqueue_start lfd s = \<lparr>kLoop = \<lparr>lConns = [], lServer = s, lCount = 0, lSent = []\<rparr>, kRead = {lfd}, kWrite = {}\<rparr>"

section \<open>Without the kernel it is the loop of both systems\<close>

lemma put_client_simps [simp]:
  "map_of (lConns (put_client fd (Some c) l)) fd = Some c" "lServer (put_client fd co l) = lServer l"
  "put_client fd co (put_client fd (Some c) l) = put_client fd co l" "lCount (put_client fd co l) = lCount l"
  "lSent (put_client fd co l) = lSent l"
  "(put_client fd co l)\<lparr>lServer := s\<rparr> = put_client fd co (l\<lparr>lServer := s\<rparr>)"
  by (simp_all add: put_client_def el_close_def AList.delete_update_same split: option.split)

lemma kq_queue_loop:
  assumes "map_of (lConns (kLoop k)) fd = Some c"
  shows "kLoop (kq_queueWrite ok bs fd k) = put_client fd (Some (queueWrite ok bs c)) (kLoop k)"
  using assms by (simp add: kq_queueWrite_def kq_enableWrite_def queueWrite_def enableWrite_def)

lemma kq_command_loop:
  assumes "map_of (lConns (kLoop k)) fd = Some c"
  shows "map_outcome kLoop (kq_command L E ok fd cmd k) =
    (case el_command L E ok darwin_gate cmd c (lServer (kLoop k)) of
       Panic m \<Rightarrow> Panic m | Ret (c', s') \<Rightarrow> Ret (put_client fd (Some c') ((kLoop k)\<lparr>lServer := s'\<rparr>)))"
  using assms
  by (auto simp: kq_command_def el_command_def darwin_gate_def Let_def kq_queue_loop split: outcome.split)

lemma kq_run_loop:
  assumes "map_of (lConns (kLoop k)) fd = Some c"
  shows "map_outcome (\<lambda>(k', j). (kLoop k', j)) (kq_run L Es ctl fd i b k) =
    (case el_run L Es ctl darwin_gate i (c\<lparr>clBuf := b\<rparr>) (lServer (kLoop k)) of
       Panic m \<Rightarrow> Panic m | Ret (co, s', j) \<Rightarrow> Ret (put_client fd co ((kLoop k)\<lparr>lServer := s'\<rparr>), j))"
  using assms
proof (induction "length b" arbitrary: b c i k rule: less_induct)
  case less
  note run = kq_run.simps [of L Es ctl fd i b k] el_run.simps [of L Es ctl darwin_gate i "c\<lparr>clBuf := b\<rparr>" "lServer (kLoop k)"]
  note cmd_loop = kq_command_loop [OF less.prems, of L "Es i" "ctl i"]
  show ?case
  proof (cases "b \<noteq> [] \<and> (\<exists>cmd n. ParseCommandFromBytes L b = Ret (Inr (Some cmd, n)))")
    case True
    then obtain cmd n where p: "b \<noteq> []" "ParseCommandFromBytes L b = Ret (Inr (Some cmd, n))"
      by blast
    have short: "length (drop n b) < length b"
      using parse_bytes_bounds [OF p(2)] by auto
    show ?thesis
    proof (cases "el_command L (Es i) (ctl i) darwin_gate cmd c (lServer (kLoop k))")
      case (Panic m)
      then have "el_command L (Es i) (ctl i) darwin_gate cmd (c\<lparr>clBuf := drop n b\<rparr>) (lServer (kLoop k)) = Panic m"
        by (auto simp: el_command_def split: if_splits outcome.splits)
      moreover have "kq_command L (Es i) (ctl i) fd cmd k = Panic m"
        using cmd_loop [of cmd] Panic by (cases "kq_command L (Es i) (ctl i) fd cmd k") auto
      ultimately show ?thesis
        using p run by simp
    next
      case (Ret x)
      then obtain c' s' where e: "el_command L (Es i) (ctl i) darwin_gate cmd c (lServer (kLoop k)) = Ret (c', s')"
        by (cases x) auto
      then obtain k' where k': "kq_command L (Es i) (ctl i) fd cmd k = Ret k'"
          "kLoop k' = put_client fd (Some c') ((kLoop k)\<lparr>lServer := s'\<rparr>)"
        using cmd_loop [of cmd] by (cases "kq_command L (Es i) (ctl i) fd cmd k") auto
      have "map_of (lConns (kLoop k')) fd = Some c'"
        by (simp add: k'(2))
      from less.hyps [OF short this, of "i + 1"] show ?thesis
        using p run e k' el_command_update [OF e, of "drop n b"] by (simp split: outcome.split)
    qed
  next
    case False
    then show ?thesis
      using run less.prems
      by (auto simp: kq_set_buf_def kq_close_def kq_forget_def put_client_def split: outcome.split sum.split option.split prod.split)
  qed
qed

lemma kq_read_loop:
  "map_outcome kLoop (kq_read L Es ctl r fd k) = loop_read (darwin_read L Es ctl r) fd (kLoop k)"
proof (cases "map_of (lConns (kLoop k)) fd")
  case (Some c)
  have "put_client fd (Some c) (kLoop k) = kLoop k"
    using Some by (cases "kLoop k") (auto simp: put_client_def update_triv)
  moreover have "map_outcome kLoop (case kq_run L Es ctl fd i b k of Panic m \<Rightarrow> Panic m | Ret (k', j) \<Rightarrow> Ret (k'\<lparr>kLoop := (kLoop k')\<lparr>lCount := j\<rparr>\<rparr>))
      = (case map_outcome (\<lambda>(k', j). (kLoop k', j)) (kq_run L Es ctl fd i b k) of Panic m \<Rightarrow> Panic m | Ret (l, j) \<Rightarrow> Ret (l\<lparr>lCount := j\<rparr>))" for i b
    by (simp split: outcome.split)
  ultimately show ?thesis
    using Some kq_run_loop [OF Some, of L Es ctl "lCount (kLoop k)"]
    by (cases r) (auto simp: kq_read_def loop_read_def darwin_read_def kq_close_def kq_forget_def put_client_def [of _ None] el_close_def
        split: outcome.split)
qed (simp add: kq_read_def loop_read_def)

lemma kq_write_loop: "kLoop (kq_write ok ws fd k) = loop_write (darwin_write ws) fd (kLoop k)"
  by (simp add: kq_write_def loop_write_def kq_forget_def Let_def split: option.split prod.split)

lemma kq_accept_loop:
  "kLoop (kq_accept new rs k) = (kLoop k)\<lparr>lConns := accept_loop new rs (lConns (kLoop k))\<rparr>"
  by (induction new rs k rule: kq_accept.induct) auto

lemma kqueue_event_loop: "map_outcome kLoop (kqueue_event L Es ctl lfd (ev, ok) k) = darwin_event L Es ctl lfd ev (kLoop k)"
  by (simp add: kqueue_event_def darwin_event_def kq_accept_loop kq_close_def kq_forget_def kq_read_loop kq_write_loop split: kq_filter.split)

lemma kqueue_events_loop:
  "map_outcome kLoop (kqueue_events L Es ctl lfd es k) = run_events (darwin_event L Es ctl lfd) (map fst es) (kLoop k)"
proof (induction es arbitrary: k)
  case (Cons e es)
  obtain ev ok where e: "e = (ev, ok)"
    by fastforce
  show ?case
  proof (cases "kqueue_event L Es ctl lfd e k")
    case (Ret k')
    then show ?thesis
      using Cons.IH [of k'] kqueue_event_loop [of L Es ctl lfd ev ok k, symmetric] by (simp add: e)
  next
    case (Panic m)
    then show ?thesis
      using kqueue_event_loop [of L Es ctl lfd ev ok k, symmetric] by (simp add: e)
  qed
qed simp

section \<open>What the kernel knows\<close>

text \<open>
  Every open connection is registered for reading, and for writing if it is marked so; nothing is registered
  for writing that is not open. With \<open>strict\<close>, output that waits is marked.
\<close>

definition client_known :: "bool \<Rightarrow> kqueue \<Rightarrow> nat \<Rightarrow> client \<Rightarrow> bool" where
  "client_known strict k fd c \<longleftrightarrow>
     fd \<in> kRead k \<and> (writeEnabled c \<longrightarrow> fd \<in> kWrite k) \<and> (strict \<longrightarrow> clOut c \<noteq> [] \<longrightarrow> writeEnabled c)"

definition kq_inv :: "bool \<Rightarrow> kqueue \<Rightarrow> bool" where
  "kq_inv strict k \<longleftrightarrow>
     (\<forall>fd c. map_of (lConns (kLoop k)) fd = Some c \<longrightarrow> client_known strict k fd c) \<and>
     (\<forall>fd \<in> kWrite k. map_of (lConns (kLoop k)) fd \<noteq> None)"

lemma kq_inv_update:
  assumes "kq_inv strict k" "\<And>fd'. fd' \<noteq> fd \<Longrightarrow> map_of (lConns (kLoop k')) fd' = map_of (lConns (kLoop k)) fd'"
    "\<And>c. map_of (lConns (kLoop k')) fd = Some c \<Longrightarrow> client_known strict k' fd c"
    "fd \<in> kWrite k' \<Longrightarrow> map_of (lConns (kLoop k')) fd \<noteq> None"
    "kRead k' - {fd} = kRead k - {fd}" "kWrite k' - {fd} = kWrite k - {fd}"
  shows "kq_inv strict k'"
proof -
  have "client_known strict k' fd' c" if "map_of (lConns (kLoop k')) fd' = Some c" for fd' c
    using assms that by (cases "fd' = fd") (auto simp: kq_inv_def client_known_def)
  moreover have "map_of (lConns (kLoop k')) fd' \<noteq> None" if "fd' \<in> kWrite k'" for fd'
    using assms that by (cases "fd' = fd") (auto simp: kq_inv_def)
  ultimately show ?thesis
    by (simp add: kq_inv_def)
qed

lemma kq_inv_put:
  assumes "kq_inv strict k" "lConns (kLoop k') = AList.update fd c (lConns (kLoop k))" "client_known strict k' fd c"
    "kRead k' - {fd} = kRead k - {fd}" "kWrite k' - {fd} = kWrite k - {fd}"
  shows "kq_inv strict k'"
  using assms by (intro kq_inv_update [OF assms(1), of fd]) simp_all

lemma kq_inv_delete:
  assumes "kq_inv strict k" "lConns (kLoop k') = AList.delete fd (lConns (kLoop k))"
    "kRead k' = kRead k - {fd}" "kWrite k' = kWrite k - {fd}"
  shows "kq_inv strict k'"
  using assms by (intro kq_inv_update [OF assms(1), of fd]) simp_all

lemma put_client_conns [simp]: "lConns (put_client fd (Some c) l) = AList.update fd c (lConns l)"
  by (simp add: put_client_def)

lemma known: "kq_inv strict k \<Longrightarrow> map_of (lConns (kLoop k)) fd = Some c \<Longrightarrow> client_known strict k fd c"
  by (simp add: kq_inv_def)

lemma kq_close_inv: "kq_inv strict k \<Longrightarrow> kq_inv strict (kq_close fd k)"
  by (erule kq_inv_delete) (simp_all add: kq_close_def kq_forget_def el_close_def)

text \<open>Changing buffers and authentication alone.\<close>

lemma kq_touch_inv:
  assumes "kq_inv strict k" "map_of (lConns (kLoop k)) fd = Some c" "writeEnabled c' = writeEnabled c" "clOut c' = clOut c"
  shows "kq_inv strict (k\<lparr>kLoop := put_client fd (Some c') (kLoop k)\<rparr>)"
  using known [OF assms(1,2)] assms(3,4) by (intro kq_inv_put [OF assms(1), where c = c' and fd = fd]) (simp_all add: client_known_def)

lemma kq_queue_inv:
  assumes "kq_inv strict k" "strict \<longrightarrow> ok"
  shows "kq_inv strict (kq_queueWrite ok bs fd k)"
proof (cases "map_of (lConns (kLoop k)) fd")
  case (Some c)
  let ?k = "kq_queueWrite ok bs fd k"
  show ?thesis
  proof (rule kq_inv_put [OF assms(1)])
    show "lConns (kLoop ?k) = AList.update fd (queueWrite ok bs c) (lConns (kLoop k))"
      by (simp add: kq_queue_loop [OF Some])
    show "client_known strict ?k fd (queueWrite ok bs c)"
      using known [OF assms(1) Some] assms(2) Some
      by (auto simp: client_known_def kq_queueWrite_def kq_enableWrite_def queueWrite_def enableWrite_def)
  qed (use Some in \<open>simp_all add: kq_queueWrite_def kq_enableWrite_def\<close>)
qed (simp add: kq_queueWrite_def assms)

lemma kq_server_inv: "kq_inv strict k \<Longrightarrow> kq_inv strict (k\<lparr>kLoop := (kLoop k)\<lparr>lServer := s\<rparr>\<rparr>)"
    "kq_inv strict k \<Longrightarrow> kq_inv strict (k\<lparr>kLoop := (kLoop k)\<lparr>lCount := j\<rparr>\<rparr>)"
  by (simp_all add: kq_inv_def client_known_def)

lemma kq_command_inv:
  assumes "kq_inv strict k" "strict \<longrightarrow> ok" "kq_command L E ok fd cmd k = Ret k'"
  shows "kq_inv strict k'"
  using assms kq_queue_inv kq_server_inv kq_touch_inv [OF assms(1)]
  by (auto simp: kq_command_def Let_def split: option.splits if_splits outcome.splits)

text \<open>The commands are numbered as they are handled.\<close>

lemma kq_command_count: "kq_command L E ok fd cmd k = Ret k' \<Longrightarrow> lCount (kLoop k') = lCount (kLoop k)"
  by (auto simp: kq_command_def kq_queueWrite_def kq_enableWrite_def Let_def split: option.splits if_splits outcome.splits)

lemma kq_run_count: "kq_run L Es ctl fd i b k = Ret (k', j) \<Longrightarrow> i \<le> j"
proof (induction "length b" arbitrary: b i k rule: less_induct)
  case less
  show ?case
  proof (cases "b \<noteq> [] \<and> (\<exists>cmd n. ParseCommandFromBytes L b = Ret (Inr (Some cmd, n)))")
    case True
    then obtain cmd n where p: "b \<noteq> []" "ParseCommandFromBytes L b = Ret (Inr (Some cmd, n))"
      by blast
    then obtain k1 where "kq_run L Es ctl fd (i + 1) (drop n b) k1 = Ret (k', j)"
      using less.prems kq_run.simps [of L Es ctl fd i b k] by (auto split: outcome.splits)
    moreover have "length (drop n b) < length b"
      using parse_bytes_bounds [OF p(2)] by auto
    ultimately show ?thesis
      using less.hyps by fastforce
  next
    case False
    then show ?thesis
      using less.prems kq_run.simps [of L Es ctl fd i b k]
      by (auto split: if_splits outcome.splits sum.splits option.splits)
  qed
qed

lemma kq_run_inv:
  assumes "kq_inv strict k" "strict \<longrightarrow> (\<forall>i < j. ctl i)" "kq_run L Es ctl fd i b k = Ret (k', j)"
  shows "kq_inv strict k'"
  using assms(1,3)
proof (induction "length b" arbitrary: b i k rule: less_induct)
  case less
  have buf_inv: "kq_inv strict (kq_set_buf fd b k)"
    using less.prems(1) kq_touch_inv by (auto simp: kq_set_buf_def split: option.split)
  show ?case
  proof (cases "b \<noteq> [] \<and> (\<exists>cmd n. ParseCommandFromBytes L b = Ret (Inr (Some cmd, n)))")
    case True
    then obtain cmd n where p: "b \<noteq> []" "ParseCommandFromBytes L b = Ret (Inr (Some cmd, n))"
      by blast
    then obtain k1 where k1: "kq_command L (Es i) (ctl i) fd cmd k = Ret k1" "kq_run L Es ctl fd (i + 1) (drop n b) k1 = Ret (k', j)"
      using less.prems(2) kq_run.simps [of L Es ctl fd i b k] by (auto split: outcome.splits)
    moreover have "length (drop n b) < length b"
      using parse_bytes_bounds [OF p(2)] by auto
    moreover have "strict \<longrightarrow> ctl i"
      using assms(2) kq_run_count [OF k1(2)] by auto
    ultimately show ?thesis
      using less.hyps [of "drop n b" k1 "i + 1"] kq_command_inv [OF less.prems(1) _ k1(1)] by blast
  next
    case False
    then show ?thesis
      using less.prems buf_inv kq_close_inv kq_run.simps [of L Es ctl fd i b k]
      by (auto split: if_splits outcome.splits sum.splits option.splits)
  qed
qed

lemma darwin_write_flag:
  assumes "darwin_write ws c = (sent, Some c')"
  shows "(writeEnabled c' \<longrightarrow> writeEnabled c) \<and> (clOut c' \<noteq> [] \<longrightarrow> clOut c \<noteq> [] \<and> writeEnabled c' = writeEnabled c)"
proof -
  have "(writeEnabled c' \<longrightarrow> writeEnabled c) \<and> (clOut c' \<noteq> [] \<longrightarrow> clOut c \<noteq> [] \<and> writeEnabled c' = writeEnabled c)"
    if "darwin_write_loop ws acc c = (sent, Some c')" for acc
    using that
    by (induction ws acc c rule: darwin_write_loop.induct)
      (auto simp: darwin_disableWrite_def split: if_splits write_result.splits)
  then show ?thesis
    using assms by (simp add: darwin_write_def)
qed

lemma kq_write_inv:
  assumes "kq_inv strict k"
  shows "kq_inv strict (kq_write ok ws fd k)"
proof (cases "map_of (lConns (kLoop k)) fd")
  case (Some c)
  obtain sent co where w: "darwin_write ws c = (sent, co)"
    by fastforce
  show ?thesis
  proof (cases co)
    case None
    then show ?thesis
      using Some w by (intro kq_inv_delete [OF assms, of _ fd]) (simp_all add: kq_write_def kq_forget_def put_client_def el_close_def)
  next
    case (Some d)
    then have "client_known strict (kq_write ok ws fd k) fd d"
      using \<open>map_of (lConns (kLoop k)) fd = Some c\<close> w known [OF assms, of fd c] darwin_write_flag [of ws c sent d]
      by (auto simp: kq_write_def client_known_def Let_def)
    then show ?thesis
      using \<open>map_of (lConns (kLoop k)) fd = Some c\<close> w Some by (intro kq_inv_put [OF assms, where c = d and fd = fd]) (simp_all add: kq_write_def Let_def)
  qed
qed (simp add: kq_write_def assms)

lemma kq_admit_inv:
  assumes "kq_inv strict k" "\<not> writeEnabled new" "clOut new = []"
  shows "kq_inv strict (k\<lparr>kLoop := (kLoop k)\<lparr>lConns := AList.update fd new (lConns (kLoop k))\<rparr>, kRead := insert fd (kRead k)\<rparr>)"
  by (rule kq_inv_put [OF assms(1), where c = new and fd = fd]) (simp_all add: client_known_def assms(2,3))

lemma kq_accept_inv:
  assumes "\<not> writeEnabled new" "clOut new = []"
  shows "kq_inv strict k \<Longrightarrow> kq_inv strict (kq_accept new rs k)"
proof (induction rs arbitrary: k)
  case (Cons r rs)
  show ?case
  proof (cases r)
    case (Accepted fd nonblock registered)
    then show ?thesis
      using Cons.IH [OF kq_admit_inv [OF Cons.prems assms]] Cons.IH [OF Cons.prems] by simp
  qed (simp add: Cons.prems)
qed simp

lemma kq_close_count [simp]: "lCount (kLoop (kq_close fd k)) = lCount (kLoop k)"
  by (simp add: kq_close_def kq_forget_def el_close_def)

lemma kq_accept_count [simp]: "lCount (kLoop (kq_accept new rs k)) = lCount (kLoop k)"
  by (simp add: kq_accept_loop)

lemma kq_write_count [simp]: "lCount (kLoop (kq_write ok ws fd k)) = lCount (kLoop k)"
  by (auto simp: kq_write_loop loop_write_def split: option.split prod.split)

lemma kq_read_laws:
  assumes "kq_inv strict k" "strict \<longrightarrow> (\<forall>i < lCount (kLoop k'). ctl i)" "kq_read L Es ctl r fd k = Ret k'"
  shows "kq_inv strict k'" "lCount (kLoop k) \<le> lCount (kLoop k')"
proof -
  have "k' = k \<or> k' = kq_close fd k \<or> (\<exists>b k1 j. kq_run L Es ctl fd (lCount (kLoop k)) b k = Ret (k1, j) \<and>
      k' = k1\<lparr>kLoop := (kLoop k1)\<lparr>lCount := j\<rparr>\<rparr>)"
    using assms(3) by (auto simp: kq_read_def split: option.splits outcome.splits read_result.splits)
  then have "kq_inv strict k' \<and> lCount (kLoop k) \<le> lCount (kLoop k')"
  proof (elim disjE exE conjE)
    fix b k1 j
    assume run: "kq_run L Es ctl fd (lCount (kLoop k)) b k = Ret (k1, j)" and k': "k' = k1\<lparr>kLoop := (kLoop k1)\<lparr>lCount := j\<rparr>\<rparr>"
    then have "kq_inv strict k1"
      using assms(2) by (intro kq_run_inv [OF assms(1) _ run]) simp
    then show ?thesis
      using kq_server_inv(2) kq_run_count [OF run] by (simp add: k')
  qed (use assms(1) kq_close_inv in simp_all)
  then show "kq_inv strict k'" "lCount (kLoop k) \<le> lCount (kLoop k')"
    by blast+
qed

lemma kq_read_count: "kq_read L Es ctl r fd k = Ret k' \<Longrightarrow> lCount (kLoop k) \<le> lCount (kLoop k')"
  using kq_run_count by (fastforce simp: kq_read_def split: option.splits outcome.splits read_result.splits)

lemma kqueue_event_count: "kqueue_event L Es ctl lfd e k = Ret k' \<Longrightarrow> lCount (kLoop k) \<le> lCount (kLoop k')"
  by (auto simp: kqueue_event_def Let_def split: prod.splits if_splits kq_filter.splits dest: kq_read_count)

lemma kqueue_events_count: "kqueue_events L Es ctl lfd es k = Ret k' \<Longrightarrow> lCount (kLoop k) \<le> lCount (kLoop k')"
  by (induction es arbitrary: k) (fastforce split: outcome.splits dest: kqueue_event_count)+

lemma kqueue_loop_count: "kqueue_loop L Es ctl lfd ws k = Ret (e, k') \<Longrightarrow> lCount (kLoop k) \<le> lCount (kLoop k')"
proof (induction ws arbitrary: k)
  case (Cons w ws)
  then show ?case
    by (cases w) (fastforce split: outcome.splits dest: kqueue_events_count)+
qed simp

lemma kqueue_event_inv:
  assumes "kq_inv strict k" "strict \<longrightarrow> (\<forall>i < lCount (kLoop k'). ctl i)" "kqueue_event L Es ctl lfd e k = Ret k'"
  shows "kq_inv strict k'"
  using assms kq_close_inv [OF assms(1)] kq_write_inv [OF assms(1)] kq_accept_inv [OF _ _ assms(1)]
    kq_read_laws(1) [OF assms(1,2)]
  by (auto simp: kqueue_event_def darwin_accept_def Let_def split: prod.splits if_splits kq_filter.splits)

lemma kqueue_events_inv:
  "kqueue_events L Es ctl lfd es k = Ret k' \<Longrightarrow> strict \<longrightarrow> (\<forall>i < lCount (kLoop k'). ctl i) \<Longrightarrow> kq_inv strict k \<Longrightarrow> kq_inv strict k'"
proof (induction es arbitrary: k)
  case (Cons e es)
  then obtain k1 where k1: "kqueue_event L Es ctl lfd e k = Ret k1" "kqueue_events L Es ctl lfd es k1 = Ret k'"
    by (auto split: outcome.splits)
  then have "strict \<longrightarrow> (\<forall>i < lCount (kLoop k1). ctl i)"
    using Cons.prems(2) kqueue_events_count [OF k1(2)] by auto
  then show ?case
    using Cons.IH [OF k1(2)] Cons.prems(2,3) kqueue_event_inv k1(1) by blast
qed simp

lemma kqueue_loop_inv:
  "kqueue_loop L Es ctl lfd ws k = Ret (e, k') \<Longrightarrow> strict \<longrightarrow> (\<forall>i < lCount (kLoop k'). ctl i) \<Longrightarrow> kq_inv strict k \<Longrightarrow> kq_inv strict k'"
proof (induction ws arbitrary: k)
  case (Cons w ws)
  show ?case
  proof (cases w)
    case (Events es)
    then obtain k1 where k1: "kqueue_events L Es ctl lfd es k = Ret k1" "kqueue_loop L Es ctl lfd ws k1 = Ret (e, k')"
      using Cons.prems(1) by (auto split: outcome.splits)
    then have "strict \<longrightarrow> (\<forall>i < lCount (kLoop k1). ctl i)"
      using Cons.prems(2) kqueue_loop_count [OF k1(2)] by auto
    then show ?thesis
      using Cons.IH [OF k1(2)] Cons.prems(2,3) kqueue_events_inv k1(1) by blast
  qed (use Cons in auto)
qed simp

lemma kqueue_start_inv: "kq_inv strict (kqueue_start lfd s)"
  by (simp add: kq_inv_def kqueue_start_def)

section \<open>Interest in writing on Linux\<close>

text \<open>
  On Linux the mark of a client is set and cleared only together with the interest \<^verbatim>\<open>epoll\<close> holds. If the calls
  that change it succeed, output that waits is marked.
\<close>

definition marked :: "client \<Rightarrow> bool" where
  "marked c \<longleftrightarrow> (clOut c \<noteq> [] \<longrightarrow> writeEnabled c)"

lemma el_command_marked:
  assumes "el_command L E True gate cmd c s = Ret (c', t)"
  shows "marked c'"
  using assms by (auto simp: el_command_def marked_def queueWrite_def enableWrite_def split: if_splits outcome.splits)

lemma el_run_marked:
  assumes "\<forall>i. ctl i"
  shows "el_run L Es ctl gate i c s = Ret (Some c', t, j) \<Longrightarrow> marked c \<Longrightarrow> marked c'"
proof (induction "length (clBuf c)" arbitrary: i c s rule: less_induct)
  case less
  note run = el_run.simps [of L Es ctl gate i c s]
  show ?case
  proof (cases "\<exists>cmd n. ParseCommandFromBytes L (clBuf c) = Ret (Inr (Some cmd, n))")
    case True
    then obtain cmd n where p: "ParseCommandFromBytes L (clBuf c) = Ret (Inr (Some cmd, n))"
      by blast
    then have b: "clBuf c \<noteq> []" "2 \<le> n" "n \<le> length (clBuf c)"
      using parse_bytes_bounds [OF p] by (auto simp: ParseCommandFromBytes_def)
    obtain c1 s1 where c1: "el_command L (Es i) (ctl i) gate cmd (c\<lparr>clBuf := drop n (clBuf c)\<rparr>) s = Ret (c1, s1)"
      using less.prems(1) run p b by (auto split: outcome.splits)
    then have "el_run L Es ctl gate (i + 1) c1 s1 = Ret (Some c', t, j)"
      using el_run_step [of L c cmd n Es i ctl gate s c1 s1] p less.prems(1) by simp
    moreover have "length (clBuf c1) < length (clBuf c)" "marked c1"
      using el_command_buf [OF c1] b el_command_marked [of L "Es i" gate cmd] c1 assms by auto
    ultimately show ?thesis
      using less.hyps by blast
  next
    case False
    then show ?thesis
      using less.prems run by (auto split: if_splits outcome.splits sum.splits option.splits)
  qed
qed

lemma write_loop_marked: "write_loop True ws sent c = (out, Some c') \<Longrightarrow> marked c \<Longrightarrow> marked c'"
  by (induction True ws sent c rule: write_loop.induct)
    (auto simp: marked_def enableWrite_def disableWrite_def split: if_splits write_result.splits)

definition all_marked :: "loop \<Rightarrow> bool" where
  "all_marked l \<longleftrightarrow> (\<forall>fd c. map_of (lConns l) fd = Some c \<longrightarrow> marked c)"

lemma put_marked: "all_marked l \<Longrightarrow> (\<And>c. co = Some c \<Longrightarrow> marked c) \<Longrightarrow> all_marked (put_client fd co l)"
  by (auto simp: all_marked_def put_client_def el_close_def split: option.split if_splits)

lemma accept_loop_marked:
  "all_marked l \<Longrightarrow> marked new \<Longrightarrow> all_marked (l\<lparr>lConns := accept_loop new rs (lConns l)\<rparr>)"
proof (induction rs arbitrary: l)
  case (Cons r rs)
  show ?case
  proof (cases r)
    case (Accepted fd nonblock registered)
    have "all_marked (put_client fd (Some new) l)"
      using Cons.prems by (intro put_marked) auto
    then show ?thesis
      using Cons.IH [of l] Cons.IH [of "put_client fd (Some new) l"] Cons.prems Accepted by (simp add: put_client_def)
  qed (simp add: Cons.prems)
qed simp

lemma epoll_event_marked:
  assumes "linux_event L Es ctl lfd ev l = Ret l'" "\<forall>i. ctl i" "epCtl ev" "all_marked l"
  shows "all_marked l'"
proof -
  have new: "marked (linux_accept (lServer l))"
    by (simp add: marked_def linux_accept_def)
  have close: "all_marked (el_close (epFd ev) l)"
    using put_marked [OF assms(4), of None "epFd ev"] by (simp add: put_client_def)
  have read: "all_marked l1" if rd: "loop_read (linux_read L Es ctl (epReads ev)) (epFd ev) l = Ret l1" for l1
  proof (cases "map_of (lConns l) (epFd ev)")
    case (Some c)
    then obtain co s j where r: "linux_read L Es ctl (epReads ev) (lCount l) c (lServer l) = Ret (co, s, j)"
        "l1 = (put_client (epFd ev) co l)\<lparr>lServer := s, lCount := j\<rparr>"
      using rd by (auto simp: loop_read_def split: outcome.splits)
    have fill: "linux_fill rs c = Some d \<Longrightarrow> marked d" for rs d
    proof -
      have "linux_fill rs c0 = Some d \<Longrightarrow> marked c0 \<Longrightarrow> marked d" for c0
        by (induction rs c0 rule: linux_fill.induct) (auto simp: marked_def)
      then show "linux_fill rs c = Some d \<Longrightarrow> marked d"
        using assms(4) Some by (auto simp: all_marked_def)
    qed
    have "marked c'" if "co = Some c'" for c'
      using r(1) that fill el_run_marked [OF assms(2)] by (auto simp: linux_read_def split: option.splits)
    then have "all_marked (put_client (epFd ev) co l)"
      using put_marked [OF assms(4)] by blast
    then show ?thesis
      by (cases co) (simp_all add: r(2) all_marked_def put_client_def el_close_def)
  qed (use rd assms(4) in \<open>simp add: loop_read_def\<close>)
  have wrote: "all_marked (loop_write (linux_write True ws) fd l1)" if "all_marked l1" for ws fd l1
  proof (cases "map_of (lConns l1) fd")
    case (Some c)
    obtain out co where w: "linux_write True ws c = (out, co)"
      by fastforce
    have "marked c'" if "co = Some c'" for c'
      using w that write_loop_marked [of ws "[]" c out c'] \<open>all_marked l1\<close> Some by (auto simp: linux_write_def all_marked_def)
    then have "all_marked (put_client fd co l1)"
      using put_marked [OF that] by blast
    then show ?thesis
      using Some w by (simp add: loop_write_def all_marked_def)
  qed (use that in \<open>simp add: loop_write_def\<close>)
  show ?thesis
    using assms(1,3,4) close accept_loop_marked [OF assms(4) new] read wrote
    by (auto simp: linux_event_def split: if_splits outcome.splits)
qed

lemma epoll_no_lost_reply:
  assumes "\<forall>i. ctl i" "\<forall>ev \<in> set evs. epCtl ev"
  shows "run_events (linux_event L Es ctl lfd) evs l = Ret l' \<Longrightarrow> all_marked l \<Longrightarrow> all_marked l'"
  using assms(2)
proof (induction evs arbitrary: l)
  case (Cons ev evs)
  then obtain l1 where "linux_event L Es ctl lfd ev l = Ret l1" "run_events (linux_event L Es ctl lfd) evs l1 = Ret l'"
    by (auto split: outcome.splits)
  then show ?case
    using Cons epoll_event_marked [OF _ assms(1)] by simp
qed simp

section \<open>An event loop in the world\<close>

text \<open>
  A run of an event loop is a run of the world of \<open>Fas_World\<close>: the invariants of the server hold under both
  ways to serve it, and next to the goroutines that an event loop leaves running.
\<close>

lemma serve_at_run: "serve_at L Es xs (wServer w) = Ret t \<Longrightarrow> world_run L w (w\<lparr>wServer := t\<rparr>)"
proof (induction xs arbitrary: w)
  case (Cons x xs)
  obtain i cmd where x: "x = (i, cmd)"
    by fastforce
  then obtain r u where u: "executeCommand L (Es i) cmd False (wServer w) = Ret (r, u)" "serve_at L Es xs u = Ret t"
    using Cons.prems by (auto split: outcome.splits)
  then have "world_step L w (Ret (w\<lparr>wServer := u\<rparr>))"
    by (intro world_step.command)
  then show ?case
    using Cons.IH [of "w\<lparr>wServer := u\<rparr>"] u(2) by (auto intro: world_run_step)
qed (auto simp: world_run_refl)

lemma eventloop_world:
  assumes "run_events (linux_event L Es ctl lfd) evs l = Ret l' \<or> run_events (darwin_event L Es ctl lfd) kevs l = Ret l'"
    "settled L l" "lServer l = wServer w" "world_inv w"
  shows "world_run L w (w\<lparr>wServer := lServer l'\<rparr>) \<and> world_inv (w\<lparr>wServer := lServer l'\<rparr>)"
proof -
  obtain xs where "serve_at L Es xs (wServer w) = Ret (lServer l')"
    using assms linux.run_serves [of L Es ctl lfd evs l l'] darwin.run_serves [of L Es ctl lfd kevs l l'] by metis
  then show ?thesis
    using serve_at_run assms(4) world_run_inv by metis
qed

text \<open>
  What the failure of the call costs: the reply waits, the kernel does not know, and no event for writing will
  come. Only another reply to the same client tries again.
\<close>

lemma failed_enable_strands_reply:
  assumes "map_of (lConns (kLoop k)) fd = Some c" "\<not> writeEnabled c" "fd \<notin> kWrite k" "bs \<noteq> []"
  shows "\<exists>c'. map_of (lConns (kLoop (kq_queueWrite False bs fd k))) fd = Some c' \<and> clOut c' \<noteq> [] \<and>
           \<not> writeEnabled c' \<and> fd \<notin> kWrite (kq_queueWrite False bs fd k)"
  using assms by (simp add: kq_queueWrite_def kq_enableWrite_def)

section \<open>Properties\<close>

text \<open>
  C23: When a reply can be forgotten on Darwin. Whatever the loop has been told by the kernel and whichever of its calls have
  failed: every open connection is registered for reading; one that is marked is registered for writing, even where a
  call that removes the interest failed; output that waits without a mark, so that no event need come
  for it, is there only if the call that adds the interest failed for a command of this run;
  and nothing is registered for writing that is not open. The connections, their buffers and the server are
  those of the loop without the kernel.
\<close>
theorem kqueue_no_lost_reply:
  assumes "kqueue_loop L Es ctl lfd ws (kqueue_start lfd s) = Ret (e, k)"
  shows "(\<forall>fd c. map_of (lConns (kLoop k)) fd = Some c \<longrightarrow>
            fd \<in> kRead k \<and> (writeEnabled c \<longrightarrow> fd \<in> kWrite k) \<and>
            (clOut c \<noteq> [] \<and> \<not> writeEnabled c \<longrightarrow> (\<exists>i < lCount (kLoop k). \<not> ctl i))) \<and>
         (\<forall>fd \<in> kWrite k. is_open fd (kLoop k)) \<and>
         map_outcome kLoop (kqueue_events L Es ctl lfd es k) = run_events (darwin_event L Es ctl lfd) (map fst es) (kLoop k)"
proof -
  have "kq_inv (\<forall>i < lCount (kLoop k). ctl i) k"
    by (rule kqueue_loop_inv [OF assms _ kqueue_start_inv]) simp
  then have "(\<forall>fd c. map_of (lConns (kLoop k)) fd = Some c \<longrightarrow> client_known (\<forall>i < lCount (kLoop k). ctl i) k fd c)"
      "\<forall>fd \<in> kWrite k. is_open fd (kLoop k)"
    by (auto simp: kq_inv_def is_open_def)
  then show ?thesis
    using kqueue_events_loop unfolding client_known_def by blast
qed

definition listen_event :: "nat \<Rightarrow> nat \<Rightarrow> kq_event" where
  "listen_event lfd fd = \<lparr>kqFd = lfd, kqEof = False, kqFilter = FilterOther, kqAccepts = [Accepted fd True True]\<rparr>"

definition eof_event :: "nat \<Rightarrow> kq_filter \<Rightarrow> kq_event" where
  "eof_event fd f = \<lparr>kqFd = fd, kqEof = True, kqFilter = f, kqAccepts = []\<rparr>"

definition ping_event :: "nat \<Rightarrow> kq_event" where
  "ping_event fd = \<lparr>kqFd = fd, kqEof = False, kqFilter = FilterRead (RData (''PING'' @ crlf)), kqAccepts = []\<rparr>"

lemma demo_pong:
  "\<exists>k. kqueue_loop ascii_golib (\<lambda>_. demo_env) (\<lambda>_. True) 3 [Interrupted, Events [(listen_event 3 5, True), (ping_event 5, True)]]
         (kqueue_start 3 demo_master) = Ret (None, k) \<and>
       map_of (lConns (kLoop k)) 5 = Some \<lparr>clBuf = [], clOut = el_reply ''PONG'', writeEnabled = True, clAuthed = True\<rparr>"
proof -
  have parse: "ParseCommandFromBytes ascii_golib (''PING'' @ crlf) = Ret (Inr (Some \<lparr>cName = ''PING'', cArgs = []\<rparr>, 6))"
    by code_simp
  have pass: "Password (svConfig demo_master) = []"
    by (simp add: demo_master_def NewServer_fields fill_defaults_def demo_cfg_def demo_config_def)
  have run: "kq_run ascii_golib (\<lambda>_. demo_env) (\<lambda>_. True) 5 0 (''PING'' @ crlf) k =
      (case kq_command ascii_golib demo_env True 5 \<lparr>cName = ''PING'', cArgs = []\<rparr> k of
         Panic m \<Rightarrow> Panic m | Ret k' \<Rightarrow> Ret (kq_set_buf 5 [] k', 1))" for k
    using parse by (simp add: kq_run.simps [of _ _ _ _ 0] kq_run.simps [of _ _ _ _ _ "[]"] split: outcome.split)
  show ?thesis
    using run ping_served pass
    by (simp add: kqueue_event_def listen_event_def ping_event_def kqueue_start_def kq_read_def darwin_accept_def kq_command_def
        kq_queueWrite_def kq_enableWrite_def kq_set_buf_def put_client_def)
qed

theorem kqueue_no_lost_reply_witness:
  "\<exists>k c. kqueue_loop ascii_golib (\<lambda>_. demo_env) (\<lambda>_. True) 3 [Interrupted, Events [(listen_event 3 5, True), (ping_event 5, True)]]
         (kqueue_start 3 demo_master) = Ret (None, k) \<and>
     map_of (lConns (kLoop k)) 5 = Some c \<and> clOut c \<noteq> [] \<and> writeEnabled c \<and> 5 \<in> kRead k \<and> 5 \<in> kWrite k"
proof -
  obtain k where k: "kqueue_loop ascii_golib (\<lambda>_. demo_env) (\<lambda>_. True) 3
        [Interrupted, Events [(listen_event 3 5, True), (ping_event 5, True)]] (kqueue_start 3 demo_master) = Ret (None, k)"
      "map_of (lConns (kLoop k)) 5 = Some \<lparr>clBuf = [], clOut = el_reply ''PONG'', writeEnabled = True, clAuthed = True\<rparr>"
    using demo_pong by blast
  moreover have "el_reply ''PONG'' \<noteq> []"
    by code_simp
  ultimately show ?thesis
    using kqueue_no_lost_reply [OF k(1)] by fastforce
qed

text \<open>
  An event that is out of date closes a stranger's connection. On Darwin a batch may hold two events of one
  descriptor, one for each filter. When its client has gone, the first closes the descriptor; if the
  listener's event follows and the kernel gives the number to a new client, the second event closes the new
  connection, whatever its state.
\<close>
lemma stale_event_closes_newcomer:
  assumes "fd \<noteq> lfd"
  shows "\<exists>k1 k2. kqueue_events L Es ctl lfd [(eof_event fd (FilterRead r), a), (listen_event lfd fd, b)] k = Ret k1 \<and>
           map_of (lConns (kLoop k1)) fd = Some (darwin_accept (lServer (kLoop k))) \<and> fd \<in> kRead k1 \<and>
           kqueue_events L Es ctl lfd [(eof_event fd (FilterRead r), a), (listen_event lfd fd, b), (eof_event fd (FilterWrite ws), c)] k
             = Ret k2 \<and>
           \<not> is_open fd (kLoop k2) \<and> fd \<notin> kRead k2"
  using assms
  by (simp add: kqueue_event_def eof_event_def listen_event_def kq_close_def kq_forget_def el_close_def is_open_def)

end
