(* ===== verification/Fas_Race.thy ===== *)
theory Fas_Race
  imports Fas_Server_Props
begin

text \<open>
  Writes at the grain at which goroutines interleave. A \<^verbatim>\<open>SET\<close> changes the store, appends to the log and
  is offered to the replicas in three critical sections of their own (\<^verbatim>\<open>executeCommand\<close> of
  \<^verbatim>\<open>server.go\<close>), a \<^verbatim>\<open>MIGRATE\<close> reads the key, talks to the other server and deletes the key
  (\<^verbatim>\<open>migrate.go\<close>). Between two of them any other client may act. The log and the replicas are
  write-behind copies of the store; the locale \<open>write_behind\<close> says when such a copy is faithful.
\<close>

declare map_of_eq_Some_iff [simp del] Some_eq_map_of_iff [simp del]

section \<open>The steps of a write\<close>

definition set_store :: "env \<Rightarrow> command \<Rightarrow> server \<Rightarrow> server" where
  "set_store E cmd s =
     s\<lparr>svStore := Set (cArgs cmd ! 0) (cArgs cmd ! 1) 0 (eNow E) (eNow2 E) (eOrd E) (svStore s)\<rparr>"

text \<open>
  A write in flight has changed the store; the flag tells whether it is in the log. The last two
  fields record the order in which writes reached the log and the replicas.
\<close>

record race =
  rcServer :: server
  rcFlight :: "(command \<times> bool) list"
  rcLogged :: "command list"
  rcSent :: "command list"

definition race_start :: "server \<Rightarrow> race" where
  "race_start s = \<lparr>rcServer = s, rcFlight = [], rcLogged = [], rcSent = []\<rparr>"

datatype race_event = EvStore env command | EvLog env nat | EvSend nat

definition race_step :: "race_event \<Rightarrow> race \<Rightarrow> race option" where
  "race_step ev r =
     (case ev of
        EvStore E cmd \<Rightarrow>
          if is_set cmd \<and> \<not> replicaMode (rcServer r)
          then Some (r\<lparr>rcServer := set_store E cmd (rcServer r), rcFlight := rcFlight r @ [(cmd, False)]\<rparr>)
          else None
      | EvLog E i \<Rightarrow>
          if i < length (rcFlight r) \<and> \<not> snd (rcFlight r ! i)
          then let cmd = fst (rcFlight r ! i) in
               Some (r\<lparr>rcServer := log_command E cmd (rcServer r), rcFlight := (rcFlight r)[i := (cmd, True)],
                       rcLogged := rcLogged r @ [cmd]\<rparr>)
          else None
      | EvSend i \<Rightarrow>
          if i < length (rcFlight r) \<and> snd (rcFlight r ! i)
          then let cmd = fst (rcFlight r ! i) in
               Some (r\<lparr>rcServer := broadcastToReplicas cmd (rcServer r),
                       rcFlight := take i (rcFlight r) @ drop (Suc i) (rcFlight r), rcSent := rcSent r @ [cmd]\<rparr>)
          else None)"

fun race_run :: "race_event list \<Rightarrow> race \<Rightarrow> race option" where
  "race_run [] r = Some r"
| "race_run (ev # evs) r = (case race_step ev r of None \<Rightarrow> None | Some r' \<Rightarrow> race_run evs r')"

text \<open>Alone, the three steps are the command.\<close>

lemma exec_set_steps:
  assumes "is_set cmd" "\<not> replicaMode s"
  shows "race_run [EvStore E cmd, EvLog E 0, EvSend 0] (race_start s)
           = Some \<lparr>rcServer = snd (exec_set E cmd False s), rcFlight = [], rcLogged = [cmd], rcSent = [cmd]\<rparr>"
proof -
  obtain k v where kv: "cArgs cmd = [k, v]"
    using is_set_args [OF assms(1)] by blast
  then have "snd (exec_set E cmd False s) = broadcastToReplicas cmd (log_command E cmd (set_store E cmd s))"
    using assms(2) by (simp add: exec_set_def Let_def set_store_def)
  then show ?thesis
    using assms by (simp add: race_step_def race_start_def)
qed

text \<open>No write begins while another one of the same key is in flight.\<close>

definition key_of :: "command \<Rightarrow> string" where
  "key_of cmd = cArgs cmd ! 0"

definition no_overlap :: "race_event \<Rightarrow> race \<Rightarrow> bool" where
  "no_overlap ev r \<longleftrightarrow>
     (case ev of EvStore E cmd \<Rightarrow> key_of cmd \<notin> set (map (key_of \<circ> fst) (rcFlight r)) | _ \<Rightarrow> True)"

fun no_overlap_run :: "race_event list \<Rightarrow> race \<Rightarrow> bool" where
  "no_overlap_run [] r \<longleftrightarrow> True"
| "no_overlap_run (ev # evs) r \<longleftrightarrow>
     no_overlap ev r \<and> (case race_step ev r of None \<Rightarrow> True | Some r' \<Rightarrow> no_overlap_run evs r')"

definition event_ok :: "golib \<Rightarrow> race_event \<Rightarrow> bool" where
  "event_ok L ev \<longleftrightarrow>
     (case ev of EvStore E cmd \<Rightarrow> loggable L cmd | EvLog E i \<Rightarrow> eFault E = None | EvSend i \<Rightarrow> True)"

section \<open>The steps of a migration\<close>

text \<open>\<^verbatim>\<open>migrateKey\<close> up to the answer of the other server, and its last statement.\<close>

definition migrate_send :: "env \<Rightarrow> string \<Rightarrow> string \<Rightarrow> server \<Rightarrow> string option \<times> server" where
  "migrate_send E key target s =
     (case Get key (eNow E) (svStore s) of
        (Inl e, st) \<Rightarrow> (Some (store_error_text e), s\<lparr>svStore := st\<rparr>)
      | (Inr val, st) \<Rightarrow>
          (case eExchange E target (WriteCommand [''SET'', key, val]) of
             Inl err \<Rightarrow> (Some err, s\<lparr>svStore := st\<rparr>)
           | Inr line \<Rightarrow>
               ((if line \<noteq> [] \<and> hd line = CHR ''-'' then Some (''target error: '' @ line) else None), s\<lparr>svStore := st\<rparr>)))"

definition migrate_delete :: "string \<Rightarrow> server \<Rightarrow> server" where
  "migrate_delete key s = s\<lparr>svStore := Delete key (svStore s)\<rparr>"

lemma migrateKey_steps:
  "migrateKey E key target s =
     (case migrate_send E key target s of (Some e, t) \<Rightarrow> (Some e, t) | (None, t) \<Rightarrow> (None, migrate_delete key t))"
  by (auto simp: migrateKey_def migrate_send_def migrate_delete_def split: prod.split sum.split)

section \<open>Copies that lag behind\<close>

lemma set_map_commute:
  "is_set c \<Longrightarrow> is_set d \<Longrightarrow> key_of c \<noteq> key_of d \<Longrightarrow> set_map c (set_map d m) = set_map d (set_map c m)"
  using is_set_args [of c] is_set_args [of d] by (auto simp: set_map_def key_of_def fun_upd_twist)

lemma fold_set_map_move:
  "is_set c \<Longrightarrow> \<forall>d \<in> set ds. is_set d \<and> key_of d \<noteq> key_of c \<Longrightarrow>
     fold set_map ds (set_map c m) = set_map c (fold set_map ds m)"
proof (induction ds arbitrary: m)
  case (Cons d ds)
  then show ?case
    using set_map_commute [of d c m] by simp
qed simp

text \<open>
  A copy receives every write once, some time after the store. \<open>pending\<close> are the writes it
  has yet to receive, in the order of the store.
\<close>

locale write_behind =
  fixes step :: "'s \<Rightarrow> 's \<Rightarrow> bool"
    and contents :: "'s \<Rightarrow> (string \<rightharpoonup> string)"
    and received :: "'s \<Rightarrow> command list"
    and pending :: "'s \<Rightarrow> command list"
  assumes step_cases: "step s t \<Longrightarrow>
      (\<exists>c. is_set c \<and> key_of c \<notin> key_of ` set (pending s) \<and> contents t = set_map c (contents s) \<and>
           pending t = pending s @ [c] \<and> received t = received s) \<or>
      (\<exists>xs c ys. pending s = xs @ c # ys \<and> pending t = xs @ ys \<and> received t = received s @ [c] \<and>
           contents t = contents s) \<or>
      (contents t = contents s \<and> pending t = pending s \<and> received t = received s)"
begin

definition lags :: "(string \<rightharpoonup> string) \<Rightarrow> 's \<Rightarrow> bool" where
  "lags m s \<longleftrightarrow>
     contents s = fold set_map (received s @ pending s) m \<and> distinct (map key_of (pending s)) \<and>
     (\<forall>c \<in> set (pending s). is_set c)"

lemma lags_step:
  assumes "step s t" "lags m s"
  shows "lags m t"
  using step_cases [OF assms(1)]
proof (elim disjE exE conjE)
  fix xs c ys
  assume t: "pending s = xs @ c # ys" "pending t = xs @ ys" "received t = received s @ [c]" "contents t = contents s"
  then have "\<forall>d \<in> set xs. is_set d \<and> key_of d \<noteq> key_of c" "is_set c"
    using assms(2) by (auto simp: lags_def image_iff)
  then show ?thesis
    using assms(2) t fold_set_map_move [of c xs] by (auto simp: lags_def)
qed (use assms(2) in \<open>auto simp: lags_def\<close>)

lemma lags_run: "step\<^sup>*\<^sup>* s t \<Longrightarrow> lags m s \<Longrightarrow> lags m t"
  by (induction rule: rtranclp_induct) (auto intro: lags_step)

end

definition race_move :: "race \<Rightarrow> race \<Rightarrow> bool" where
  "race_move r t \<longleftrightarrow> plain_ok (svStore (rcServer r)) \<and> (\<exists>ev. race_step ev r = Some t \<and> no_overlap ev r)"

definition unlogged :: "race \<Rightarrow> command list" where
  "unlogged r = map fst (filter (\<lambda>p. \<not> snd p) (rcFlight r))"

definition unsent :: "race \<Rightarrow> command list" where
  "unsent r = map fst (rcFlight r)"

abbreviation race_values :: "race \<Rightarrow> (string \<rightharpoonup> string)" where
  "race_values r \<equiv> values_of (svStore (rcServer r))"

lemma set_store_values:
  assumes "is_set cmd" "plain_ok (svStore s)"
  shows "values_of (svStore (set_store E cmd s)) = set_map cmd (values_of (svStore s))" "plain_ok (svStore (set_store E cmd s))"
  using is_set_args [OF assms(1)] plain_set [OF assms(2)] by (auto simp: set_store_def set_map_def)

lemma race_step_cases:
  assumes "race_step ev r = Some t"
  obtains (store) E cmd where "ev = EvStore E cmd" "is_set cmd" "\<not> replicaMode (rcServer r)"
      "t = r\<lparr>rcServer := set_store E cmd (rcServer r), rcFlight := rcFlight r @ [(cmd, False)]\<rparr>"
    | (log) E xs cmd ys where "ev = EvLog E (length xs)" "rcFlight r = xs @ (cmd, False) # ys"
      "t = r\<lparr>rcServer := log_command E cmd (rcServer r), rcFlight := xs @ (cmd, True) # ys, rcLogged := rcLogged r @ [cmd]\<rparr>"
    | (send) xs cmd ys where "ev = EvSend (length xs)" "rcFlight r = xs @ (cmd, True) # ys"
      "t = r\<lparr>rcServer := broadcastToReplicas cmd (rcServer r), rcFlight := xs @ ys, rcSent := rcSent r @ [cmd]\<rparr>"
proof (cases ev)
  case (EvStore E cmd)
  then show ?thesis
    using assms store by (auto simp: race_step_def split: if_splits)
next
  case (EvLog E i)
  then have i: "i < length (rcFlight r)" "\<not> snd (rcFlight r ! i)"
    using assms by (auto simp: race_step_def split: if_splits)
  define xs cmd ys where "xs = take i (rcFlight r)" and "cmd = fst (rcFlight r ! i)" and "ys = drop (Suc i) (rcFlight r)"
  have "rcFlight r ! i = (cmd, False)"
    using i(2) by (simp add: cmd_def prod_eq_iff)
  then have "rcFlight r = xs @ (cmd, False) # ys" "length xs = i"
    using id_take_nth_drop [OF i(1)] i(1) by (simp_all add: xs_def ys_def)
  then show ?thesis
    using assms EvLog i log [of E xs cmd ys] by (auto simp: race_step_def list_update_append)
next
  case (EvSend i)
  then have i: "i < length (rcFlight r)" "snd (rcFlight r ! i)"
    using assms by (auto simp: race_step_def split: if_splits)
  define xs cmd ys where "xs = take i (rcFlight r)" and "cmd = fst (rcFlight r ! i)" and "ys = drop (Suc i) (rcFlight r)"
  have "rcFlight r ! i = (cmd, True)"
    using i(2) by (simp add: cmd_def prod_eq_iff)
  then have "rcFlight r = xs @ (cmd, True) # ys" "length xs = i"
    using id_take_nth_drop [OF i(1)] i(1) by (simp_all add: xs_def ys_def)
  then show ?thesis
    using assms EvSend i send [of xs cmd ys] by (auto simp: race_step_def)
qed

interpretation log_copy: write_behind race_move race_values rcLogged unlogged
proof unfold_locales
  fix r t
  assume "race_move r t"
  then obtain ev where ev: "plain_ok (svStore (rcServer r))" "race_step ev r = Some t" "no_overlap ev r"
    by (auto simp: race_move_def)
  from ev(2) show "(\<exists>c. is_set c \<and> key_of c \<notin> key_of ` set (unlogged r) \<and> race_values t = set_map c (race_values r) \<and>
           unlogged t = unlogged r @ [c] \<and> rcLogged t = rcLogged r) \<or>
      (\<exists>xs c ys. unlogged r = xs @ c # ys \<and> unlogged t = xs @ ys \<and> rcLogged t = rcLogged r @ [c] \<and>
           race_values t = race_values r) \<or>
      (race_values t = race_values r \<and> unlogged t = unlogged r \<and> rcLogged t = rcLogged r)"
  proof (cases rule: race_step_cases)
    case (store E cmd)
    then have "key_of cmd \<notin> key_of ` set (unlogged r)"
      using ev(3) by (auto simp: no_overlap_def unlogged_def)
    then show ?thesis
      using store set_store_values(1) [OF store(2) ev(1)] by (intro disjI1 exI [of _ cmd]) (simp add: unlogged_def)
  next
    case (log E xs cmd ys)
    then show ?thesis
      by (intro disjI2 disjI1 exI [of _ "map fst (filter (\<lambda>p. \<not> snd p) xs)"] exI [of _ cmd]
          exI [of _ "map fst (filter (\<lambda>p. \<not> snd p) ys)"]) (simp add: unlogged_def)
  qed (simp add: unlogged_def)
qed

interpretation replica_copy: write_behind race_move race_values rcSent unsent
proof unfold_locales
  fix r t
  assume "race_move r t"
  then obtain ev where ev: "plain_ok (svStore (rcServer r))" "race_step ev r = Some t" "no_overlap ev r"
    by (auto simp: race_move_def)
  from ev(2) show "(\<exists>c. is_set c \<and> key_of c \<notin> key_of ` set (unsent r) \<and> race_values t = set_map c (race_values r) \<and>
           unsent t = unsent r @ [c] \<and> rcSent t = rcSent r) \<or>
      (\<exists>xs c ys. unsent r = xs @ c # ys \<and> unsent t = xs @ ys \<and> rcSent t = rcSent r @ [c] \<and>
           race_values t = race_values r) \<or>
      (race_values t = race_values r \<and> unsent t = unsent r \<and> rcSent t = rcSent r)"
  proof (cases rule: race_step_cases)
    case (store E cmd)
    then have "key_of cmd \<notin> key_of ` set (unsent r)"
      using ev(3) by (auto simp: no_overlap_def unsent_def)
    then show ?thesis
      using store set_store_values(1) [OF store(2) ev(1)] by (intro disjI1 exI [of _ cmd]) (simp add: unsent_def)
  next
    case (send xs cmd ys)
    then show ?thesis
      by (intro disjI2 disjI1 exI [of _ "map fst xs"] exI [of _ cmd] exI [of _ "map fst ys"]) (simp add: unsent_def)
  qed (simp add: unsent_def)
qed

section \<open>What the log holds\<close>

definition race_ok :: "golib \<Rightarrow> race \<Rightarrow> bool" where
  "race_ok L r \<longleftrightarrow>
     plain_ok (svStore (rcServer r)) \<and>
     (\<exists>a. svAof (rcServer r) = Some a \<and> \<not> abroken a \<and> afile a = log_of (rcLogged r)) \<and>
     (\<forall>c \<in> set (rcLogged r) \<union> fst ` set (rcFlight r). is_set c \<and> loggable L c)"

lemma race_step_ok:
  assumes "race_step ev r = Some t" "race_ok L r" "event_ok L ev"
  shows "race_ok L t"
  using assms(1)
proof (cases rule: race_step_cases)
  case (store E cmd)
  then show ?thesis
    using assms(2,3) set_store_values(2) [of cmd "rcServer r" E] by (auto simp: race_ok_def event_ok_def set_store_def)
next
  case (log E xs cmd ys)
  obtain a where a: "svAof (rcServer r) = Some a" "\<not> abroken a" "afile a = log_of (rcLogged r)"
    using assms(2) by (auto simp: race_ok_def)
  let ?b = "snd (aof_Write None (eSyncOk E) cmd a)"
  have "\<not> abroken ?b \<and> afile ?b = log_of (rcLogged r @ [cmd])"
    using a(2,3) by (cases rule: aof_Write_cases [of a None "eSyncOk E" cmd]) (auto simp: log_of_def)
  moreover have "eFault E = None"
    using assms(3) log(1) by (simp add: event_ok_def)
  ultimately show ?thesis
    using assms(2) log a(1) by (auto simp: race_ok_def)
next
  case (send xs cmd ys)
  then show ?thesis
    using assms(2) by (auto simp: race_ok_def)
qed

lemma race_run_ok:
  "race_run evs r = Some t \<Longrightarrow> race_ok L r \<Longrightarrow> \<forall>ev \<in> set evs. event_ok L ev \<Longrightarrow> race_ok L t"
proof (induction evs arbitrary: r)
  case (Cons ev evs)
  then obtain u where "race_step ev r = Some u" "race_run evs u = Some t"
    by (auto split: option.splits)
  then show ?case
    using Cons race_step_ok [of ev r u L] by auto
qed simp

lemma race_run_moves:
  "race_run evs r = Some t \<Longrightarrow> race_ok L r \<Longrightarrow> \<forall>ev \<in> set evs. event_ok L ev \<Longrightarrow> no_overlap_run evs r \<Longrightarrow> race_move\<^sup>*\<^sup>* r t"
proof (induction evs arbitrary: r)
  case (Cons ev evs)
  then obtain u where u: "race_step ev r = Some u" "race_run evs u = Some t"
    by (auto split: option.splits)
  have "race_move r u"
    using Cons.prems(2,4) u(1) by (auto simp: race_move_def race_ok_def)
  moreover have "race_ok L u"
    using Cons.prems(2,3) race_step_ok [OF u(1)] by simp
  ultimately show ?case
    using Cons.IH [OF u(2)] Cons.prems u(1) by (auto intro: converse_rtranclp_into_rtranclp)
qed simp
text \<open>A replica with room for the broadcasts has them all in its buffer, in their order.\<close>

lemma map_of_offer: "map_of (map (\<lambda>(i, ch). (i, offer cmd ch)) xs) rid = map_option (offer cmd) (map_of xs rid)"
  by (induction xs) auto

lemma race_run_sent: "race_run evs r = Some t \<Longrightarrow> length (rcSent r) \<le> length (rcSent t)"
proof (induction evs arbitrary: r)
  case (Cons ev evs)
  then obtain u where u: "race_step ev r = Some u" "race_run evs u = Some t"
    by (auto split: option.splits)
  from u(1) have "length (rcSent r) \<le> length (rcSent u)"
    by (cases rule: race_step_cases) auto
  then show ?case
    using Cons.IH [OF u(2)] by simp
qed simp

definition channel_ok :: "nat \<Rightarrow> race \<Rightarrow> bool" where
  "channel_ok rid r \<longleftrightarrow>
     map_of (replicas (rcServer r)) rid = Some (rcSent r) \<and> (\<forall>p \<in> set (rcFlight r). is_set (fst p))"

lemma race_step_channel:
  assumes "race_step ev r = Some u" "channel_ok rid r" "length (rcSent u) \<le> replica_cap"
  shows "channel_ok rid u"
  using assms(1)
proof (cases rule: race_step_cases)
  case (store E cmd)
  then show ?thesis
    using assms(2) by (auto simp: set_store_def channel_ok_def)
next
  case (log E xs cmd ys)
  then show ?thesis
    using assms(2) by (auto simp: channel_ok_def)
next
  case (send xs cmd ys)
  then have "cName cmd = ''SET''" "length (rcSent r) < replica_cap" "map_of (replicas (rcServer r)) rid = Some (rcSent r)"
    using assms(2,3) by (auto simp: channel_ok_def is_set_def)
  then have "map_of (replicas (broadcastToReplicas cmd (rcServer r))) rid = Some (rcSent r @ [cmd])"
    by (simp add: broadcastToReplicas_def map_of_offer) (simp add: offer_def)
  then show ?thesis
    using send assms(2) by (auto simp: channel_ok_def)
qed

lemma race_run_channel:
  "race_run evs r = Some t \<Longrightarrow> channel_ok rid r \<Longrightarrow> length (rcSent t) \<le> replica_cap \<Longrightarrow> channel_ok rid t"
proof (induction evs arbitrary: r)
  case (Cons ev evs)
  then obtain u where u: "race_step ev r = Some u" "race_run evs u = Some t"
    by (auto split: option.splits)
  then have "channel_ok rid u"
    using Cons.prems race_run_sent [OF u(2)] race_step_channel [OF u(1), of rid] by simp
  then show ?case
    using Cons.IH [OF u(2)] Cons.prems(3) by simp
qed simp

section \<open>Restarting from the log\<close>

definition race_init :: "config \<Rightarrow> FsyncPolicy \<Rightarrow> race" where
  "race_init c p = race_start ((NewServer c)\<lparr>svAof := Some (NewAOF [] p), replicas := [(1, [])], replicaSeq := 1\<rparr>)"

lemma race_init_ok: "MaxMemory c < 0 \<Longrightarrow> race_ok L (race_init c p) \<and> race_values (race_init c p) = Map.empty \<and> channel_ok 1 (race_init c p)"
  using plain_New [of "MaxMemory (fill_defaults c)" "Eviction (fill_defaults c)"]
  by (simp add: race_init_def race_start_def race_ok_def channel_ok_def NewServer_fields NewAOF_def log_of_def fill_defaults_def Let_def)

lemma restore_logged:
  assumes cfg: "MaxMemory c < 0" "0 \<le> Slots c" "Slots c < 65536" "AOFPath c \<noteq> []" and ok: "race_ok L r"
  shows "\<exists>a u. svAof (rcServer r) = Some a \<and> restoreData L Es now None (Inr (afile a), True) (NewServer c) = Ret (None, u) \<and>
           values_of (svStore u) = fold set_map (rcLogged r) Map.empty"
proof -
  let ?n = "NewServer c"
  have mem: "MaxMemory (fill_defaults c) \<le> 0" "AOFPath (fill_defaults c) \<noteq> []"
    using cfg by (simp_all add: fill_defaults_def Let_def)
  have fresh: "owner ?n" "plain_ok (svStore ?n)" "ps_inv (svPubsub ?n)" "values_of (svStore ?n) = Map.empty"
    using NewServer_owner cfg(2,3) plain_New [OF mem(1)] new_inv by (auto simp: NewServer_fields)
  obtain a where a: "svAof (rcServer r) = Some a" "afile a = log_of (rcLogged r)"
    using ok by (auto simp: race_ok_def)
  have cmds: "\<forall>c \<in> set (rcLogged r). is_set c \<and> loggable L c"
    using ok by (auto simp: race_ok_def)
  obtain u where u: "apply_all L Es 0 (rcLogged r) ?n = Ret u" "values_of (svStore u) = fold set_map (rcLogged r) Map.empty"
    using apply_all_sets [OF fresh(1,2,3), of "rcLogged r" L Es 0] cmds fresh(4) by auto
  have "ReadCommands L (afile a) = Ret (rcLogged r, None)"
    using read_log [of "rcLogged r" L] cmds a(2) by auto
  then show ?thesis
    using a(1) u mem by (auto simp: restoreData_def initAOF_opens NewServer_fields)
qed

section \<open>Properties\<close>


definition demo_race :: "race_event list" where
  "demo_race = [EvStore demo_env (set_cmd ''a'' ''1''), EvStore demo_env (set_cmd ''b'' ''2''), EvLog demo_env 1, EvLog demo_env 0,
     EvSend 0, EvSend 0]"

lemma demo_set_loggable: "loggable ascii_golib (set_cmd ''a'' ''1'')" "loggable ascii_golib (set_cmd ''b'' ''2'')"
    "loggable ascii_golib (set_cmd ''a'' ''2'')"
proof -
  have "ToUpper ascii_golib ''SET'' = ''SET''"
    by code_simp
  then show "loggable ascii_golib (set_cmd ''a'' ''1'')" "loggable ascii_golib (set_cmd ''b'' ''2'')"
      "loggable ascii_golib (set_cmd ''a'' ''2'')"
    by (simp_all add: loggable_def set_cmd_def within_limits_def)
qed


text \<open>
  C31: Overlapping writes of one key. The store, the log and the replicas take their steps of two such writes
  in orders of their own: both clients are answered, the store keeps the second value, and a restart
  from the log and every replica end with the first one.
\<close>
theorem racing_sets_diverge:
  assumes cfg: "MaxMemory c < 0" "0 \<le> Slots c" "Slots c < 65536" "AOFPath c \<noteq> []" "ReplicaOf c = []"
    and cmds: "loggable L (set_cmd k v1)" "loggable L (set_cmd k v2)"
  shows "\<exists>evs r a u. race_run evs (race_init c p) = Some r \<and> rcFlight r = [] \<and> svAof (rcServer r) = Some a \<and>
           restoreData L Es now None (Inr (afile a), True) (NewServer c) = Ret (None, u) \<and>
           race_values r k = Some v2 \<and> values_of (svStore u) k = Some v1 \<and>
           map_of (replicas (rcServer r)) 1 = Some [set_cmd k v2, set_cmd k v1]"
proof -
  let ?c1 = "set_cmd k v1" and ?c2 = "set_cmd k v2"
  let ?evs = "[EvStore demo_env ?c1, EvStore demo_env ?c2, EvLog demo_env 1, EvLog demo_env 0, EvSend 1, EvSend 0]"
  let ?s2 = "set_store demo_env ?c2 (set_store demo_env ?c1 (rcServer (race_init c p)))"
  have set: "is_set ?c1" "is_set ?c2"
    by (simp_all add: is_set_def set_cmd_def)
  have init: "race_ok L (race_init c p)" "channel_ok 1 (race_init c p)"
    using race_init_ok [OF cfg(1)] by auto
  have mode: "\<not> replicaMode (rcServer (race_init c p))"
    using cfg(5) by (simp add: race_init_def race_start_def NewServer_fields)
  obtain r where r: "race_run ?evs (race_init c p) = Some r" "rcFlight r = []" "rcLogged r = [?c2, ?c1]" "rcSent r = [?c2, ?c1]"
      "svStore (rcServer r) = svStore ?s2"
    using mode set by (simp add: race_step_def race_init_def race_start_def set_store_def Let_def)
  have "\<forall>ev \<in> set ?evs. event_ok L ev"
    using cmds by (simp add: event_ok_def demo_env_def)
  from race_run_ok [OF r(1) init(1) this] obtain a u where a: "svAof (rcServer r) = Some a"
      "restoreData L Es now None (Inr (afile a), True) (NewServer c) = Ret (None, u)" "values_of (svStore u) = fold set_map [?c2, ?c1] Map.empty"
    using restore_logged [OF cfg(1-4), of L r Es now] r(3) by metis
  have "race_values r = set_map ?c2 (set_map ?c1 (race_values (race_init c p)))"
    using init(1) set_store_values [OF set(1)] set_store_values [OF set(2)] r(5) by (simp add: race_ok_def)
  moreover have "channel_ok 1 r"
    using race_run_channel [OF r(1) init(2)] r(4) by (simp add: replica_cap_def)
  ultimately show ?thesis
    using r a by (intro exI conjI) (assumption | simp add: channel_ok_def set_map_def set_cmd_def)+
qed

theorem racing_sets_diverge_witness:
  "\<exists>evs r a u. race_run evs (race_init demo_cfg FsyncAlways) = Some r \<and> rcFlight r = [] \<and> svAof (rcServer r) = Some a \<and>
     restoreData ascii_golib (\<lambda>_. demo_env) 3 None (Inr (afile a), True) (NewServer demo_cfg) = Ret (None, u) \<and>
     race_values r ''a'' = Some ''2'' \<and> values_of (svStore u) ''a'' = Some ''1'' \<and>
     map_of (replicas (rcServer r)) 1 = Some [set_cmd ''a'' ''2'', set_cmd ''a'' ''1'']"
  by (rule racing_sets_diverge) (use demo_set_loggable in \<open>simp_all add: demo_cfg_def demo_config_def\<close>)

text \<open>
  A migration can lose a write. If a client sets the key after the migration has read it and before it
  deletes it, the client is answered, the other server has the old value, and the new one is gone.
\<close>
lemma migrate_loses_write:
  assumes s: "plain_ok (svStore s)" "values_of (svStore s) key = Some old" "\<not> replicaMode s"
    and target: "eExchange E target (WriteCommand [''SET'', key, old]) = Inr line" "line = [] \<or> hd line \<noteq> CHR ''-''"
  shows "\<exists>t u. migrate_send E key target s = (None, t) \<and> exec_set E' (set_cmd key new) False t = (''OK'', u) \<and>
           values_of (svStore u) key = Some new \<and> values_of (svStore (migrate_delete key u)) key = None"
proof -
  obtain it where it: "map_of (sdata (svStore s)) key = Some it" "iValue it = old"
    using s(2) by (auto simp: values_of_def)
  then have "fst (Get key (eNow E) (svStore s)) = Inr old"
    using s(1) by (auto simp: Get_unlocked getUnlocked_cases plain_ok_def plain_def expired_at_def)
  then obtain st where st: "Get key (eNow E) (svStore s) = (Inr old, st)"
    by (cases "Get key (eNow E) (svStore s)") simp
  then have "plain_ok st"
    using plain_get_state(1) [OF s(1), of key "eNow E"] by simp
  let ?t = "s\<lparr>svStore := st\<rparr>"
  let ?u = "snd (exec_set E' (set_cmd key new) False ?t)"
  have "migrate_send E key target s = (None, ?t)"
    using st target by (auto simp: migrate_send_def)
  moreover have "exec_set E' (set_cmd key new) False ?t = (''OK'', ?u)"
    using s(3) by (simp add: exec_set_def set_cmd_def Let_def)
  moreover have "values_of (svStore ?u) key = Some new"
    using s(3) plain_set(2) [OF \<open>plain_ok st\<close>] by (simp add: exec_set_def set_cmd_def Let_def)
  ultimately show ?thesis
    by (intro exI conjI) (assumption | simp add: migrate_delete_def values_delete)+
qed

end
