(* ===== verification/Fas_Sessions.thy ===== *)
theory Fas_Sessions
  imports Fas_Replica
begin

text \<open>
  What becomes of a connection whose client leaves. The goroutine of a connection serves commands, forwards the
  messages of a channel (\<^verbatim>\<open>handleSubscribe\<close>) or feeds a replica (\<^verbatim>\<open>handleReplicaConnection\<close>); it learns that
  its client is gone from a read that ends or from a write that fails. The sessions below keep track of
  who is still there and refine the world of \<open>Fas_World\<close>, in which any goroutine may end at any time. Beside them
  run the heartbeat, the ticker, a background save and, on a server that was started as a replica, the goroutine that
  follows the master (\<^verbatim>\<open>startReplicaClient\<close>).
\<close>

declare map_of_eq_Some_iff [simp del] Some_eq_map_of_iff [simp del]

section \<open>Writes that fail\<close>

text \<open>
  One turn of the loop of \<^verbatim>\<open>handleSubscribe\<close>: \<open>None\<close> while the channel is empty; a message whose
  write fails ends the subscription.
\<close>

definition subscribe_turn :: "bool \<Rightarrow> string \<Rightarrow> nat \<Rightarrow> server \<Rightarrow> (bool \<times> bytes \<times> server) outcome option" where
  "subscribe_turn ok name ch s =
     (case subscribe_forward name ch s of
        None \<Rightarrow> None
      | Some (out, s1) \<Rightarrow>
          if ok then Some (Ret (True, out, s1))
          else Some (case subscribe_close name ch s1 of Panic m \<Rightarrow> Panic m | Ret s2 \<Rightarrow> Ret (False, [], s2)))"

text \<open>
  The snapshot of \<^verbatim>\<open>handleReplicaConnection\<close> on the wire: the number of the first write that fails, if
  any, the bytes sent, and whether all entries went out. A replica that misses some of them is not
  registered. The entries are taken first, and registration comes after the last write: what other goroutines do in
  between is in neither.
\<close>

definition replica_send :: "nat option \<Rightarrow> SnapshotEntry list \<Rightarrow> bytes \<times> bool" where
  "replica_send fail es =
     (let n = (case fail of None \<Rightarrow> length es | Some n \<Rightarrow> n)
      in (concat (map (\<lambda>e. WriteCommand [''SET'', seKey e, seValue e]) (take n es)), length es \<le> n))"

lemma replica_send_whole:
  "replica_send None (SnapshotEntries (eNow E) (eOrd E) (svStore s)) = (replica_snapshot E s, True)"
  by (simp add: replica_send_def replica_snapshot_def)

section \<open>Sessions\<close>

text \<open>\<open>Syncing es\<close> is a connection to a replica that is being sent the entries \<open>es\<close>.\<close>

datatype role = Serving | Subscribed string nat | Syncing "SnapshotEntry list" | Streaming nat

record session =
  ssRole :: role
  ssAlive :: bool

text \<open>\<open>rmFollows\<close>: the server was started as a replica.\<close>

record room =
  rmServer :: server
  rmSessions :: "session list"
  rmFollows :: bool

text \<open>
  A goroutine that serves commands can always end: its client is gone, or has sent what does not parse. One that feeds a replica ends
  when its read returns, which one more byte from the replica is enough for. One that forwards messages only writes, so it
  ends with a write that fails.
\<close>

inductive room_step :: "golib \<Rightarrow> room \<Rightarrow> room \<Rightarrow> bool" for L where
  accept: "accept_client (rmServer w) = (True, s) \<Longrightarrow>
    room_step L w (w\<lparr>rmServer := s, rmSessions := \<lparr>ssRole = Serving, ssAlive = True\<rparr> # rmSessions w\<rparr>)"
| reject: "accept_client (rmServer w) = (False, s) \<Longrightarrow> room_step L w (w\<lparr>rmServer := s\<rparr>)"
| leave: "rmSessions w = xs @ \<lparr>ssRole = r, ssAlive = True\<rparr> # ys \<Longrightarrow>
    room_step L w (w\<lparr>rmSessions := xs @ \<lparr>ssRole = r, ssAlive = False\<rparr> # ys\<rparr>)"
| command: "rmSessions w = xs @ \<lparr>ssRole = Serving, ssAlive = a\<rparr> # ys \<Longrightarrow>
    executeCommand L E cmd False (rmServer w) = Ret (x, s) \<Longrightarrow> room_step L w (w\<lparr>rmServer := s\<rparr>)"
| eof: "rmSessions w = xs @ \<lparr>ssRole = Serving, ssAlive = a\<rparr> # ys \<Longrightarrow>
    room_step L w (w\<lparr>rmServer := close_client (rmServer w), rmSessions := xs @ ys\<rparr>)"
| subscribe: "rmSessions w = xs @ \<lparr>ssRole = Serving, ssAlive = a\<rparr> # ys \<Longrightarrow>
    subscribe_open name (rmServer w) = (ch, out, s) \<Longrightarrow>
    room_step L w (w\<lparr>rmServer := s, rmSessions := xs @ \<lparr>ssRole = Subscribed name ch, ssAlive = a\<rparr> # ys\<rparr>)"
| message: "rmSessions w = xs @ \<lparr>ssRole = Subscribed name ch, ssAlive = a\<rparr> # ys \<Longrightarrow>
    subscribe_turn True name ch (rmServer w) = Some (Ret (True, out, s)) \<Longrightarrow> room_step L w (w\<lparr>rmServer := s\<rparr>)"
| message_fails: "rmSessions w = xs @ \<lparr>ssRole = Subscribed name ch, ssAlive = False\<rparr> # ys \<Longrightarrow>
    subscribe_turn False name ch (rmServer w) = Some (Ret (False, out, s)) \<Longrightarrow>
    room_step L w (w\<lparr>rmServer := close_client s, rmSessions := xs @ ys\<rparr>)"
| snapshot: "rmSessions w = xs @ \<lparr>ssRole = Serving, ssAlive = a\<rparr> # ys \<Longrightarrow>
    es = SnapshotEntries (eNow (E :: env)) (eOrd E) (svStore (rmServer w)) \<Longrightarrow>
    room_step L w (w\<lparr>rmSessions := xs @ \<lparr>ssRole = Syncing es, ssAlive = a\<rparr> # ys\<rparr>)"
| snapshot_fails: "rmSessions w = xs @ \<lparr>ssRole = Syncing es, ssAlive = False\<rparr> # ys \<Longrightarrow>
    replica_send fail es = (out, False) \<Longrightarrow>
    room_step L w (w\<lparr>rmServer := close_client (rmServer w), rmSessions := xs @ ys\<rparr>)"
| register: "rmSessions w = xs @ \<lparr>ssRole = Syncing es, ssAlive = a\<rparr> # ys \<Longrightarrow>
    replica_send fail es = (out, True) \<Longrightarrow> replica_register (rmServer w) = (rid, s) \<Longrightarrow>
    room_step L w (w\<lparr>rmServer := s, rmSessions := xs @ \<lparr>ssRole = Streaming rid, ssAlive = a\<rparr> # ys\<rparr>)"
| stream: "rmSessions w = xs @ \<lparr>ssRole = Streaming rid, ssAlive = a\<rparr> # ys \<Longrightarrow>
    replica_stream rid (rmServer w) = Some (out, s) \<Longrightarrow> room_step L w (w\<lparr>rmServer := s\<rparr>)"
| stream_ends: "rmSessions w = xs @ \<lparr>ssRole = Streaming rid, ssAlive = a\<rparr> # ys \<Longrightarrow>
    room_step L w (w\<lparr>rmServer := close_client (replica_remove rid (rmServer w)), rmSessions := xs @ ys\<rparr>)"
| master_connect: "rmFollows w \<Longrightarrow>
    room_step L w (w\<lparr>rmServer := (rmServer w)\<lparr>leaderAddr := masterAddr (rmServer w)\<rparr>\<rparr>)"
| master_command: "rmFollows w \<Longrightarrow> executeCommand L E cmd True (rmServer w) = Ret (x, s) \<Longrightarrow>
    room_step L w (w\<lparr>rmServer := s\<rparr>)"
| beat: "room_step L w (w\<lparr>rmServer := heartbeat reachable (rmServer w)\<rparr>)"
| saved: "bgRunning (rmServer w) \<Longrightarrow> room_step L w (w\<lparr>rmServer := finishBGSAVE E (rmServer w)\<rparr>)"
| expire: "room_step L w (w\<lparr>rmServer := (rmServer w)\<lparr>svStore := activeExpire now ord ord2 (svStore (rmServer w))\<rparr>\<rparr>)"

inductive_cases room_stepE: "room_step L w w'"

definition room_run :: "golib \<Rightarrow> room \<Rightarrow> room \<Rightarrow> bool" where
  "room_run L = (room_step L)\<^sup>*\<^sup>*"

text \<open>
  The accept loop of \<^verbatim>\<open>Start\<close>: an error is logged, a connection over the limit is closed, any other
  gets a goroutine of its own.
\<close>

datatype incoming = AcceptFails | Incoming

fun accept_conns :: "incoming list \<Rightarrow> room \<Rightarrow> room" where
  "accept_conns [] w = w"
| "accept_conns (AcceptFails # ins) w = accept_conns ins w"
| "accept_conns (Incoming # ins) w =
     (case accept_client (rmServer w) of
        (True, s) \<Rightarrow> accept_conns ins (w\<lparr>rmServer := s, rmSessions := \<lparr>ssRole = Serving, ssAlive = True\<rparr> # rmSessions w\<rparr>)
      | (False, s) \<Rightarrow> accept_conns ins (w\<lparr>rmServer := s\<rparr>))"

lemma accept_conns_run: "room_run L w (accept_conns ins w)"
proof (induction ins w rule: accept_conns.induct)
  case (3 ins w)
  obtain ok s where a: "accept_client (rmServer w) = (ok, s)"
    by fastforce
  show ?case
  proof (cases ok)
    case True
    then show ?thesis
      using 3(1) a room_step.accept [of w s L] by (simp add: room_run_def converse_rtranclp_into_rtranclp)
  next
    case False
    then show ?thesis
      using 3(2) a room_step.reject [of w s L] by (simp add: room_run_def converse_rtranclp_into_rtranclp)
  qed
qed (simp_all add: room_run_def)

definition room_start :: "server \<Rightarrow> room" where
  "room_start s = \<lparr>rmServer = set_static_slots s, rmSessions = [], rmFollows = replicaMode s\<rparr>"

section \<open>Sessions refine the world\<close>

definition subs_of :: "session list \<Rightarrow> (string \<times> nat) list" where
  "subs_of ss = concat (map (\<lambda>x. case ssRole x of Subscribed name ch \<Rightarrow> [(name, ch)] | _ \<Rightarrow> []) ss)"

definition reps_of :: "session list \<Rightarrow> nat list" where
  "reps_of ss = concat (map (\<lambda>x. case ssRole x of Streaming rid \<Rightarrow> [rid] | _ \<Rightarrow> []) ss)"

definition room_view :: "room \<Rightarrow> world \<Rightarrow> bool" where
  "room_view w v \<longleftrightarrow>
     wServer v = rmServer w \<and> wConns v = int (length (rmSessions w)) \<and>
     mset (wSubs v) = mset (subs_of (rmSessions w)) \<and> mset (wReps v) = mset (reps_of (rmSessions w))"

lemma views [simp]:
  "subs_of [] = []" "reps_of [] = []" "subs_of (xs @ ys) = subs_of xs @ subs_of ys" "reps_of (xs @ ys) = reps_of xs @ reps_of ys"
  "subs_of (x # xs) = (case ssRole x of Subscribed name ch \<Rightarrow> [(name, ch)] | _ \<Rightarrow> []) @ subs_of xs"
  "reps_of (x # xs) = (case ssRole x of Streaming rid \<Rightarrow> [rid] | _ \<Rightarrow> []) @ reps_of xs"
  by (simp_all add: subs_of_def reps_of_def)

lemma mset_remove1_mid: "mset zs = mset (xs @ x # ys) \<Longrightarrow> mset (remove1 x zs) = mset (xs @ ys)"
  by simp

lemma mset_in_mid: "mset zs = mset (xs @ x # ys) \<Longrightarrow> x \<in> set zs"
  by (metis in_set_conv_decomp mset_eq_setD)

lemma world_run_one: "world_step L v (Ret v') \<Longrightarrow> world_run L v v'"
  using world_run_step world_run_refl by blast

lemma view_close:
  assumes "wServer v = s" "wConns v = int (Suc (length ss))" "mset (wSubs v) = mset (subs_of ss)" "mset (wReps v) = mset (reps_of ss)"
  shows "\<exists>v'. world_run L v v' \<and> room_view (w\<lparr>rmServer := close_client s, rmSessions := ss\<rparr>) v'"
proof -
  have "world_step L v (Ret (v\<lparr>wServer := close_client (wServer v), wConns := wConns v - 1\<rparr>))"
    using assms(2) by (intro world_step.hangup) simp
  then show ?thesis
    using assms by (intro exI [of _ "v\<lparr>wServer := close_client (wServer v), wConns := wConns v - 1\<rparr>"])
      (auto simp: room_view_def intro: world_run_one)
qed

lemma view_server:
  assumes "world_step L v (Ret (v\<lparr>wServer := s\<rparr>))" "room_view w v"
  shows "\<exists>v'. world_run L v v' \<and> room_view (w\<lparr>rmServer := s\<rparr>) v'"
  using assms by (intro exI [of _ "v\<lparr>wServer := s\<rparr>"]) (auto simp: room_view_def intro: world_run_one)

lemma world_run_trans: "world_run L v v' \<Longrightarrow> world_run L v' v'' \<Longrightarrow> world_run L v v''"
  by (simp add: world_run_def)

lemma view_message_fails:
  assumes "room_view w v" "rmSessions w = xs @ \<lparr>ssRole = Subscribed name ch, ssAlive = a\<rparr> # ys"
    "subscribe_turn False name ch (rmServer w) = Some (Ret (False, out, s))"
  shows "\<exists>v'. world_run L v v' \<and> room_view (w\<lparr>rmServer := close_client s, rmSessions := xs @ ys\<rparr>) v'"
proof -
  let ?subs = "remove1 (name, ch) (wSubs v)"
  obtain o1 s1 where s: "subscribe_forward name ch (wServer v) = Some (o1, s1)" "subscribe_close name ch s1 = Ret s"
    using assms(1,3) by (auto simp: room_view_def subscribe_turn_def split: option.splits outcome.splits)
  have mid: "mset (wSubs v) = mset (subs_of xs @ (name, ch) # subs_of ys)"
    using assms(1,2) by (simp add: room_view_def)
  note world_step.forward [OF mset_in_mid [OF mid] s(1), of L]
  moreover have "world_step L (v\<lparr>wServer := s1\<rparr>) (Ret (v\<lparr>wServer := s1\<rparr>\<lparr>wServer := s, wSubs := ?subs\<rparr>))"
    using world_step.unsubscribe [of name ch "v\<lparr>wServer := s1\<rparr>" s L] mset_in_mid [OF mid] s(2) by simp
  ultimately have "world_run L v (v\<lparr>wServer := s, wSubs := ?subs\<rparr>)"
    using world_run_step world_run_one by fastforce
  moreover have "\<exists>v'. world_run L (v\<lparr>wServer := s, wSubs := ?subs\<rparr>) v' \<and> room_view (w\<lparr>rmServer := close_client s, rmSessions := xs @ ys\<rparr>) v'"
    using assms(1,2) mset_remove1_mid [OF mid] by (intro view_close) (simp_all add: room_view_def)
  ultimately show ?thesis
    using world_run_trans by metis
qed

lemma view_stream_ends:
  assumes "room_view w v" "rmSessions w = xs @ \<lparr>ssRole = Streaming rid, ssAlive = a\<rparr> # ys"
  shows "\<exists>v'. world_run L v v' \<and> room_view (w\<lparr>rmServer := close_client (replica_remove rid (rmServer w)), rmSessions := xs @ ys\<rparr>) v'"
proof -
  let ?v = "v\<lparr>wServer := replica_remove rid (wServer v), wReps := remove1 rid (wReps v)\<rparr>"
  have mid: "mset (wReps v) = mset (reps_of xs @ rid # reps_of ys)"
    using assms by (simp add: room_view_def)
  have "world_run L v ?v"
    using world_step.unreplicate [OF mset_in_mid [OF mid]] by (rule world_run_one)
  moreover have "\<exists>v'. world_run L ?v v' \<and>
      room_view (w\<lparr>rmServer := close_client (replica_remove rid (rmServer w)), rmSessions := xs @ ys\<rparr>) v'"
    using assms mset_remove1_mid [OF mid] by (intro view_close) (simp_all add: room_view_def)
  ultimately show ?thesis
    using world_run_trans by metis
qed

lemma room_simulates:
  assumes "room_step L w w'" "room_view w v"
  shows "\<exists>v'. world_run L v v' \<and> room_view w' v'"
  using assms
proof (cases rule: room_step.cases)
  case (accept s)
  then have "world_step L v (Ret (v\<lparr>wServer := s, wConns := wConns v + 1\<rparr>))"
    using assms(2) by (intro world_step.accept) (simp add: room_view_def)
  then show ?thesis
    using accept assms(2) by (intro exI [of _ "v\<lparr>wServer := s, wConns := wConns v + 1\<rparr>"])
      (auto simp: room_view_def intro: world_run_one)
next
  case (leave xs r ys)
  then show ?thesis
    using assms(2) by (intro exI [of _ v]) (simp add: room_view_def)
next
  case (eof xs a ys)
  then show ?thesis
    using assms(2) view_close [of v "rmServer w" "xs @ ys" L w] by (simp add: room_view_def)
next
  case (subscribe xs a ys name ch out s)
  then have "world_step L v (Ret (v\<lparr>wServer := s, wSubs := (name, ch) # wSubs v\<rparr>))"
    using assms(2) by (intro world_step.subscribe) (simp add: room_view_def)
  then show ?thesis
    using subscribe assms(2) by (intro exI [of _ "v\<lparr>wServer := s, wSubs := (name, ch) # wSubs v\<rparr>"])
      (auto simp: room_view_def intro: world_run_one)
next
  case (message xs name ch a ys out s)
  then have "(name, ch) \<in> set (wSubs v)" "subscribe_forward name ch (wServer v) = Some (out, s)"
    using assms(2) mset_in_mid [of "wSubs v" "subs_of xs" "(name, ch)" "subs_of ys"]
    by (auto simp: room_view_def subscribe_turn_def split: option.splits)
  then show ?thesis
    using message assms(2) view_server [OF world_step.forward] by metis
next
  case (message_fails xs name ch ys out s)
  show ?thesis
    unfolding message_fails(1) by (rule view_message_fails [OF assms(2) message_fails(2,3)])
next
  case (snapshot xs a ys es E)
  then show ?thesis
    using assms(2) by (intro exI [of _ v]) (simp add: room_view_def)
next
  case (snapshot_fails xs es ys fail out)
  then show ?thesis
    using assms(2) view_close [of v "rmServer w" "xs @ ys" L w] by (simp add: room_view_def)
next
  case (register xs es a ys fail out rid s)
  then have "world_step L v (Ret (v\<lparr>wServer := s, wReps := rid # wReps v\<rparr>))"
    using assms(2) by (intro world_step.replicate) (simp add: room_view_def)
  then show ?thesis
    using register assms(2) by (intro exI [of _ "v\<lparr>wServer := s, wReps := rid # wReps v\<rparr>"])
      (auto simp: room_view_def intro: world_run_one)
next
  case (stream_ends xs rid a ys)
  show ?thesis
    unfolding stream_ends(1) by (rule view_stream_ends [OF assms(2) stream_ends(2)])
qed (auto intro!: view_server [OF _ assms(2)] intro: world_step.intros
      simp: assms(2) [unfolded room_view_def, THEN conjunct1, symmetric])

lemma room_run_simulates:
  assumes "room_run L w w'" "room_view w v"
  shows "\<exists>v'. world_run L v v' \<and> room_view w' v'"
  using assms(1) unfolding room_run_def
proof (induction rule: rtranclp_induct)
  case base
  show ?case
    using assms(2) world_run_refl by blast
next
  case (step y z)
  then show ?case
    using room_simulates world_run_trans by blast
qed

lemma room_start_view: "room_view (room_start s) (world_init s)"
  by (simp add: room_view_def room_start_def world_init_def)

lemma world_run_reach: "world_run L v v' \<Longrightarrow> world_reach L c v \<Longrightarrow> world_reach L c v'"
  unfolding world_run_def by (induction rule: rtranclp_induct) (auto intro: world_reach.step)

section \<open>Subscribers that left\<close>

text \<open>A subscriber that is gone and has no message waiting.\<close>

definition forgotten :: "server \<Rightarrow> session \<Rightarrow> bool" where
  "forgotten s x \<longleftrightarrow>
     \<not> ssAlive x \<and>
     (case ssRole x of
        Subscribed name ch \<Rightarrow> ch < length (chans (svPubsub s)) \<and> buf (chans (svPubsub s) ! ch) = []
      | _ \<Rightarrow> False)"

definition locked :: "room \<Rightarrow> bool" where
  "locked w \<longleftrightarrow> \<not> rmFollows w \<and>
     0 < MaxClients (svConfig (rmServer w)) \<and> MaxClients (svConfig (rmServer w)) \<le> clients (rmServer w) \<and>
     (\<forall>x \<in> set (rmSessions w). forgotten (rmServer w) x)"

lemma forgotten_blocked:
  assumes "forgotten s \<lparr>ssRole = Subscribed name ch, ssAlive = a\<rparr>"
  shows "subscribe_turn ok name ch s = None"
  using assms by (auto simp: forgotten_def subscribe_turn_def subscribe_forward_def receive_def split: option.splits if_splits)

lemma forgotten_simps [simp]:
  "\<not> forgotten s \<lparr>ssRole = r, ssAlive = True\<rparr>" "\<not> forgotten s \<lparr>ssRole = Serving, ssAlive = a\<rparr>"
  "\<not> forgotten s \<lparr>ssRole = Streaming rid, ssAlive = a\<rparr>" "\<not> forgotten s \<lparr>ssRole = Syncing es, ssAlive = a\<rparr>"
  by (simp_all add: forgotten_def)

lemma locked_frame:
  assumes "locked w" "svConfig s = svConfig (rmServer w)" "clients s = clients (rmServer w)" "svPubsub s = svPubsub (rmServer w)"
  shows "locked (w\<lparr>rmServer := s\<rparr>)"
  using assms by (auto simp: locked_def forgotten_def split: role.splits)

lemma background_frame:
  "svConfig (heartbeat reachable s) = svConfig s" "clients (heartbeat reachable s) = clients s"
  "svPubsub (heartbeat reachable s) = svPubsub s" "svConfig (finishBGSAVE E s) = svConfig s"
  "clients (finishBGSAVE E s) = clients s" "svPubsub (finishBGSAVE E s) = svPubsub s"
  by (simp_all add: heartbeat_def finishBGSAVE_def saveSnapshot_def split: option.split)

lemma locked_step:
  assumes "room_step L w w'" "locked w"
  shows "locked w'"
  using assms(1)
proof (cases rule: room_step.cases)
  case (message xs name ch a ys out s)
  then show ?thesis
    using assms(2) forgotten_blocked [of "rmServer w" name ch a True] by (auto simp: locked_def)
next
  case (message_fails xs name ch ys out s)
  then show ?thesis
    using assms(2) forgotten_blocked [of "rmServer w" name ch False False] by (auto simp: locked_def)
next
  case (accept s)
  then show ?thesis
    using assms(2) by (auto simp: locked_def accept_client_def split: if_splits)
next
  case (reject s)
  then show ?thesis
    using assms(2) by (auto simp: accept_client_def split: if_splits)
qed (use assms(2) in \<open>auto intro!: locked_frame simp: background_frame\<close>, use assms(2) in \<open>auto simp: locked_def\<close>)

lemma locked_run: "room_run L w w' \<Longrightarrow> locked w \<Longrightarrow> locked w'"
  unfolding room_run_def by (induction rule: rtranclp_induct) (auto intro: locked_step)

lemma room_run_step: "room_run L w w' \<Longrightarrow> room_step L w' w'' \<Longrightarrow> room_run L w w''"
  by (simp add: room_run_def)

text \<open>One more client connects, subscribes and leaves.\<close>

lemma one_more_forgotten:
  assumes "\<forall>x \<in> set (rmSessions w). forgotten (rmServer w) x" "0 \<le> clients (rmServer w)"
    "clients (rmServer w) < MaxClients (svConfig (rmServer w))"
  shows "\<exists>w'. room_run L w w' \<and> (\<forall>x \<in> set (rmSessions w'). forgotten (rmServer w') x) \<and> rmFollows w' = rmFollows w \<and>
           svConfig (rmServer w') = svConfig (rmServer w) \<and> clients (rmServer w') = clients (rmServer w) + 1"
proof -
  let ?s = "rmServer w" and ?ss = "rmSessions w"
  let ?s1 = "?s\<lparr>clients := clients ?s + 1\<rparr>"
  let ?w1 = "w\<lparr>rmServer := ?s1, rmSessions := \<lparr>ssRole = Serving, ssAlive = True\<rparr> # ?ss\<rparr>"
  obtain ps ch where sub: "Subscribe (svPubsub ?s1) name = (ps, ch)"
    by fastforce
  let ?s2 = "?s1\<lparr>svPubsub := ps\<rparr>"
  let ?x = "\<lambda>a. \<lparr>ssRole = Subscribed name ch, ssAlive = a\<rparr>"
  let ?w2 = "\<lambda>a. w\<lparr>rmServer := ?s2, rmSessions := ?x a # ?ss\<rparr>"
  have s2: "subscribe_open name ?s1 = (ch, WriteCommand [''subscribe'', name, ''1''], ?s2)"
    using sub by (simp add: subscribe_open_def)
  have "room_step L w ?w1"
    using assms by (intro room_step.accept) (simp add: accept_client_def)
  moreover have "room_step L ?w1 (?w2 True)"
    using room_step.subscribe [of ?w1 "[]" True ?ss name ch _ ?s2 L] s2 by simp
  moreover have "room_step L (?w2 True) (?w2 False)"
    using room_step.leave [of "?w2 True" "[]" "Subscribed name ch" ?ss L] by simp
  ultimately have "room_run L w (?w2 False)"
    by (auto simp: room_run_def)
  moreover have "\<forall>x \<in> set (?x False # ?ss). forgotten ?s2 x"
    using assms(1) Subscribe_facts [OF sub] by (auto simp: forgotten_def nth_append split: role.splits)
  ultimately show ?thesis
    by (intro exI [of _ "?w2 False"]) simp
qed

section \<open>Properties\<close>


definition demo_room :: room where
  "demo_room = \<lparr>rmServer = NewServer demo_config, rmSessions = [\<lparr>ssRole = Serving, ssAlive = True\<rparr>], rmFollows = False\<rparr>"


text \<open>
  C29: Subscribers that leave are not noticed. On a server that has a limit of clients and was not started as a replica, as
  many clients as the limit can connect, subscribe and leave, after which no connection is ever accepted
  again: every connection that is counted belongs to a client that is gone, and nobody is left to publish the
  message that would end it. (On a replica a message that comes from the master would.)
\<close>
theorem gone_subscribers_lock_server:
  assumes "0 < MaxClients (svConfig s)" "clients s = 0" "\<not> replicaMode s"
  shows "\<exists>w. room_run L (room_start s) w \<and>
           (\<forall>w'. room_run L w w' \<longrightarrow> fst (accept_client (rmServer w')) = False \<and> (\<forall>x \<in> set (rmSessions w'). \<not> ssAlive x))"
proof -
  let ?w0 = "room_start s"
  have start: "svConfig (rmServer ?w0) = svConfig s" "clients (rmServer ?w0) = 0" "rmSessions ?w0 = []" "\<not> rmFollows ?w0"
    using assms(2,3) by (simp_all add: room_start_def set_static_slots_def)
  have "\<exists>w. room_run L ?w0 w \<and> (\<forall>x \<in> set (rmSessions w). forgotten (rmServer w) x) \<and> \<not> rmFollows w \<and>
      svConfig (rmServer w) = svConfig s \<and> clients (rmServer w) = int k" if "int k \<le> MaxClients (svConfig s)" for k
    using that
  proof (induction k)
    case 0
    then show ?case
      using start by (intro exI [of _ ?w0]) (simp add: room_run_def)
  next
    case (Suc k)
    then obtain w where w: "room_run L ?w0 w" "\<forall>x \<in> set (rmSessions w). forgotten (rmServer w) x" "\<not> rmFollows w"
        "svConfig (rmServer w) = svConfig s" "clients (rmServer w) = int k"
      by auto
    then obtain w' where "room_run L w w'" "\<forall>x \<in> set (rmSessions w'). forgotten (rmServer w') x" "\<not> rmFollows w'"
        "svConfig (rmServer w') = svConfig s" "clients (rmServer w') = int (Suc k)"
      using one_more_forgotten [of w L] Suc.prems by auto
    then show ?case
      using w(1) by (intro exI [of _ w']) (simp add: room_run_def)
  qed
  from this [of "nat (MaxClients (svConfig s))"] obtain w where
    w: "room_run L ?w0 w" "locked w"
    using assms(1) by (auto simp: locked_def)
  moreover have "locked w' \<Longrightarrow> fst (accept_client (rmServer w')) = False \<and> (\<forall>x \<in> set (rmSessions w'). \<not> ssAlive x)" for w'
    by (auto simp: locked_def accept_client_def forgotten_def)
  ultimately show ?thesis
    using locked_run by blast
qed

theorem gone_subscribers_lock_server_witness:
  "\<exists>w. room_run ascii_golib (room_start (NewServer (demo_config\<lparr>MaxClients := 2\<rparr>))) w \<and>
     (\<forall>w'. room_run ascii_golib w w' \<longrightarrow> fst (accept_client (rmServer w')) = False \<and> (\<forall>x \<in> set (rmSessions w'). \<not> ssAlive x))"
  by (rule gone_subscribers_lock_server) (simp_all add: NewServer_def ValidateAndFill_def fill_defaults_def demo_config_def Let_def)

end
