(* ===== verification/Fas_Snapshot.thy ===== *)
theory Fas_Snapshot
  imports Fas_Server_Props
begin

text \<open>
  The snapshot file (\<^verbatim>\<open>pkg/persistence/snapshot.go\<close>): written to a temporary file, synced,
  closed and renamed into place. The file system has directory entries that name inodes, as
  the code relies on a rename that replaces an entry and on descriptors that outlive it. The code
  syncs the file and never the directory, so a change of the directory is not known to be on the
  disk: the earlier states of the directory are kept, and a crash may bring their entries back. A
  save is a machine whose step is one system call (the code is straight-line; the writes are the
  ones \<^verbatim>\<open>os.File.Write\<close> makes of the bytes it is given); the outcome of each call is
  an event, so a crash is the end of the events and two saves can be interleaved.

  \<^verbatim>\<open>encoding/gob\<close> is a pair of parameters: the bytes \<^verbatim>\<open>Encode\<close> writes for a list of
  entries, and \<^verbatim>\<open>Decode\<close>. The path functions of \<^verbatim>\<open>path/filepath\<close> are modelled for Unix.
\<close>

declare map_of_eq_Some_iff [simp del] Some_eq_map_of_iff [simp del]

section \<open>Paths\<close>

abbreviation slash :: char where "slash \<equiv> CHR 0x2F"

text \<open>\<^verbatim>\<open>filepath.Clean\<close>: the elements of a path, the last one first, with dots resolved.\<close>

fun clean_parts :: "bool \<Rightarrow> string list \<Rightarrow> string list \<Rightarrow> string list" where
  "clean_parts rooted st [] = st"
| "clean_parts rooted st (p # ps) =
     (if p = [] \<or> p = ''.'' then clean_parts rooted st ps
      else if p = ''..'' then
        (case st of
           [] \<Rightarrow> clean_parts rooted (if rooted then [] else [p]) ps
         | q # qs \<Rightarrow> clean_parts rooted (if q = ''..'' then p # st else qs) ps)
      else clean_parts rooted (p # st) ps)"

fun join_parts :: "string list \<Rightarrow> string" where
  "join_parts [] = []"
| "join_parts [p] = p"
| "join_parts (p # ps) = p @ slash # join_parts ps"

definition Clean :: "string \<Rightarrow> string" where
  "Clean path =
     (let rooted = (path \<noteq> [] \<and> hd path = slash);
          out = join_parts (rev (clean_parts rooted [] (split_on slash path)))
      in if rooted then slash # out else if out = [] then ''.'' else out)"

definition last_part :: "string \<Rightarrow> string" where
  "last_part path = rev (takeWhile (\<lambda>c. c \<noteq> slash) (rev path))"

definition strip_slashes :: "string \<Rightarrow> string" where
  "strip_slashes path = rev (dropWhile (\<lambda>c. c = slash) (rev path))"

definition Base :: "string \<Rightarrow> string" where
  "Base path =
     (if path = [] then ''.''
      else (let b = last_part (strip_slashes path) in if b = [] then [slash] else b))"

definition Dir :: "string \<Rightarrow> string" where
  "Dir path = Clean (take (length path - length (last_part path)) path)"

text \<open>\<^verbatim>\<open>filepath.Join\<close> of two elements of which neither is empty.\<close>

definition Join :: "string \<Rightarrow> string \<Rightarrow> string" where
  "Join d f = Clean (d @ slash # f)"

definition tmp_path :: "string \<Rightarrow> string" where
  "tmp_path path = Join (Dir path) (''.tmp-'' @ Base path)"

section \<open>The file system\<close>

record fnode =
  ndata :: bytes
  nsynced :: bool

text \<open>
  \<open>vdir\<close> is the directory as the processes see it, \<open>vpast\<close> the states of it since it was
  last known to be on the disk.
\<close>

record vfs =
  vdir :: "nat gomap"
  vnodes :: "fnode list"
  vpast :: "nat gomap list"

abbreviation vdirs :: "vfs \<Rightarrow> nat gomap list" where
  "vdirs fs \<equiv> vdir fs # vpast fs"

text \<open>Every change of the directory leaves the state before it among the past ones.\<close>

definition set_dir :: "nat gomap \<Rightarrow> vfs \<Rightarrow> vfs" where
  "set_dir d fs = fs\<lparr>vdir := d, vpast := vdir fs # vpast fs\<rparr>"

definition file_of :: "vfs \<Rightarrow> string \<Rightarrow> fnode option" where
  "file_of fs p = map_option (\<lambda>i. vnodes fs ! i) (map_of (vdir fs) p)"

text \<open>\<^verbatim>\<open>os.Create\<close>: an existing file is truncated and keeps its inode.\<close>

definition fs_create :: "string \<Rightarrow> vfs \<Rightarrow> nat \<times> vfs" where
  "fs_create p fs =
     (case map_of (vdir fs) p of
        Some i \<Rightarrow> (i, fs\<lparr>vnodes := (vnodes fs)[i := \<lparr>ndata = [], nsynced = False\<rparr>]\<rparr>)
      | None \<Rightarrow> (length (vnodes fs),
                 (set_dir (AList.update p (length (vnodes fs)) (vdir fs)) fs)
                   \<lparr>vnodes := vnodes fs @ [\<lparr>ndata = [], nsynced = False\<rparr>]\<rparr>))"

text \<open>A write at an offset of an open file; a gap before the offset reads as zero bytes.\<close>

definition splice :: "nat \<Rightarrow> bytes \<Rightarrow> bytes \<Rightarrow> bytes" where
  "splice off new old =
     take off old @ replicate (off - length old) (CHR 0x00) @ new @ drop (off + length new) old"

definition fs_write :: "nat \<Rightarrow> nat \<Rightarrow> bytes \<Rightarrow> vfs \<Rightarrow> vfs" where
  "fs_write i off bs fs =
     fs\<lparr>vnodes := (vnodes fs)[i := \<lparr>ndata = splice off bs (ndata (vnodes fs ! i)), nsynced = False\<rparr>]\<rparr>"

definition fs_sync :: "nat \<Rightarrow> vfs \<Rightarrow> vfs" where
  "fs_sync i fs = fs\<lparr>vnodes := (vnodes fs)[i := (vnodes fs ! i)\<lparr>nsynced := True\<rparr>]\<rparr>"

definition fs_remove :: "string \<Rightarrow> vfs \<Rightarrow> vfs" where
  "fs_remove p fs = set_dir (AList.delete p (vdir fs)) fs"

definition fs_rename :: "string \<Rightarrow> string \<Rightarrow> vfs \<Rightarrow> string option \<times> vfs" where
  "fs_rename a b fs =
     (case map_of (vdir fs) a of
        None \<Rightarrow> (Some ''no such file or directory'', fs)
      | Some i \<Rightarrow> (None, set_dir (AList.update b i (AList.delete a (vdir fs))) fs))"

text \<open>
  What a crash may leave: contents that were not synced are arbitrary, and each name has, on its own,
  an entry of the directory or of one of its past states.
\<close>

definition after_crash :: "vfs \<Rightarrow> vfs \<Rightarrow> bool" where
  "after_crash fs fs' \<longleftrightarrow>
     (\<forall>p. map_of (vdir fs') p \<in> (\<lambda>d. map_of d p) ` set (vdirs fs)) \<and> vpast fs' = [] \<and>
     length (vnodes fs') = length (vnodes fs) \<and>
     (\<forall>i < length (vnodes fs). nsynced (vnodes fs ! i) \<longrightarrow> vnodes fs' ! i = vnodes fs ! i)"

section \<open>Saving and loading\<close>

text \<open>
  The outcome of a system call. A write that succeeds takes one byte or more, and an encoding error
  or a failing write ends the writing wherever it occurs.
\<close>

datatype event = Okay nat | Fail string

datatype phase =
    Creating
  | Writing nat nat
  | Closing nat
  | Renaming
  | Removing string
  | Finished "string option"

definition save_step :: "bytes \<Rightarrow> string \<Rightarrow> event \<Rightarrow> phase \<times> vfs \<Rightarrow> phase \<times> vfs" where
  "save_step content path ev st =
     (let tmp = tmp_path path; fs = snd st in
      case fst st of
        Creating \<Rightarrow>
          (case ev of
             Fail e \<Rightarrow> (Finished (Some e), fs)
           | Okay _ \<Rightarrow> (let (i, fs') = fs_create tmp fs in (Writing i 0, fs')))
      | Writing i off \<Rightarrow>
          (case ev of
             Fail e \<Rightarrow> (Removing e, fs)
           | Okay n \<Rightarrow>
               if off < length content
               then (let chunk = take (Suc n) (drop off content)
                     in (Writing i (off + length chunk), fs_write i off chunk fs))
               else (Closing i, fs_sync i fs))
      | Closing i \<Rightarrow> (case ev of Fail e \<Rightarrow> (Finished (Some e), fs) | Okay _ \<Rightarrow> (Renaming, fs))
      | Renaming \<Rightarrow>
          (case ev of
             Fail e \<Rightarrow> (Finished (Some e), fs)
           | Okay _ \<Rightarrow> (let (r, fs') = fs_rename tmp path fs in (Finished r, fs')))
      | Removing e \<Rightarrow>
          (case ev of
             Fail _ \<Rightarrow> (Finished (Some e), fs)
           | Okay _ \<Rightarrow> (Finished (Some e), fs_remove tmp fs))
      | Finished r \<Rightarrow> (Finished r, fs))"

fun save_run :: "bytes \<Rightarrow> string \<Rightarrow> event list \<Rightarrow> phase \<times> vfs \<Rightarrow> phase \<times> vfs" where
  "save_run content path [] st = st"
| "save_run content path (ev # evs) st = save_run content path evs (save_step content path ev st)"

definition SaveSnapshot ::
  "(SnapshotEntry list \<Rightarrow> bytes) \<Rightarrow> string \<Rightarrow> SnapshotEntry list \<Rightarrow> event list \<Rightarrow> vfs \<Rightarrow> phase \<times> vfs"
where
  "SaveSnapshot enc path entries evs fs = save_run (enc entries) path evs (Creating, fs)"

definition LoadSnapshot ::
  "(bytes \<Rightarrow> string + SnapshotEntry list) \<Rightarrow> string \<Rightarrow> vfs \<Rightarrow> string + SnapshotEntry list"
where
  "LoadSnapshot decode path fs =
     (case file_of fs path of None \<Rightarrow> Inl ''no such file or directory'' | Some f \<Rightarrow> decode (ndata f))"

section \<open>The temporary file is another file\<close>

lemma split_on_nonempty: "split_on c s \<noteq> []"
  by (induction s) (auto split: list.split)

lemma split_on_last: "c \<notin> set f \<Longrightarrow> split_on c (s @ c # f) = split_on c s @ [f]"
proof (induction s)
  case (Cons x s)
  then show ?case
    using split_on_nonempty [of c s] by (cases "split_on c s") auto
qed (simp add: split_on_plain)

lemma clean_parts_append: "clean_parts r st (xs @ ys) = clean_parts r (clean_parts r st xs) ys"
  by (induction r st xs rule: clean_parts.induct) (auto split: list.split)

lemma join_parts_last: "\<exists>pre. join_parts (xs @ [f]) = pre @ f \<and> (pre = [] \<or> last pre = slash)"
proof (induction xs rule: join_parts.induct)
  case (3 p q ps)
  then obtain pre where pre: "join_parts ((q # ps) @ [f]) = pre @ f" "pre = [] \<or> last pre = slash"
    by blast
  then show ?case
    by (intro exI [of _ "p @ slash # pre"]) auto
qed (auto intro: exI [of _ "_ @ [slash]"])

lemma Base_last:
  assumes "f \<noteq> []" "slash \<notin> set f" "pre = [] \<or> last pre = slash"
  shows "Base (pre @ f) = f"
proof -
  have "dropWhile (\<lambda>c. c = slash) (rev f @ rev pre) = rev f @ rev pre"
    using assms(1,2) by (cases f rule: rev_cases) auto
  moreover have "takeWhile (\<lambda>c. c \<noteq> slash) (rev f @ rev pre) = rev f"
    using assms(2,3) by (cases pre rule: rev_cases) (auto simp: takeWhile_append takeWhile_eq_all_conv)
  ultimately show ?thesis
    using assms(1) by (simp add: Base_def strip_slashes_def last_part_def)
qed

lemma Clean_ends:
  assumes "\<And>r. \<exists>xs. rev (clean_parts r [] (split_on slash p)) = xs @ [f]" "f \<noteq> []"
  shows "\<exists>pre. Clean p = pre @ f \<and> (pre = [] \<or> last pre = slash)"
proof -
  define r where "r = (p \<noteq> [] \<and> hd p = slash)"
  define out where "out = join_parts (rev (clean_parts r [] (split_on slash p)))"
  obtain pre where pre: "out = pre @ f" "pre = [] \<or> last pre = slash"
    using assms(1) [of r] join_parts_last unfolding out_def by metis
  moreover have "Clean p = (if r then slash # out else if out = [] then ''.'' else out)"
    unfolding Clean_def r_def [symmetric] Let_def out_def [symmetric] ..
  ultimately show ?thesis
    using assms(2) by (cases r) (auto intro: exI [of _ "slash # pre"])
qed

lemma Base_Join:
  assumes "f \<noteq> []" "f \<noteq> ''.''" "f \<noteq> ''..''" "slash \<notin> set f"
  shows "Base (Join d f) = f"
proof -
  obtain pre where "Join d f = pre @ f" "pre = [] \<or> last pre = slash"
    using Clean_ends [of "d @ slash # f" f] assms unfolding Join_def
    by (auto simp: split_on_last clean_parts_append)
  then show ?thesis
    using Base_last [OF assms(1,4)] by metis
qed

lemma last_part_no_slash: "slash \<notin> set (last_part p)"
  by (auto simp: last_part_def dest: set_takeWhileD)

lemma Base_slash:
  assumes "slash \<in> set (Base path)"
  shows "Base path = [slash] \<and> set path \<subseteq> {slash}"
proof -
  have path: "path \<noteq> []" "last_part (strip_slashes path) = []"
    using assms last_part_no_slash [of "strip_slashes path"] by (auto simp: Base_def Let_def split: if_splits)
  then have "takeWhile (\<lambda>c. c \<noteq> slash) (dropWhile (\<lambda>c. c = slash) (rev path)) = []"
    by (simp add: last_part_def strip_slashes_def)
  then have "dropWhile (\<lambda>c. c = slash) (rev path) = []"
    by (metis (mono_tags, lifting) hd_dropWhile list.exhaust_sel takeWhile.simps(2) list.distinct(1))
  then show ?thesis
    using path by (auto simp: Base_def Let_def)
qed

lemma tmp_path_other: "tmp_path path \<noteq> path"
proof (cases "slash \<in> set (Base path)")
  case False
  have "Base path \<noteq> []"
    by (simp add: Base_def Let_def)
  then have "Base (tmp_path path) = ''.tmp-'' @ Base path"
    using False unfolding tmp_path_def by (intro Base_Join) auto
  then show ?thesis
    by (metis append_self_conv2 list.distinct(1))
next
  case True
  then have b: "Base path = [slash]" "set path \<subseteq> {slash}"
    using Base_slash by blast+
  have "split_on slash (Dir path @ slash # ''.tmp-'' @ [slash]) = split_on slash (Dir path) @ [''.tmp-'', []]"
    using split_on_last [of slash "[]" "Dir path @ slash # ''.tmp-''"] split_on_last [of slash "''.tmp-''" "Dir path"]
    by simp
  then have "\<exists>pre. tmp_path path = pre @ ''.tmp-'' \<and> (pre = [] \<or> last pre = slash)"
    unfolding tmp_path_def Join_def b(1) by (intro Clean_ends) (simp_all add: clean_parts_append)
  then have "CHR ''t'' \<in> set (tmp_path path)"
    by auto
  then show ?thesis
    using b(2) by auto
qed

section \<open>The invariant of a save\<close>

text \<open>The files a name may have after a crash, by the directory and its past states.\<close>

definition crash_files :: "string \<Rightarrow> vfs \<Rightarrow> fnode option set" where
  "crash_files p fs = (\<lambda>d. map_option (\<lambda>i. vnodes fs ! i) (map_of d p)) ` set (vdirs fs)"

definition vfs_ok :: "vfs \<Rightarrow> bool" where
  "vfs_ok fs \<longleftrightarrow> (\<forall>d \<in> set (vdirs fs). \<forall>p i. map_of d p = Some i \<longrightarrow> i < length (vnodes fs))"

text \<open>The temporary name is free or names a file of its own.\<close>

definition tmp_apart :: "string \<Rightarrow> vfs \<Rightarrow> bool" where
  "tmp_apart path fs \<longleftrightarrow>
     (\<forall>d \<in> set (vdirs fs). map_of (vdir fs) (tmp_path path) = None \<or>
        map_of (vdir fs) (tmp_path path) \<noteq> map_of d path)"

definition tmp_holds :: "string \<Rightarrow> nat \<Rightarrow> fnode \<Rightarrow> vfs \<Rightarrow> bool" where
  "tmp_holds path i f fs \<longleftrightarrow> map_of (vdir fs) (tmp_path path) = Some i \<and> vnodes fs ! i = f"

text \<open>\<open>f\<close> is the file at the path, \<open>F\<close> the files it may be after a crash.\<close>

definition fs_inv :: "string \<Rightarrow> fnode option \<Rightarrow> fnode option set \<Rightarrow> vfs \<Rightarrow> bool" where
  "fs_inv path f F fs \<longleftrightarrow>
     vfs_ok fs \<and> tmp_apart path fs \<and> file_of fs path = f \<and> crash_files path fs = F"

definition save_inv ::
  "bytes \<Rightarrow> string \<Rightarrow> fnode option \<Rightarrow> fnode option set \<Rightarrow> phase \<times> vfs \<Rightarrow> bool"
where
  "save_inv content path old F st \<longleftrightarrow>
     (let whole = \<lparr>ndata = content, nsynced = True\<rparr>; fs = snd st in
      case fst st of
        Writing i off \<Rightarrow> fs_inv path old F fs \<and> off \<le> length content \<and>
          (\<exists>sy. tmp_holds path i \<lparr>ndata = take off content, nsynced = sy\<rparr> fs)
      | Closing i \<Rightarrow> fs_inv path old F fs \<and> tmp_holds path i whole fs
      | Renaming \<Rightarrow> fs_inv path old F fs \<and> (\<exists>i. tmp_holds path i whole fs)
      | Finished None \<Rightarrow> fs_inv path (Some whole) (insert (Some whole) F) fs
      | _ \<Rightarrow> fs_inv path old F fs)"

lemma set_dir_simps [simp]:
  "vdir (set_dir d fs) = d" "vpast (set_dir d fs) = vdir fs # vpast fs" "vnodes (set_dir d fs) = vnodes fs"
  by (simp_all add: set_dir_def)

lemma splice_append: "splice (length old) new old = old @ new"
  by (simp add: splice_def)

text \<open>Changing the inode of the temporary file leaves every other name alone.\<close>

lemma node_update:
  assumes "fs_inv path old F fs" "map_of (vdir fs) (tmp_path path) = Some i"
  shows "fs_inv path old F (fs\<lparr>vnodes := (vnodes fs)[i := f]\<rparr>)" (is "fs_inv path old F ?fs'")
    and "tmp_holds path i f (fs\<lparr>vnodes := (vnodes fs)[i := f]\<rparr>)"
proof -
  have fs: "vfs_ok fs" "tmp_apart path fs" "i < length (vnodes fs)"
    using assms by (auto simp: fs_inv_def vfs_ok_def)
  have same: "map_option (\<lambda>j. vnodes ?fs' ! j) (map_of d path) = map_option (\<lambda>j. vnodes fs ! j) (map_of d path)"
    if "d \<in> set (vdirs fs)" for d
    using fs assms(2) that by (auto simp: tmp_apart_def map_option_case nth_list_update split: option.split)
  have "file_of ?fs' path = file_of fs path"
    using same [of "vdir fs"] by (simp add: file_of_def)
  moreover have "crash_files path ?fs' = crash_files path fs"
    unfolding crash_files_def by (intro image_cong) (use same in \<open>auto simp del: set_simps\<close>)
  ultimately show "fs_inv path old F ?fs'"
    using assms(1) by (simp add: fs_inv_def vfs_ok_def tmp_apart_def)
  show "tmp_holds path i f ?fs'"
    using assms(2) fs(3) by (simp add: tmp_holds_def)
qed

text \<open>Neither does a change of the directory that keeps the entry of the path.\<close>

lemma dir_update:
  assumes inv: "fs_inv path old F fs" and entry: "map_of d path = map_of (vdir fs) path"
    and range: "\<And>p j. map_of d p = Some j \<Longrightarrow> j < length (vnodes fs @ new)"
    and apart: "\<And>j. map_of d (tmp_path path) = Some j \<Longrightarrow> j = length (vnodes fs)"
  shows "fs_inv path old F ((set_dir d fs)\<lparr>vnodes := vnodes fs @ new\<rparr>)" (is "fs_inv path old F ?fs'")
proof -
  have ok: "j < length (vnodes fs)" if "map_of d' p = Some j" "d' \<in> set (vdirs fs)" for p j d'
    using inv that by (auto simp: fs_inv_def vfs_ok_def)
  have same: "map_option (\<lambda>j. (vnodes fs @ new) ! j) (map_of d' path) = map_option (\<lambda>j. vnodes fs ! j) (map_of d' path)"
    if "d' \<in> set (vdirs fs)" for d'
    using ok [OF _ that] by (auto simp: map_option_case nth_append split: option.split)
  have "vfs_ok ?fs'"
    using range ok by (auto simp: vfs_ok_def less_Suc_eq intro: trans_less_add1)
  moreover have "tmp_apart path ?fs'"
    using apart ok entry by (fastforce simp: tmp_apart_def)
  moreover have "file_of ?fs' path = old"
    using inv same [of "vdir fs"] by (simp add: fs_inv_def file_of_def entry)
  moreover have "crash_files path ?fs' = crash_files path fs"
    using same by (auto simp: crash_files_def entry image_iff)
  ultimately show ?thesis
    using inv by (simp add: fs_inv_def)
qed

lemma fs_create_laws:
  assumes inv: "fs_inv path old F fs" and create: "fs_create (tmp_path path) fs = (i, fs')"
  shows "fs_inv path old F fs'" "tmp_holds path i \<lparr>ndata = [], nsynced = False\<rparr> fs'"
proof -
  let ?n = "length (vnodes fs)" and ?new = "\<lparr>ndata = [], nsynced = False\<rparr>"
  have "fs_inv path old F fs' \<and> tmp_holds path i ?new fs'"
  proof (cases "map_of (vdir fs) (tmp_path path)")
    case (Some j)
    then show ?thesis
      using create node_update [OF inv Some, of ?new] by (auto simp: fs_create_def)
  next
    case None
    have fs': "i = ?n" "fs' = (set_dir (AList.update (tmp_path path) ?n (vdir fs)) fs)\<lparr>vnodes := vnodes fs @ [?new]\<rparr>"
      using None create by (auto simp: fs_create_def)
    have "j < ?n" if "map_of (vdir fs) p = Some j" for p j
      using inv that by (auto simp: fs_inv_def vfs_ok_def)
    then show ?thesis
      using tmp_path_other [of path] unfolding fs'
      by (intro conjI dir_update inv) (auto simp: tmp_holds_def update_conv' less_SucI split: if_splits)
  qed
  then show "fs_inv path old F fs'" "tmp_holds path i ?new fs'"
    by blast+
qed

lemma fs_remove_inv:
  assumes "fs_inv path old F fs"
  shows "fs_inv path old F (fs_remove (tmp_path path) fs)"
proof -
  let ?d = "AList.delete (tmp_path path) (vdir fs)"
  have "fs_inv path old F ((set_dir ?d fs)\<lparr>vnodes := vnodes fs @ []\<rparr>)"
    by (rule dir_update [OF assms])
      (use assms tmp_path_other [of path] in \<open>auto simp: delete_conv' fs_inv_def vfs_ok_def split: if_splits\<close>)
  then show ?thesis
    by (simp add: fs_remove_def set_dir_def)
qed

lemma fs_rename_laws:
  assumes "fs_inv path old F fs" "tmp_holds path i f fs"
  shows "\<exists>fs'. fs_rename (tmp_path path) path fs = (None, fs') \<and> fs_inv path (Some f) (insert (Some f) F) fs'"
  using assms tmp_path_other [of path]
  by (auto simp: fs_inv_def fs_rename_def tmp_holds_def vfs_ok_def tmp_apart_def file_of_def crash_files_def
      update_conv' delete_conv' split: if_splits)

lemma write_step:
  assumes inv: "fs_inv path old F fs" "off \<le> length content"
    and tmp: "tmp_holds path i \<lparr>ndata = take off content, nsynced = sy\<rparr> fs"
  shows "save_inv content path old F (save_step content path (Okay n) (Writing i off, fs))"
proof (cases "off < length content")
  case True
  let ?c = "take (Suc n) (drop off content)"
  have i: "map_of (vdir fs) (tmp_path path) = Some i" "ndata (vnodes fs ! i) = take off content"
    using tmp by (auto simp: tmp_holds_def)
  have "take off content @ ?c = take (off + length ?c) content"
    by (metis append_take_drop_id length_take min.cobounded1 nat_le_linear take_add take_all take_take length_drop min_def)
  then have "splice off ?c (take off content) = take (off + length ?c) content"
    using splice_append [of "take off content" ?c] inv(2) by (simp add: min_absorb2)
  then show ?thesis
    using True node_update [OF inv(1) i(1)] i(2) inv(2)
    by (auto simp: save_inv_def save_step_def Let_def fs_write_def)
next
  case False
  then have "tmp_holds path i \<lparr>ndata = content, nsynced = sy\<rparr> fs"
    using tmp by simp
  then show ?thesis
    using False node_update [OF inv(1), of i "\<lparr>ndata = content, nsynced = True\<rparr>"]
    by (simp add: save_inv_def save_step_def fs_sync_def tmp_holds_def)
qed

lemma save_step_inv:
  assumes "save_inv content path old F (ph, fs)"
  shows "save_inv content path old F (save_step content path ev (ph, fs))"
proof (cases ph)
  case Creating
  then show ?thesis
    using assms fs_create_laws [of path old F fs]
    by (cases ev; cases "fs_create (tmp_path path) fs") (auto simp: save_inv_def save_step_def Let_def)
next
  case (Writing i off)
  then show ?thesis
    using assms write_step [of path old F fs off content i] by (cases ev) (auto simp: save_inv_def save_step_def Let_def)
next
  case Renaming
  then obtain i where "tmp_holds path i \<lparr>ndata = content, nsynced = True\<rparr> fs" "fs_inv path old F fs"
    using assms by (auto simp: save_inv_def Let_def)
  moreover from this obtain fs' where "fs_rename (tmp_path path) path fs = (None, fs')"
      "fs_inv path (Some \<lparr>ndata = content, nsynced = True\<rparr>) (insert (Some \<lparr>ndata = content, nsynced = True\<rparr>) F) fs'"
    using fs_rename_laws by blast
  ultimately show ?thesis
    using Renaming by (cases ev) (auto simp: save_inv_def save_step_def)
next
  case (Removing e)
  then show ?thesis
    using assms fs_remove_inv [of path old F fs] by (cases ev) (simp_all add: save_inv_def save_step_def)
next
  case (Closing i)
  then show ?thesis
    using assms by (cases ev) (auto simp: save_inv_def save_step_def Let_def)
qed (use assms in \<open>simp add: save_step_def\<close>)

lemma save_run_inv: "save_inv content path old F st \<Longrightarrow> save_inv content path old F (save_run content path evs st)"
proof (induction evs arbitrary: st)
  case (Cons ev evs)
  then show ?case
    using save_step_inv [of content path old F "fst st" "snd st" ev] by simp
qed simp

lemma save_run_append: "save_run content path (xs @ ys) st = save_run content path ys (save_run content path xs st)"
  by (induction xs arbitrary: st) simp_all

lemma SaveSnapshot_inv:
  assumes "vfs_ok fs" "tmp_apart path fs"
  shows "save_inv (enc entries) path (file_of fs path) (crash_files path fs) (SaveSnapshot enc path entries evs fs)"
  unfolding SaveSnapshot_def by (rule save_run_inv) (simp add: save_inv_def fs_inv_def assms)

text \<open>What a save leaves at the path, and what a crash after it may leave there.\<close>

lemma save_file:
  assumes "vfs_ok fs" "tmp_apart path fs" "SaveSnapshot enc path entries evs fs = (ph, fs')"
  shows "vfs_ok fs' \<and>
    file_of fs' path = (if ph = Finished None then Some \<lparr>ndata = enc entries, nsynced = True\<rparr> else file_of fs path) \<and>
    crash_files path fs' = crash_files path fs \<union>
      (if ph = Finished None then {Some \<lparr>ndata = enc entries, nsynced = True\<rparr>} else {})"
  using SaveSnapshot_inv [OF assms(1,2), of enc entries evs] assms(3)
  by (auto simp: save_inv_def fs_inv_def Let_def split: phase.splits option.splits)

lemma crash_file:
  assumes "after_crash fs fs'" "vfs_ok fs" "\<And>f. Some f \<in> crash_files p fs \<Longrightarrow> nsynced f"
  shows "file_of fs' p \<in> crash_files p fs"
proof -
  obtain d where d: "d \<in> set (vdirs fs)" "map_of (vdir fs') p = map_of d p"
    using assms(1) by (auto simp: after_crash_def simp del: set_simps)
  show ?thesis
  proof (cases "map_of d p")
    case None
    then show ?thesis
      using d by (force simp: file_of_def crash_files_def simp del: set_simps)
  next
    case (Some i)
    then have in_files: "Some (vnodes fs ! i) \<in> crash_files p fs" and "i < length (vnodes fs)"
      using d(1) assms(2) by (force simp: crash_files_def vfs_ok_def simp del: set_simps)+
    then have "vnodes fs' ! i = vnodes fs ! i"
      using assms(1,3) by (simp add: after_crash_def)
    then show ?thesis
      using in_files Some d(2) by (simp add: file_of_def)
  qed
qed

lemma crash_file_possible:
  assumes "f \<in> crash_files p fs"
  shows "\<exists>fs'. after_crash fs fs' \<and> file_of fs' p = f"
proof -
  obtain d where "d \<in> set (vdirs fs)" "f = map_option (\<lambda>i. vnodes fs ! i) (map_of d p)"
    using assms by (auto simp: crash_files_def simp del: set_simps)
  then show ?thesis
    by (intro exI [of _ "fs\<lparr>vdir := d, vpast := []\<rparr>"]) (auto simp: after_crash_def file_of_def)
qed

text \<open>As long as no call fails, a save does not come to report an error.\<close>

definition failing :: "phase \<Rightarrow> bool" where
  "failing ph = (case ph of Removing _ \<Rightarrow> True | Finished r \<Rightarrow> r \<noteq> None | _ \<Rightarrow> False)"

lemma okay_step:
  assumes "save_inv content path old F st" "\<not> failing (fst st)"
  shows "\<not> failing (fst (save_step content path (Okay n) st))"
  using assms
  by (cases "fst st")
    (auto simp: failing_def save_step_def save_inv_def Let_def tmp_holds_def fs_rename_def split: prod.split)

lemma okay_run:
  "save_inv content path old F st \<Longrightarrow> \<not> failing (fst st) \<Longrightarrow>
     \<not> failing (fst (save_run content path (map Okay ns) st))"
proof (induction ns arbitrary: st)
  case (Cons n ns)
  then show ?case
    using save_step_inv [of content path old F "fst st" "snd st"] okay_step by simp
qed simp

section \<open>Two saves at once\<close>

text \<open>\<^verbatim>\<open>SAVE\<close> on two connections, or \<^verbatim>\<open>SAVE\<close> beside a running \<^verbatim>\<open>BGSAVE\<close>: nothing orders their calls.\<close>

fun both_run :: "bytes \<Rightarrow> bytes \<Rightarrow> string \<Rightarrow> (bool \<times> event) list \<Rightarrow> phase \<times> phase \<times> vfs \<Rightarrow> phase \<times> phase \<times> vfs" where
  "both_run ca cb path [] st = st"
| "both_run ca cb path ((first, ev) # evs) (a, b, fs) =
     both_run ca cb path evs
       (if first then (let (a', fs') = save_step ca path ev (a, fs) in (a', b, fs'))
        else (let (b', fs') = save_step cb path ev (b, fs) in (a, b', fs')))"

section \<open>Properties\<close>

definition snapshot_file :: "bytes \<Rightarrow> fnode" where
  "snapshot_file content = \<lparr>ndata = content, nsynced = True\<rparr>"

text \<open>The snapshot argument of \<^verbatim>\<open>restoreData\<close>: \<^verbatim>\<open>os.Stat\<close>, then \<^verbatim>\<open>LoadSnapshot\<close>.\<close>

definition snapshot_arg ::
  "(bytes \<Rightarrow> string + SnapshotEntry list) \<Rightarrow> string \<Rightarrow> vfs \<Rightarrow> (string + SnapshotEntry list) option"
where
  "snapshot_arg decode path fs =
     (if file_of fs path = None then None else Some (LoadSnapshot decode path fs))"

text \<open>
  C9: A save is atomic, and not durable. Cut it off after any of its system calls, whatever
  their outcomes. The running system finds the new entries at the path if the save had
  succeeded and what it found before otherwise. After a crash that loses or garbles
  every content that was not synced, and takes back any change of the directory, what a start finds is
  exactly what a crash before the save could have left (an older snapshot or none at all), or, if the save had
  succeeded, the new entries: never a mixture and never a file that cannot be read. But a save that was reported as done
  can be undone, since the directory is not synced after the rename.
\<close>
theorem snapshot_save_atomic:
  assumes fs: "vfs_ok fs" "tmp_apart path fs" "crash_files path fs = map_option (\<lambda>es. snapshot_file (enc es)) ` olds"
    and gob: "\<And>es. Some es \<in> insert (Some entries) olds \<Longrightarrow> decode (enc es) = Inr es"
    and run: "SaveSnapshot enc path entries evs fs = (ph, fs')"
  shows "snapshot_arg decode path fs'
           = (if ph = Finished None then Some (Inr entries) else snapshot_arg decode path fs) \<and>
         {snapshot_arg decode path fs'' | fs''. after_crash fs' fs''}
           = map_option Inr ` (olds \<union> (if ph = Finished None then {Some entries} else {}))"
proof
  let ?file = "map_option (\<lambda>es. snapshot_file (enc es))"
  let ?all = "olds \<union> (if ph = Finished None then {Some entries} else {})"
  note saved = save_file [OF fs(1,2) run]
  have files: "crash_files path fs' = ?file ` ?all"
    using saved fs(3) by (auto simp: snapshot_file_def)
  have arg: "snapshot_arg decode path g = map_option Inr x" if "file_of g path = ?file x" "x \<in> ?all" for g x
    using that gob by (cases x) (auto simp: snapshot_arg_def LoadSnapshot_def snapshot_file_def split: if_splits)
  show "snapshot_arg decode path fs' = (if ph = Finished None then Some (Inr entries) else snapshot_arg decode path fs)"
    using saved gob [of entries] by (simp add: snapshot_arg_def LoadSnapshot_def)
  have "snapshot_arg decode path fs'' \<in> map_option Inr ` ?all" if "after_crash fs' fs''" for fs''
  proof -
    have "file_of fs'' path \<in> crash_files path fs'"
      by (rule crash_file [OF that conjunct1 [OF saved]]) (unfold files, auto simp: snapshot_file_def eq_commute [of "Some f" for f])
    then obtain x where "file_of fs'' path = ?file x" "x \<in> ?all"
      unfolding files by (rule imageE)
    then show ?thesis
      using arg by blast
  qed
  moreover have "\<exists>fs''. map_option Inr x = snapshot_arg decode path fs'' \<and> after_crash fs' fs''" if "x \<in> ?all" for x
  proof -
    have "?file x \<in> crash_files path fs'"
      unfolding files using that by (rule imageI)
    then obtain fs'' where "after_crash fs' fs''" "file_of fs'' path = ?file x"
      using crash_file_possible by blast
    then show ?thesis
      using arg [of fs'' x] that by (intro exI [of _ fs'']) simp
  qed
  ultimately show "{snapshot_arg decode path fs'' | fs''. after_crash fs' fs''} = map_option Inr ` ?all"
    by blast
qed

definition demo_enc :: "SnapshotEntry list \<Rightarrow> bytes" where
  "demo_enc es = concat (map (\<lambda>e. WriteCommand [''E'', seKey e, seValue e, dec_int (seExpiresAt e)]) es)"

definition demo_decode :: "bytes \<Rightarrow> string + SnapshotEntry list" where
  "demo_decode bs =
     (case ReadCommands ascii_golib bs of
        Ret (cmds, None) \<Rightarrow>
          Inr (map (\<lambda>c. \<lparr>seKey = cArgs c ! 0, seValue = cArgs c ! 1, seType = TypeString,
                         seExpiresAt = (case ParseInt (cArgs c ! 2) of Some t \<Rightarrow> t | None \<Rightarrow> 0)\<rparr>) cmds)
      | _ \<Rightarrow> Inl ''corrupt'')"

definition demo_entry :: SnapshotEntry where
  "demo_entry = \<lparr>seKey = ''k'', seValue = ''v'', seType = TypeString, seExpiresAt = 7\<rparr>"

definition demo_fs :: vfs where
  "demo_fs = \<lparr>vdir = [(''dump.rdb'', 0)], vnodes = [snapshot_file (demo_enc [])], vpast = []\<rparr>"

lemma demo_fs_ok: "vfs_ok demo_fs" "tmp_apart ''dump.rdb'' demo_fs" "tmp_path ''dump.rdb'' = ''.tmp-dump.rdb''"
proof -
  show "tmp_path ''dump.rdb'' = ''.tmp-dump.rdb''"
    by code_simp
  then show "tmp_apart ''dump.rdb'' demo_fs"
    by (simp add: tmp_apart_def demo_fs_def)
qed (simp add: vfs_ok_def demo_fs_def)

theorem snapshot_save_atomic_witness:
  "\<exists>fs'. SaveSnapshot demo_enc ''dump.rdb'' [demo_entry] [Okay 0, Okay 40, Okay 0, Okay 0, Okay 0] demo_fs
      = (Finished None, fs') \<and>
     snapshot_arg demo_decode ''dump.rdb'' fs' = Some (Inr [demo_entry]) \<and>
     {snapshot_arg demo_decode ''dump.rdb'' fs'' | fs''. after_crash fs' fs''} = {Some (Inr []), Some (Inr [demo_entry])}"
proof -
  let ?r = "SaveSnapshot demo_enc ''dump.rdb'' [demo_entry] [Okay 0, Okay 40, Okay 0, Okay 0, Okay 0] demo_fs"
  have r: "fst ?r = Finished None"
    by code_simp
  have gob: "demo_decode (demo_enc []) = Inr []" "demo_decode (demo_enc [demo_entry]) = Inr [demo_entry]"
    by code_simp+
  have "snapshot_arg demo_decode ''dump.rdb'' (snd ?r)
        = (if fst ?r = Finished None then Some (Inr [demo_entry]) else snapshot_arg demo_decode ''dump.rdb'' demo_fs) \<and>
      {snapshot_arg demo_decode ''dump.rdb'' fs'' | fs''. after_crash (snd ?r) fs''}
        = map_option Inr ` ({Some []} \<union> (if fst ?r = Finished None then {Some [demo_entry]} else {}))"
    by (rule snapshot_save_atomic [where enc = demo_enc and fs = demo_fs, OF demo_fs_ok(1,2)])
      (use gob in \<open>auto simp: crash_files_def demo_fs_def\<close>)
  then show ?thesis
    using r by (intro exI [of _ "snd ?r"]) (auto simp: prod_eq_iff)
qed


definition demo_saver :: server where
  "demo_saver = (NewServer (demo_config\<lparr>RDBPath := ''dump.rdb''\<rparr>))\<lparr>svStore := demo EvictionNoEviction\<rparr>"

definition demo_save_env :: env where
  "demo_save_env = demo_env\<lparr>eOrd := [''b'', ''a'']\<rparr>"

definition demo_entries :: "SnapshotEntry list" where
  "demo_entries = [\<lparr>seKey = ''b'', seValue = ''y'', seType = TypeString, seExpiresAt = 0\<rparr>,
                   \<lparr>seKey = ''a'', seValue = ''x'', seType = TypeString, seExpiresAt = 0\<rparr>]"


text \<open>
  C39: What a failed save leaves. If the calls up to some point succeed and the next one fails, the
  save reports that error and the file at the path is the one of before. A file
  that cannot be created changes nothing; after a failed write or sync the temporary file is
  removed; after a failed close or rename it stays behind, with the whole snapshot in it.
\<close>
theorem save_reports_failure:
  assumes fs: "vfs_ok fs" "tmp_apart path fs"
    and run: "SaveSnapshot enc path entries (map Okay ns) fs = (ph, fs1)" "\<nexists>r. ph = Finished r"
    and fail: "SaveSnapshot enc path entries (map Okay ns @ Fail e # Okay n # evs) fs = (ph', fs')"
  shows "ph' = Finished (Some e) \<and> file_of fs' path = file_of fs path \<and>
         file_of fs' (tmp_path path) =
           (case ph of
              Creating \<Rightarrow> file_of fs1 (tmp_path path)
            | Writing i off \<Rightarrow> None
            | _ \<Rightarrow> Some (snapshot_file (enc entries)))"
proof -
  have inv: "save_inv (enc entries) path (file_of fs path) (crash_files path fs) (ph, fs1)"
    using SaveSnapshot_inv [OF fs, of enc entries "map Okay ns"] run(1) by simp
  have "\<not> failing (fst (SaveSnapshot enc path entries (map Okay ns) fs))"
    unfolding SaveSnapshot_def
    by (rule okay_run [of _ path "file_of fs path" "crash_files path fs"])
      (simp_all add: save_inv_def fs_inv_def fs failing_def)
  then have ph: "\<nexists>e. ph = Removing e"
    using run(1) by (auto simp: failing_def)
  have stop: "save_run c path es (Finished r, g) = (Finished r, g)" for c es r g
    by (induction es) (simp_all add: save_step_def)
  have "save_run (enc entries) path (Fail e # Okay n # evs) (ph, fs1) = (ph', fs')"
    using fail run(1) by (simp add: SaveSnapshot_def save_run_append)
  moreover have "file_of (fs_remove (tmp_path path) fs1) (tmp_path path) = None"
      "file_of (fs_remove (tmp_path path) fs1) path = file_of fs1 path"
    using tmp_path_other [of path] by (auto simp: file_of_def fs_remove_def delete_conv')
  ultimately show ?thesis
    using inv ph run(2) stop
    by (cases ph) (auto simp: save_step_def save_inv_def fs_inv_def Let_def tmp_holds_def file_of_def snapshot_file_def)
qed

theorem save_reports_failure_witness:
  "\<exists>fs'. SaveSnapshot demo_enc ''dump.rdb'' [demo_entry] [Okay 0, Okay 99, Fail ''sync'', Okay 0] demo_fs
      = (Finished (Some ''sync''), fs') \<and> file_of fs' (tmp_path ''dump.rdb'') = None"
proof -
  let ?r = "SaveSnapshot demo_enc ''dump.rdb'' [demo_entry] (map Okay [0, 99]) demo_fs"
  let ?f = "SaveSnapshot demo_enc ''dump.rdb'' [demo_entry] (map Okay [0, 99] @ Fail ''sync'' # Okay 0 # []) demo_fs"
  have "case fst ?r of Writing i off \<Rightarrow> True | _ \<Rightarrow> False"
    by code_simp
  then have r: "\<exists>i off. fst ?r = Writing i off"
    by (simp split: phase.splits)
  have "fst ?f = Finished (Some ''sync'') \<and> file_of (snd ?f) ''dump.rdb'' = file_of demo_fs ''dump.rdb'' \<and>
      file_of (snd ?f) (tmp_path ''dump.rdb'') =
        (case fst ?r of Creating \<Rightarrow> file_of (snd ?r) (tmp_path ''dump.rdb'') | Writing i off \<Rightarrow> None
         | _ \<Rightarrow> Some (snapshot_file (demo_enc [demo_entry])))"
    by (rule save_reports_failure [where ns = "[0, 99]", OF demo_fs_ok(1,2)]) (use r in auto)
  then show ?thesis
    using r by (intro exI [of _ "snd ?f"]) (auto simp: prod_eq_iff)
qed

text \<open>
  Two saves at once can destroy the snapshot. Both use the same temporary file: if the
  second save opens it after the first has synced it, the first one renames an empty file into place
  and reports success, although no call has failed.
\<close>
lemma concurrent_saves_lose_snapshot:
  "\<exists>evs i fs'. both_run ca cb path (map (\<lambda>(w, n). (w, Okay n)) evs)
       (Creating, Creating, \<lparr>vdir = [(path, 0)], vnodes = [snapshot_file old], vpast = past\<rparr>) = (Finished None, Writing i 0, fs') \<and>
     file_of fs' path = Some \<lparr>ndata = [], nsynced = False\<rparr>"
proof -
  let ?fs = "\<lparr>vdir = [(path, 0)], vnodes = [snapshot_file old], vpast = past\<rparr>"
  let ?evs = "(if ca = [] then [] else [(True, length ca)])"
  let ?dir = "[(path, 0), (tmp_path path, 1)]"
  have "both_run ca cb path (map (\<lambda>(w, n). (w, Okay n)) ([(True, 0)] @ ?evs @ [(True, 0), (True, 0), (False, 0), (True, 0)]))
      (Creating, Creating, ?fs) = (Finished None, Writing 1 0, \<lparr>vdir = [(path, 1)],
        vnodes = [snapshot_file old, \<lparr>ndata = [], nsynced = False\<rparr>], vpast = ?dir # [(path, 0)] # past\<rparr>)"
    using tmp_path_other [of path]
    by (auto simp: save_step_def fs_create_def fs_write_def fs_sync_def fs_rename_def set_dir_def)
  then show ?thesis
    by (intro exI conjI) (assumption, simp add: file_of_def)
qed

end
