(* ===== verification/Fas_Client.thy ===== *)
theory Fas_Client
  imports Fas_Server_Props
begin

text \<open>
  The command line client (\<^verbatim>\<open>cmd/fs/main.go\<close>): sending a command, reading and printing a reply,
  the endless loop after \<^verbatim>\<open>SUBSCRIBE\<close> and the interactive loop. A connection is the list of
  pieces its reads deliver before it ends; each \<^verbatim>\<open>bufio.Reader\<close> has a buffer of 4096 bytes.
  What is printed is a string, \<^verbatim>\<open>os.Exit(1)\<close> an outcome of its own. The password of the environment
  and the error of a write are arguments, as is the text of a scan error.
\<close>

section \<open>The buffered reader\<close>

definition bufsize :: nat where "bufsize = 4096"

record reader =
  rBuf :: bytes
  rConn :: "bytes list"

definition NewReader :: "bytes list \<Rightarrow> reader" where
  "NewReader conn = \<lparr>rBuf = [], rConn = conn\<rparr>"

text \<open>One read of a connection into \<open>n\<close> bytes; a read never delivers nothing.\<close>

fun conn_read :: "nat \<Rightarrow> bytes list \<Rightarrow> (bytes \<times> bytes list) option" where
  "conn_read n [] = None"
| "conn_read n (c # cs) =
     (if c = [] then conn_read n cs
      else if length c \<le> n then Some (c, cs) else Some (take n c, drop n c # cs))"

definition conn_size :: "bytes list \<Rightarrow> nat" where
  "conn_size cs = length (concat cs)"

lemma conn_read_some:
  assumes "conn_read n cs = Some (c, cs')"
  shows "concat cs = c @ concat cs'" "0 < n \<Longrightarrow> c \<noteq> []" "length c \<le> n"
  using assms by (induction n cs rule: conn_read.induct) (auto split: if_splits)

text \<open>\<^verbatim>\<open>ReadString\<close>: fill the buffer until it has a newline; a full buffer is set aside.\<close>

function read_line :: "bytes \<Rightarrow> bytes \<Rightarrow> bytes list \<Rightarrow> (string \<times> reader) option" where
  "read_line acc got0 conn =
     (if LF \<in> set got0
      then Some (acc @ takeWhile (\<lambda>c. c \<noteq> LF) got0 @ [LF], \<lparr>rBuf = tl (dropWhile (\<lambda>c. c \<noteq> LF) got0), rConn = conn\<rparr>)
      else if bufsize \<le> length got0 then read_line (acc @ got0) [] conn
      else case conn_read (bufsize - length got0) conn of
        None \<Rightarrow> None
      | Some (c, conn') \<Rightarrow> read_line acc (got0 @ c) conn')"
  by pat_completeness auto
termination
proof (relation "measure (\<lambda>(acc, got0, conn). 2 * conn_size conn + length got0)", goal_cases)
  case (2 acc got0 conn)
  then show ?case
    by (auto simp: bufsize_def)
next
  case (3 acc got0 conn p c conn')
  then have "conn_read (bufsize - length got0) conn = Some (c, conn')"
    by simp
  from conn_read_some(1,2) [OF this] 3 show ?case
    by (simp add: conn_size_def)
qed simp

declare read_line.simps [simp del]

definition reader_ReadString :: "reader \<Rightarrow> (string \<times> reader) option" where
  "reader_ReadString r = read_line [] (rBuf r) (rConn r)"

text \<open>\<^verbatim>\<open>Read\<close> into a slice of \<open>n\<close> bytes: what the buffer holds, or one read of the connection.\<close>

definition reader_Read :: "nat \<Rightarrow> reader \<Rightarrow> (bytes \<times> reader) option" where
  "reader_Read n r =
     (if n = 0 then Some ([], r)
      else if rBuf r \<noteq> [] then Some (take n (rBuf r), r\<lparr>rBuf := drop n (rBuf r)\<rparr>)
      else if bufsize \<le> n then
        (case conn_read n (rConn r) of None \<Rightarrow> None | Some (c, conn') \<Rightarrow> Some (c, r\<lparr>rConn := conn'\<rparr>))
      else
        (case conn_read bufsize (rConn r) of
           None \<Rightarrow> None
         | Some (c, conn') \<Rightarrow> Some (take n c, \<lparr>rBuf = drop n c, rConn = conn'\<rparr>)))"

section \<open>Printing replies\<close>

datatype cli = Printed bytes reader | Exited bytes | Crashed string

text \<open>The largest slice the runtime allocates on a 64-bit system.\<close>

definition maxAlloc :: int where "maxAlloc = 2 ^ 48"

definition readAndPrintResponse :: "(scan_error \<Rightarrow> string) \<Rightarrow> reader \<Rightarrow> cli" where
  "readAndPrintResponse st r =
     (case reader_ReadString r of
        None \<Rightarrow> Exited (''Error reading response: EOF'' @ [LF])
      | Some (text, r1) \<Rightarrow>
          if \<not> HasPrefix text ''$'' then Printed text r1
          else case sscanf_lit_d (CHR ''$'') text of
            Inl e \<Rightarrow> Exited (text @ ''Error parsing bulk string length: '' @ st e @ [LF])
          | Inr len \<Rightarrow>
              if len = -1 then Printed text r1
              else let n = wrap64 (len + 2) in
                if n < 0 \<or> maxAlloc < n then Crashed ''makeslice: len out of range''
                else case reader_Read (nat n) r1 of
                  None \<Rightarrow> Exited (text @ ''Error reading bulk data: EOF'' @ [LF])
                | Some (got, r2) \<Rightarrow> Printed (text @ got @ replicate (nat n - length got) (CHR 0x00)) r2)"

text \<open>The bytes that are still to come; each reply that is printed uses up some.\<close>

definition reader_size :: "reader \<Rightarrow> nat" where
  "reader_size r = length (rBuf r) + conn_size (rConn r)"

lemma read_line_shorter:
  "read_line acc got0 conn = Some (line, r) \<Longrightarrow> reader_size r < length got0 + conn_size conn"
proof (induction acc got0 conn rule: read_line.induct)
  case (1 acc got0 conn)
  show ?case
  proof (cases "LF \<in> set got0")
    case True
    then have "length (tl (dropWhile (\<lambda>c. c \<noteq> LF) got0)) < length got0"
      by (induction got0) (auto simp: less_SucI)
    then show ?thesis
      using 1(3) True by (auto simp: read_line.simps [of acc got0] reader_size_def)
  next
    case False
    show ?thesis
    proof (cases "bufsize \<le> length got0")
      case True
      then show ?thesis
        using 1(1) [OF False True] 1(3) False by (simp add: read_line.simps [of acc got0])
    next
      case nfull: False
      then obtain c conn' where c: "conn_read (bufsize - length got0) conn = Some (c, conn')"
          "read_line acc (got0 @ c) conn' = Some (line, r)"
        using 1(3) False by (auto simp: read_line.simps [of acc got0] split: option.splits)
      have "reader_size r < length (got0 @ c) + conn_size conn'"
        using 1(2) [OF False nfull c(1) refl c(2)] .
      then show ?thesis
        using conn_read_some(1) [OF c(1)] by (simp add: conn_size_def)
    qed
  qed
qed

lemma reader_Read_size: "reader_Read n r = Some (got, r') \<Longrightarrow> reader_size r' \<le> reader_size r"
  by (auto simp: reader_Read_def reader_size_def conn_size_def split: if_splits option.splits dest!: conn_read_some(1))

lemma printed_shorter: "readAndPrintResponse st r = Printed out r' \<Longrightarrow> reader_size r' < reader_size r"
  by (auto simp: readAndPrintResponse_def reader_ReadString_def reader_size_def [of r] Let_def
      split: option.splits if_splits sum.splits dest!: read_line_shorter reader_Read_size)

section \<open>Sending commands\<close>

text \<open>The loop after \<^verbatim>\<open>SUBSCRIBE\<close>, with what was printed before.\<close>

function print_forever :: "(scan_error \<Rightarrow> string) \<Rightarrow> bytes \<Rightarrow> reader \<Rightarrow> cli" where
  "print_forever st printed r =
     (case readAndPrintResponse st r of
        Printed out r' \<Rightarrow> print_forever st (printed @ out) r'
      | Exited out \<Rightarrow> Exited (printed @ out)
      | Crashed m \<Rightarrow> Crashed m)"
  by pat_completeness auto
termination
  by (relation "measure (\<lambda>(st, printed, r). reader_size r)") (auto dest: printed_shorter)

declare print_forever.simps [simp del]

datatype sent = Sent bytes bytes "bytes list" | SentExit bytes bytes | SentCrash string

text \<open>
  \<^verbatim>\<open>sendCommand\<close>: the bytes sent, what was printed and the connection that remains. Every reader
  is a new one, and what a reader has buffered when it is dropped is gone.
\<close>

definition after_auth ::
  "golib \<Rightarrow> (scan_error \<Rightarrow> string) \<Rightarrow> string option \<Rightarrow> string list \<Rightarrow> bytes \<Rightarrow> bytes \<Rightarrow> bytes list \<Rightarrow> sent"
where
  "after_auth L st werr args sent printed conn =
     (case werr of
        Some e \<Rightarrow> Sent sent (printed @ ''Error sending command: '' @ e @ [LF]) conn
      | None \<Rightarrow>
          (let sent' = sent @ WriteCommand args;
               sub = (args \<noteq> [] \<and> ToUpper L (hd args) = ''SUBSCRIBE'')
           in case (if sub
                    then print_forever st (printed @ ''Reading messages... (Press Ctrl+C to quit)'' @ [LF]) (NewReader conn)
                    else readAndPrintResponse st (NewReader conn)) of
                Printed out r \<Rightarrow> Sent sent' (printed @ out) (rConn r)
              | Exited out \<Rightarrow> SentExit sent' (if sub then out else printed @ out)
              | Crashed m \<Rightarrow> SentCrash m))"

definition sendCommand ::
  "golib \<Rightarrow> (scan_error \<Rightarrow> string) \<Rightarrow> string \<Rightarrow> string option \<Rightarrow> string list \<Rightarrow> bytes list \<Rightarrow> sent"
where
  "sendCommand L st pass werr args conn =
     (if pass = [] then after_auth L st werr args [] [] conn
      else case readAndPrintResponse st (NewReader conn) of
        Printed out r \<Rightarrow> after_auth L st werr args (WriteCommand [''AUTH'', pass]) out (rConn r)
      | Exited out \<Rightarrow> SentExit (WriteCommand [''AUTH'', pass]) out
      | Crashed m \<Rightarrow> SentCrash m)"

text \<open>The interactive loop over the lines of the terminal; a line above 64 KB ends it.\<close>

fun interactive ::
  "golib \<Rightarrow> (scan_error \<Rightarrow> string) \<Rightarrow> string \<Rightarrow> string list \<Rightarrow> bytes \<Rightarrow> bytes \<Rightarrow> bytes list \<Rightarrow> sent"
where
  "interactive L st pass [] sent printed conn = Sent sent (printed @ ''fs> '') conn"
| "interactive L st pass (l # ls) sent printed conn =
     (let printed' = printed @ ''fs> ''; cmdLine = TrimSpace (dropCR l) in
      if 65536 \<le> length l then Sent sent printed' conn
      else if cmdLine = [] then interactive L st pass ls sent printed' conn
      else if cmdLine = ''exit'' \<or> cmdLine = ''quit'' then Sent sent printed' conn
      else case sendCommand L st pass None (Fields cmdLine) conn of
        Sent s out conn' \<Rightarrow> interactive L st pass ls (sent @ s) (printed' @ out) conn'
      | SentExit s out \<Rightarrow> SentExit (sent @ s) (printed' @ out)
      | SentCrash m \<Rightarrow> SentCrash m)"

definition cli_main ::
  "golib \<Rightarrow> (scan_error \<Rightarrow> string) \<Rightarrow> string \<Rightarrow> string list \<Rightarrow> bytes \<Rightarrow> bytes list \<Rightarrow> sent"
where
  "cli_main L st pass args stdin conn =
     (if args \<noteq> [] then sendCommand L st pass None args conn
      else interactive L st pass (scan_lines stdin) [] (''fs-cli v0.1.0'' @ [LF]) conn)"

text \<open>
  The flags and the connection. \<open>dial\<close> is the network: given whether TLS is asked for and the address, an error
  or what the server will send. A host with a colon is written in brackets (\<^verbatim>\<open>net.JoinHostPort\<close>).
\<close>

record cli_flags =
  clfHost :: string
  clfPort :: string
  clfTLS :: bool
  clfArgs :: "string list"

definition default_cli_flags :: cli_flags where
  "default_cli_flags = \<lparr>clfHost = ''127.0.0.1'', clfPort = ''6379'', clfTLS = False, clfArgs = []\<rparr>"

definition JoinHostPort :: "string \<Rightarrow> string \<Rightarrow> string" where
  "JoinHostPort host port =
     (if CHR '':'' \<in> set host then CHR ''['' # host @ '']:'' @ port else host @ CHR '':'' # port)"

definition cli_start ::
  "golib \<Rightarrow> (scan_error \<Rightarrow> string) \<Rightarrow> string \<Rightarrow> (bool \<Rightarrow> string \<Rightarrow> string + bytes list) \<Rightarrow> cli_flags \<Rightarrow> bytes \<Rightarrow> sent"
where
  "cli_start L st pass dial f stdin =
     (case dial (clfTLS f) (JoinHostPort (clfHost f) (clfPort f)) of
        Inl e \<Rightarrow> SentExit [] (''Error connecting to server: '' @ e @ [LF])
      | Inr conn \<Rightarrow> cli_main L st pass (clfArgs f) stdin conn)"

lemma cli_default_address:
  "cli_start L st pass dial default_cli_flags stdin =
     (case dial False ''127.0.0.1:6379'' of
        Inl e \<Rightarrow> SentExit [] (''Error connecting to server: '' @ e @ [LF])
      | Inr conn \<Rightarrow> interactive L st pass (scan_lines stdin) [] (''fs-cli v0.1.0'' @ [LF]) conn)"
  by (simp add: cli_start_def default_cli_flags_def JoinHostPort_def cli_main_def split: sum.split)

section \<open>Facts about printing\<close>

lemma first_line:
  assumes "conn_read bufsize conn = Some (l @ LF # rest, conn')" "LF \<notin> set l"
  shows "reader_ReadString (NewReader conn) = Some (l @ [LF], \<lparr>rBuf = rest, rConn = conn'\<rparr>)"
proof -
  have "read_line [] [] conn = read_line [] (l @ LF # rest) conn'"
    using assms(1) by (subst read_line.simps) (simp add: bufsize_def)
  also have "\<dots> = Some (l @ [LF], \<lparr>rBuf = rest, rConn = conn'\<rparr>)"
    using assms(2) by (subst read_line.simps) (simp add: takeWhile_append dropWhile_append)
  finally show ?thesis
    by (simp add: reader_ReadString_def NewReader_def)
qed

lemma print_line:
  assumes "conn_read bufsize conn = Some (c # l @ LF # rest, conn')" "LF \<notin> set (c # l)" "c \<noteq> CHR ''$''"
  shows "readAndPrintResponse st (NewReader conn) = Printed (c # l @ [LF]) \<lparr>rBuf = rest, rConn = conn'\<rparr>"
  using first_line [of conn "c # l" rest conn'] assms by (simp add: readAndPrintResponse_def HasPrefix_def)

definition bulk_header :: "nat \<Rightarrow> bytes" where
  "bulk_header n = CHR ''$'' # dec_nat n @ crlf"

lemma print_bulk:
  assumes "conn_read bufsize conn = Some (bulk_header n @ part, conn')" "part \<noteq> []" "int n + 2 \<le> maxAlloc"
  shows "readAndPrintResponse st (NewReader conn)
    = Printed (bulk_header n @ take (n + 2) part @ replicate (n + 2 - length part) (CHR 0x00)) \<lparr>rBuf = drop (n + 2) part, rConn = conn'\<rparr>"
proof -
  have n: "n < 2 ^ 63"
    using assms(3) by (simp add: maxAlloc_def)
  have line: "reader_ReadString (NewReader conn) = Some (bulk_header n, \<lparr>rBuf = part, rConn = conn'\<rparr>)"
    using first_line [of conn "CHR ''$'' # dec_nat n @ [CR]" part conn'] assms(1) dec_nat_no_crlf [of n]
    by (simp add: bulk_header_def)
  have "\<not> is_digit CR"
    by (simp add: is_digit_def)
  then have "sscanf_lit_d (CHR ''$'') (bulk_header n) = Inr (int n)"
    using scan_d_dec_nat [OF n, of crlf] by (simp add: sscanf_lit_d_def bulk_header_def)
  moreover have "HasPrefix (bulk_header n) ''$''"
    by (simp add: HasPrefix_def bulk_header_def)
  moreover have "wrap64 (int n + 2) = int n + 2" "nat (int n + 2) = n + 2"
    using assms(3) by (simp_all add: wrap64_id maxAlloc_def nat_add_distrib)
  ultimately show ?thesis
    using line assms(2,3) by (simp add: readAndPrintResponse_def Let_def reader_Read_def min_def)
qed

lemma dec_int_no_lf: "LF \<notin> set (dec_int n)"
  using dec_nat_no_crlf(2) by (simp add: dec_int_def)

lemma reply_bytes_cases:
  "HasPrefix resp ''ERR '' \<and> reply_bytes L resp = WriteError (Errorf0 L (TrimPrefix resp ''ERR '')) \<or>
   (\<exists>n. reply_bytes L resp = WriteInteger n) \<or> reply_bytes L resp = WriteNull \<or>
   reply_bytes L resp = WriteString ''OK'' \<or> reply_bytes L resp = WriteBulkString resp"
  by (cases "HasPrefix resp ''ERR ''"; cases "HasPrefix resp ''(integer) ''"; cases "resp = ''(nil)''"; cases "resp = ''OK''")
    (auto simp: reply_bytes_def)

section \<open>Properties\<close>

text \<open>
  C40: Server and client agree on replies. The reply that \<^verbatim>\<open>handleConnection\<close> makes of the string a command answers
  with, if it is at most 4096 bytes, arrives in one piece and is not an error text with a line break, is printed by the
  client byte for byte, and the client is then at the end of that reply. The arrays that \<^verbatim>\<open>SUBSCRIBE\<close> sends
  are not such replies, and longer ones or replies in pieces can be printed wrongly (\<open>client_pads_short_read\<close>).
\<close>
theorem client_prints_reply:
  assumes "length (reply_bytes L resp) \<le> bufsize"
    and "HasPrefix resp ''ERR '' \<Longrightarrow> LF \<notin> set (Errorf0 L (TrimPrefix resp ''ERR ''))"
  shows "readAndPrintResponse st (NewReader (reply_bytes L resp # conn)) = Printed (reply_bytes L resp) (NewReader conn)"
proof -
  let ?reply = "reply_bytes L resp"
  have line: ?thesis if "?reply = c # l @ [LF]" "LF \<notin> set (c # l)" "c \<noteq> CHR ''$''" for c l
  proof -
    have "conn_read bufsize (?reply # conn) = Some (c # l @ LF # [], conn)"
      using assms(1) that(1) by simp
    from print_line [OF this that(2,3)] show ?thesis
      by (simp add: that(1) NewReader_def)
  qed
  consider (err) "HasPrefix resp ''ERR ''" "?reply = WriteError (Errorf0 L (TrimPrefix resp ''ERR ''))"
    | (int) n where "?reply = WriteInteger n" | (nil) "?reply = WriteNull" | (ok) "?reply = WriteString ''OK''"
    | (bulk) "?reply = WriteBulkString resp"
    using reply_bytes_cases by blast
  then show ?thesis
  proof cases
    case err
    show ?thesis
      by (rule line [of "CHR ''-''" "Errorf0 L (TrimPrefix resp ''ERR '') @ [CR]"]) (use err assms(2) in \<open>simp_all add: WriteError_def\<close>)
  next
    case (int n)
    show ?thesis
      by (rule line [of "CHR '':''" "dec_int n @ [CR]"]) (use int dec_int_no_lf in \<open>simp_all add: WriteInteger_def\<close>)
  next
    case nil
    have "sscanf_lit_d (CHR ''$'') (''$-1'' @ crlf) = Inr (- 1)"
      by code_simp
    moreover have "conn_read bufsize (?reply # conn) = Some ((''$-1'' @ [CR]) @ LF # [], conn)"
      using nil by (simp add: WriteNull_def bufsize_def)
    from first_line [OF this] have "reader_ReadString (NewReader (?reply # conn)) = Some (?reply, NewReader conn)"
      by (simp add: nil WriteNull_def NewReader_def)
    ultimately show ?thesis
      by (simp add: readAndPrintResponse_def nil WriteNull_def HasPrefix_def)
  next
    case ok
    show ?thesis
      by (rule line [of "CHR ''+''" "''OK'' @ [CR]"]) (use ok in \<open>simp_all add: WriteString_def\<close>)
  next
    case bulk
    have "conn_read bufsize (?reply # conn) = Some (bulk_header (length resp) @ resp @ crlf, conn)"
      using assms(1) bulk by (simp add: WriteBulkString_def bulk_header_def)
    from print_bulk [OF this] show ?thesis
      using assms(1) bulk by (simp add: WriteBulkString_def bulk_header_def bufsize_def maxAlloc_def NewReader_def)
  qed
qed

theorem client_prints_reply_witness:
  "readAndPrintResponse (\<lambda>_. []) (NewReader [reply_bytes ascii_golib ''hello'']) = Printed (''$5'' @ crlf @ ''hello'' @ crlf) (NewReader [])"
proof -
  have "reply_bytes ascii_golib ''hello'' = ''$5'' @ crlf @ ''hello'' @ crlf" "\<not> HasPrefix ''hello'' ''ERR ''"
    by code_simp+
  then show ?thesis
    using client_prints_reply [of ascii_golib "''hello''" "\<lambda>_. []" "[]"] by (simp add: bufsize_def)
qed

text \<open>
  A bulk reply that does not arrive at once is printed wrong. When the first read of the
  connection ends inside the data, as it must for a reply above 4096 bytes, the client prints
  what it has, fills the rest with zero bytes, and leaves the missing bytes on the connection, where
  they will be taken for the reply to the next command.
\<close>
lemma client_pads_short_read:
  assumes "conn_read bufsize conn = Some (take m (WriteBulkString s), conn')"
    and "length (bulk_header (length s)) < m" "m < length (WriteBulkString s)" "int (length s) + 2 \<le> maxAlloc"
  shows "readAndPrintResponse st (NewReader conn)
    = Printed (take m (WriteBulkString s) @ replicate (length (WriteBulkString s) - m) (CHR 0x00)) (NewReader conn')"
proof -
  let ?h = "bulk_header (length s)"
  let ?part = "take (m - length ?h) (s @ crlf)"
  have reply: "WriteBulkString s = ?h @ s @ crlf"
    by (simp add: WriteBulkString_def bulk_header_def)
  have m: "take m (WriteBulkString s) = ?h @ ?part"
    unfolding reply using assms(2) by simp
  have len: "length ?part = m - length ?h" "m - length ?h < length s + 2" "?part \<noteq> []"
    using assms(2,3) by (auto simp: reply)
  have "conn_read bufsize conn = Some (?h @ ?part, conn')"
    using assms(1) unfolding m .
  from print_bulk [OF this len(3) assms(4), of st] have
    "readAndPrintResponse st (NewReader conn) = Printed (?h @ ?part @ replicate (length s + 2 - (m - length ?h)) (CHR 0x00)) (NewReader conn')"
    using len(1,2) by (simp add: NewReader_def)
  moreover have "length s + 2 - (m - length ?h) = length (WriteBulkString s) - m"
    using assms(2) by (simp add: reply)
  ultimately show ?thesis
    unfolding m by simp
qed

text \<open>
  A subscription of the client ends with its connection. The loop has no exit of its own, but on every
  connection that delivers finitely many bytes it prints what it can and leaves the program by the
  error of a read, or crashes on a length it cannot allocate; it never returns to the caller.
\<close>
lemma subscribe_session_ends:
  "(\<exists>out. print_forever st printed r = Exited (printed @ out)) \<or> (\<exists>m. print_forever st printed r = Crashed m)"
proof (induction st printed r rule: print_forever.induct)
  case (1 st printed r)
  show ?case
  proof (cases "readAndPrintResponse st r")
    case (Printed out r')
    with 1 [OF this] show ?thesis
      by (auto simp: print_forever.simps [of st printed r])
  qed (simp_all add: print_forever.simps [of st printed r])
qed

end
