(* ===== verification/Spec2Isabelle.thy ===== *)
theory Spec2Isabelle
  imports Fas_Kqueue Fas_Race Fas_Sessions Fas_Snapshot Fas_Client
begin

text \<open>
  A verification development for \<^bold>\<open>fas\<close>, an in-memory key-value server in Go, and its
  command line client.

  \<^bold>\<open>The program.\<close> Clients send commands in the RESP protocol
  (\<^verbatim>\<open>src/pkg/protocol\<close>). The server (\<^verbatim>\<open>src/pkg/server\<close>) serves each connection by a goroutine,
  or all of them by an event loop (\<^verbatim>\<open>eventloop_linux.go\<close>, \<^verbatim>\<open>eventloop_darwin.go\<close>); it
  parses commands, checks authentication and slot ownership, and runs them against a key-value
  store with expiry, a memory limit and five eviction policies (\<^verbatim>\<open>src/pkg/store/store.go\<close>)
  and against a publish/subscribe hub (\<^verbatim>\<open>src/pkg/pubsub\<close>). Writes are logged to an append-only file,
  streamed to replicas and can be saved as a snapshot (\<^verbatim>\<open>src/pkg/persistence\<close>). Keys are
  hashed to slots of a static cluster table (\<^verbatim>\<open>slot.go\<close>, \<^verbatim>\<open>cluster.go\<close>). The programs
  \<^verbatim>\<open>src/cmd/fas\<close> and \<^verbatim>\<open>src/cmd/fs\<close> start the server and talk to it.

  \<^bold>\<open>Foundations.\<close>
  \<^item> \<open>Fas_Prelude\<close>: Go maps as association lists, sums over them, generic facts.
  \<^item> \<open>Fas_Go\<close>: what the program uses of Go itself: panics, 64-bit wrap-around,
    \<^verbatim>\<open>strings\<close>, decimal printing and \<^verbatim>\<open>fmt.Sscanf\<close> with \<^verbatim>\<open>%d\<close>.

  \<^bold>\<open>The store.\<close>
  \<^item> \<open>Fas_Heap\<close>: \<^verbatim>\<open>container/heap\<close> and the two heaps of \<^verbatim>\<open>store.go\<close>; the locale
    \<open>heap_interface\<close> proves order and contents once for both.
  \<^item> \<open>Fas_Fifo\<close>: the ring buffer of \<^verbatim>\<open>store.go\<close> with tombstones, growth and compaction,
    refined to a queue of keys (locale \<open>fifo_queue\<close>).
  \<^item> \<open>Fas_Store\<close>: the record \<open>store\<close> and every operation of \<^verbatim>\<open>store.go\<close>. The clock
    (\<open>now\<close>) and the order in which Go ranges over a map (\<open>ord\<close>) are arguments, so a theorem
    holds for every clock and every order. \<^verbatim>\<open>getWithNow\<close> has two states, one per lock phase.
  \<^item> \<open>Fas_Store_Inv\<close>, \<open>Fas_Store_Ops\<close>: the invariant \<open>store_inv\<close> (accounting, ring, heaps)
    and that each operation keeps it; the eviction loops through the locales
    \<open>victim_heap\<close> and \<open>evict_loop\<close>.
  \<^item> \<open>Fas_Store_Props\<close>: reachable states, the store against a client's map, memory limit,
    order of eviction, expiry, snapshots.

  \<^bold>\<open>Protocol, hub, cluster, files, configuration.\<close>
  \<^item> \<open>Fas_Protocol\<close>, \<open>Fas_Protocol_Props\<close>: both parsers and the writer; round trips,
    independence of chunking, limits, panics.
  \<^item> \<open>Fas_PubSub\<close>: channels, subscriptions and a step relation for concurrent publishers: no
    send on a closed channel, order and count of deliveries, and that publishers finish.
  \<^item> \<open>Fas_Cluster\<close>: CRC-16 on 16-bit words, slots, the slot table and its parser.
  \<^item> \<open>Fas_Aof\<close>: opening, writing and closing the log with device faults and the three sync policies,
    the goroutine that syncs it, reading it back when it is cut off at any byte.
  \<^item> \<open>Fas_Config\<close>: the configuration record, its validation and the configuration file.
  \<^item> \<open>Fas_Snapshot\<close>: \<^verbatim>\<open>SaveSnapshot\<close> as a machine whose steps are system calls on a file
    system with inodes, so that crashes, failures and a second save can come between any two of them. The
    directory is never synced, so a crash may leave any of its past entries: a save is atomic, but one that was
    reported as done can be undone by a crash. What a failed save leaves; two saves at once can lose everything.

  \<^bold>\<open>The server.\<close>
  \<^item> \<open>Fas_Server\<close>: the record \<open>server\<close>, \<^verbatim>\<open>executeCommand\<close> with every command, the
    loop of a connection (\<^verbatim>\<open>handleConnection\<close>), subscriptions, replication in both directions,
    heartbeat, snapshots and \<^verbatim>\<open>restoreData\<close>, where a log that cannot be opened ends the start.
  \<^item> \<open>Fas_Server_Props\<close>: the authentication gate, redirection, replies; the log and the
    replication stream carry the whole contents of the store.
  \<^item> \<open>Fas_World\<close>: all goroutines of a server as one step relation, with the invariant that
    ties the shared state to what the goroutines hold, and the absence of panics.
  \<^item> \<open>Fas_Race\<close>: \<^verbatim>\<open>SET\<close> and \<^verbatim>\<open>MIGRATE\<close> as the steps between which other goroutines may act. The
    locale \<open>write_behind\<close> says when a copy that lags behind the store is faithful; the log and the
    replicas are its two interpretations. Writes of one key that overlap break it.
  \<^item> \<open>Fas_Replica\<close>: an iteration of \<^verbatim>\<open>startReplicaClient\<close> with its error paths, composed with the
    loop that serves it on the master, and the roles of a server that was started as a replica. A
    connection, on either side, is a run of the world.
  \<^item> \<open>Fas_Sessions\<close>: the accept loop, the connections that are open, what each is used for and whether its
    client is still there; a replica is sent its snapshot in one step and registered in another, and on a server that
    is a replica the commands of its master come in between. The sessions refine the world. On a server that is
    no replica, clients that subscribe and leave are never noticed.
  \<^item> \<open>Fas_EventLoop\<close>: one client of an event loop: input buffer, commands, write buffer.
  \<^item> \<open>Fas_Loop\<close>: the table of connections and the dispatch of events. The locale
    \<open>client_ops\<close> states what an event loop needs from reading and writing one connection,
    \<open>loop_system\<close> what a whole loop promises; both are interpreted for Linux and Darwin. The commands a run executes are
    given exactly, as those in the bytes each client sent, past the gate, each once and in order
    (\<open>el_commands\<close> and \<open>el_admit\<close> of \<open>Fas_EventLoop\<close>).
  \<^item> \<open>Fas_Kqueue\<close>: \<^verbatim>\<open>eventloop_darwin.go\<close> with the registrations the kernel holds, from the
    system calls of its start to the results of waiting. Without the registrations it is the loop of
    \<open>Fas_Loop\<close>; with them, a reply that waits can be forgotten only after a call that adds the interest has
    failed. A run of either loop is a run of the world.
  \<^item> \<open>Fas_Main\<close>: \<^verbatim>\<open>cmd/fas/main.go\<close> from flags to configuration, \<^verbatim>\<open>Start\<close> and
    \<^verbatim>\<open>StartEventLoop\<close>, the metrics page; where the two ways to start differ.
  \<^item> \<open>Fas_Client\<close>: \<^verbatim>\<open>cmd/fs/main.go\<close> with the buffering of its reader; which replies it
    prints faithfully and which not.

  \<^bold>\<open>Bounds and termination.\<close> No definition uses fuel. Loops over maps recurse on the
  order argument, the loops over the ring and the heaps on their sizes (\<open>measure\<close>), the
  loops of the parsers on the count in the header, which is at most 1024, the loops that read a
  connection, a log or a buffer on the bytes that are left. The endless loops of the event loops and of
  the goroutines are runs over a list of events and reachability relations. Times, sizes and counters are
  unbounded integers, except the expiry time, which wraps at 64 bits as
  \<^verbatim>\<open>time.Add\<close> and \<^verbatim>\<open>UnixNano\<close> do, and lengths read from the network.

  \<^bold>\<open>Parameters.\<close> The Unicode case tables and \<^verbatim>\<open>fmt.Errorf\<close> with stray verbs are fields of
  \<open>golib\<close>. The clock readings of a command, map orders, faults of the log device (in writing; those of opening it are an argument of \<open>restoreData\<close>), the result of a
  save and the answers of other servers are fields of \<open>env\<close>. \<^verbatim>\<open>net.ResolveTCPAddr\<close>,
  \<^verbatim>\<open>netip.ParsePrefix\<close> and \<^verbatim>\<open>Prefix.Contains\<close>, the text of a scan error, \<^verbatim>\<open>encoding/gob\<close>
  and the results of the system calls of the event loops are arguments.

  \<^bold>\<open>Not modelled.\<close> Sockets, TLS, the pauses between retries, the HTTP server of the metrics page,
  the parsing of flags, logging: they are calls of the operating system or of libraries, and what they
  return is an argument. A write error of a connection that serves commands is not modelled, because the
  code ignores it; those of subscriptions, replication streams and event loops are. The registrations of
  \<^verbatim>\<open>epoll\<close> are not kept: the mark of a client changes only together with its interest there, and
  \<open>epoll_no_lost_reply\<close> shows what it guarantees. The world takes a
  whole command, once it has been parsed, as one step (the panics of the parser are the subject of
  \<open>parse_negative_panics\<close>); \<open>Fas_Race\<close> and \<open>Fas_PubSub\<close> look inside \<^verbatim>\<open>SET\<close> and \<^verbatim>\<open>PUBLISH\<close>.
\<close>

end
